(* ===== verification/Kernel_Prelude.thy ===== *)
theory Kernel_Prelude
  imports Main "HOL-Library.Word"
begin

text \<open>
  What every component of the development shares: the machine types of the kernel
  (rv64, release build: \<open>usize\<close> arithmetic wraps), results that carry the kernel's
  error strings, outcomes for code that can panic or hang on a lock, and the interface
  of the Vec-backed FIFO queues that both the scheduler and the IPC endpoints use.
\<close>

section \<open>Machine types and results\<close>

type_synonym u8 = "8 word"
type_synonym u16 = "16 word"
type_synonym u32 = "32 word"
type_synonym u64 = "64 word"

text \<open>
  A \<open>usize\<close> that counts or indexes is a \<open>nat\<close> below \<open>2 ^ 64\<close>; where the code
  could wrap, the wrap is written with the two operations below.
\<close>

type_synonym usize = nat

text \<open>\<open>Result<'a, &'static str>\<close> of the kernel: \<open>Inl\<close> carries the error string.\<close>

type_synonym 'a result = "string + 'a"

definition usize_add :: "usize \<Rightarrow> usize \<Rightarrow> usize" where
  "usize_add a b = (a + b) mod 2 ^ 64"

definition usize_sub :: "usize \<Rightarrow> usize \<Rightarrow> usize" where
  "usize_sub a b = (a + (2 ^ 64 - b mod 2 ^ 64)) mod 2 ^ 64"

text \<open>Code that can panic, or spin for ever on a lock, returns an outcome.\<close>

datatype 'a outcome = Ret 'a | Panic | Hang

fun obind :: "'a outcome \<Rightarrow> ('a \<Rightarrow> 'b outcome) \<Rightarrow> 'b outcome" where
  "obind (Ret x) f = f x"
| "obind Panic f = Panic"
| "obind Hang f = Hang"

text \<open>
  Little-endian byte strings: \<open>from_le_bytes\<close> and \<open>to_le_bytes\<close> of the integer types, and
  writing a slice of a buffer in place.
\<close>

fun from_le :: "u8 list \<Rightarrow> nat" where
  "from_le [] = 0"
| "from_le (b # bs) = unat b + 256 * from_le bs"

definition to_le :: "nat \<Rightarrow> 'a::len word \<Rightarrow> u8 list" where
  "to_le n w = map (\<lambda>i. ucast (drop_bit (8 * i) w)) [0..<n]"

definition overwrite :: "usize \<Rightarrow> 'a list \<Rightarrow> 'a list \<Rightarrow> 'a list" where
  "overwrite pos xs buf = take pos buf @ xs @ drop (pos + length xs) buf"

named_theorems kernel_arith \<open>arithmetic of usize and machine words\<close>

lemma usize_add_small [kernel_arith]: "a + b < 2 ^ 64 \<Longrightarrow> usize_add a b = a + b"
  by (simp add: usize_add_def)

lemma usize_sub_small [kernel_arith]:
  assumes "b \<le> a" and "a < 2 ^ 64"
  shows "usize_sub a b = a - b"
proof -
  have "b mod 2 ^ 64 = b" using assms by simp
  then have "usize_sub a b = ((a - b) + 2 ^ 64) mod 2 ^ 64"
    using assms by (simp add: usize_sub_def)
  also have "\<dots> = (a - b) mod 2 ^ 64"
    by (rule mod_add_self2)
  finally show ?thesis
    using assms by simp
qed

lemma obind_eq_Ret [simp]: "obind m f = Ret y \<longleftrightarrow> (\<exists>x. m = Ret x \<and> f x = Ret y)"
  by (cases m) auto

lemma obind_Ret_right [simp]: "obind m Ret = m"
  by (cases m) auto

lemma obind_assoc: "obind (obind m f) g = obind m (\<lambda>x. obind (f x) g)"
  by (cases m) auto

lemma length_to_le [simp]: "length (to_le n w) = n"
  by (simp add: to_le_def)

lemma to_le_Suc: "to_le (Suc n) w = ucast w # to_le n (drop_bit 8 w)"
  by (simp add: to_le_def upt_conv_Cons map_Suc_upt [symmetric] add.commute del: upt_Suc)

lemma from_le_to_le: "from_le (to_le n w) = unat w mod 256 ^ n"
proof (induction n arbitrary: w)
  case 0
  then show ?case by (simp add: to_le_def)
next
  case (Suc n)
  have "unat (ucast w :: u8) = unat w mod 256"
    by (simp add: unsigned_ucast_eq take_bit_eq_mod)
  moreover have "unat (drop_bit 8 w) = unat w div 256"
    by (simp only: unat_drop_bit_eq) (simp add: drop_bit_eq_div)
  ultimately show ?case
    by (simp add: to_le_Suc Suc mod_mult2_eq)
qed

lemma le_roundtrip_u64: "of_nat (from_le (to_le 8 w)) = (w :: u64)"
proof -
  have "unat w < 256 ^ 8" using unsigned_less [of w] by simp
  then show ?thesis by (simp add: from_le_to_le)
qed

lemma length_overwrite [simp]: "pos + length xs \<le> length buf \<Longrightarrow> length (overwrite pos xs buf) = length buf"
  by (simp add: overwrite_def)

lemma nth_overwrite:
  "pos + length xs \<le> length buf \<Longrightarrow> i < length buf \<Longrightarrow>
   overwrite pos xs buf ! i = (if pos \<le> i \<and> i < pos + length xs then xs ! (i - pos) else buf ! i)"
  by (auto simp: overwrite_def nth_append min_def)

lemma overwrite_read: "pos + length xs \<le> length buf \<Longrightarrow> take (length xs) (drop pos (overwrite pos xs buf)) = xs"
  by (simp add: overwrite_def)

lemma length_filter_visit:
  "i < length xs \<Longrightarrow> \<not> xs ! i \<Longrightarrow> length (filter Not (xs[i := True])) < length (filter Not xs)"
proof (induction xs arbitrary: i)
  case (Cons x xs)
  then show ?case by (cases i) auto
qed simp

section \<open>The FIFO interface\<close>

text \<open>
  \<open>ThreadQueue\<close> (sched/mod.rs) and \<open>MessageQueue\<close> (ipc/endpoint.rs) are queues a
  client only pushes at the back, pops at the front and tests for emptiness. What a
  client may rely on is stated over the list of queued elements, \<open>contents\<close>.
\<close>

locale fifo =
  fixes new :: 'q
    and push_back :: "'a \<Rightarrow> 'q \<Rightarrow> 'q"
    and pop_front :: "'q \<Rightarrow> ('a \<times> 'q) option"
    and is_empty :: "'q \<Rightarrow> bool"
    and contents :: "'q \<Rightarrow> 'a list"
    and invar :: "'q \<Rightarrow> bool"
  assumes invar_new: "invar new"
    and contents_new: "contents new = []"
    and invar_push: "invar q \<Longrightarrow> invar (push_back x q)"
    and contents_push: "invar q \<Longrightarrow> contents (push_back x q) = contents q @ [x]"
    and pop_None: "invar q \<Longrightarrow> pop_front q = None \<longleftrightarrow> contents q = []"
    and pop_Some: "invar q \<Longrightarrow> pop_front q = Some (x, q') \<Longrightarrow>
      contents q = x # contents q' \<and> invar q'"
    and is_empty_iff: "invar q \<Longrightarrow> is_empty q \<longleftrightarrow> contents q = []"
begin

lemma invar_fold_push: "invar q \<Longrightarrow> invar (fold push_back xs q)"
  by (induction xs arbitrary: q) (auto intro: invar_push)

lemma contents_fold_push: "invar q \<Longrightarrow> contents (fold push_back xs q) = contents q @ xs"
  by (induction xs arbitrary: q) (auto simp: contents_push invar_push)

fun drain :: "nat \<Rightarrow> 'q \<Rightarrow> 'a list \<times> 'q" where
  "drain 0 q = ([], q)"
| "drain (Suc n) q =
     (case pop_front q of None \<Rightarrow> ([], q)
      | Some (x, q') \<Rightarrow> (let (xs, q'') = drain n q' in (x # xs, q'')))"

text \<open>Popping returns the queued elements oldest first, for any number of pops.\<close>

lemma drain_contents:
  "invar q \<Longrightarrow> drain n q = (xs, q') \<Longrightarrow>
   xs = take n (contents q) \<and> contents q' = drop n (contents q) \<and> invar q'"
proof (induction n arbitrary: q xs q')
  case 0
  then show ?case by simp
next
  case (Suc n)
  show ?case
  proof (cases "pop_front q")
    case None
    with Suc.prems show ?thesis by (simp add: pop_None)
  next
    case (Some p)
    obtain x q1 where p: "p = (x, q1)" by (cases p)
    obtain ys q2 where d: "drain n q1 = (ys, q2)" by (cases "drain n q1")
    from Suc.prems(1) Some p have q1: "contents q = x # contents q1" "invar q1"
      by (auto dest: pop_Some)
    from Suc.IH [OF q1(2) d] Suc.prems(2) Some p d q1(1) show ?thesis
      by simp
  qed
qed

lemma push_then_drain:
  assumes "invar q" and "contents q = []"
  shows "fst (drain (length xs) (fold push_back xs q)) = xs"
proof -
  obtain ys q' where d: "drain (length xs) (fold push_back xs q) = (ys, q')"
    by (cases "drain (length xs) (fold push_back xs q)")
  from drain_contents [OF invar_fold_push [OF assms(1)] d] assms show ?thesis
    by (simp add: d contents_fold_push)
qed

end

end
