(* ===== verification/Buddy_Allocator.thy ===== *)
theory Buddy_Allocator
  imports Kernel_Prelude
begin

unbundle bit_operations_syntax

text \<open>
  The buddy allocator of kernel/src/mem/buddy.rs: thirteen free lists of power-of-two
  blocks whose links are stored in the first eight bytes of the free pages themselves.

  Physical memory is a function from byte addresses to 8-byte cells. A page is named
  by its index from \<open>base\<close>, as in the source. \<open>None\<close> as the result of \<open>split\<close>,
  \<open>try_merge\<close>, \<open>alloc_pages\<close> and \<open>free_pages\<close> stands for a call that panics
  (\<open>unwrap\<close> of \<open>None\<close>, \<open>unreachable!\<close>) or never returns (a cyclic free list);
  the theorems below show that it does not happen.
\<close>

section \<open>Definitions\<close>

type_synonym pmem = "usize \<Rightarrow> u64"

definition PAGE_SIZE :: usize where "PAGE_SIZE = 4096"

definition MAX_ORDER :: usize where "MAX_ORDER = 12"

definition FREE_LIST_COUNT :: usize where "FREE_LIST_COUNT = MAX_ORDER + 1"

record BuddyInner =
  free_lists :: "usize option list"
  base :: usize
  bend :: usize
  total_pages :: usize
  allocated_pages :: usize

type_synonym bstate = "BuddyInner \<times> pmem"

text \<open>Links live in the free pages; the value 0 stands for the end of a list.\<close>

definition node_next :: "pmem \<Rightarrow> usize \<Rightarrow> usize \<Rightarrow> usize option" where
  "node_next m page bs =
     (let val = unat (m (bs + page * PAGE_SIZE))
      in if val = 0 then None else Some val)"

definition set_node_next :: "usize \<Rightarrow> usize option \<Rightarrow> usize \<Rightarrow> pmem \<Rightarrow> pmem" where
  "set_node_next page nxt bs m =
     m(bs + page * PAGE_SIZE := of_nat (case nxt of None \<Rightarrow> 0 | Some n \<Rightarrow> n))"

definition addr_to_page :: "BuddyInner \<Rightarrow> usize \<Rightarrow> usize" where
  "addr_to_page b addr = usize_sub addr (base b) div PAGE_SIZE"

definition page_to_addr :: "BuddyInner \<Rightarrow> usize \<Rightarrow> usize" where
  "page_to_addr b page = usize_add (base b) (page * PAGE_SIZE)"

definition has_buddy :: "BuddyInner \<Rightarrow> usize \<Rightarrow> usize \<Rightarrow> bool" where
  "has_buddy b page order =
     (let block_size = 2 ^ order;
          buddy_page = page XOR block_size;
          buddy_addr = page_to_addr b buddy_page;
          buddy_end = usize_add buddy_addr (block_size * PAGE_SIZE)
      in base b \<le> buddy_addr \<and> buddy_end \<le> bend b)"

definition push_free :: "usize \<Rightarrow> usize \<Rightarrow> bstate \<Rightarrow> bstate" where
  "push_free page order = (\<lambda>(b, m).
     (b\<lparr>free_lists := (free_lists b)[order := Some page]\<rparr>,
      set_node_next page (free_lists b ! order) (base b) m))"

definition pop_free :: "usize \<Rightarrow> bstate \<Rightarrow> usize option \<times> bstate" where
  "pop_free order = (\<lambda>(b, m).
     (case free_lists b ! order of
        None \<Rightarrow> (None, (b, m))
      | Some p \<Rightarrow>
          (Some p, (b\<lparr>free_lists := (free_lists b)[order := node_next m p (base b)]\<rparr>, m))))"

function split :: "bstate \<Rightarrow> usize \<Rightarrow> usize \<Rightarrow> (usize \<times> bstate) option" where
  "split s order target =
     (if order > target then
        (let ord = order - 1; buddy_offset = 2 ^ ord in
         case pop_free (ord + 1) s of
           (None, _) \<Rightarrow> None
         | (Some block_start, s1) \<Rightarrow>
             (let s2 = push_free (block_start + buddy_offset) ord s1 in
              if ord > target then split (push_free block_start ord s2) ord target
              else Some (block_start, s2)))
      else None)"
  by pat_completeness auto
termination
  by (relation "measure (\<lambda>(s, order, target). order)") auto

text \<open>The scan of one free list for the buddy: was it found, and what precedes it.\<close>

partial_function (option) find_buddy ::
  "pmem \<Rightarrow> usize \<Rightarrow> usize \<Rightarrow> usize option \<Rightarrow> usize option \<Rightarrow> (bool \<times> usize option) option" where
  [code]: "find_buddy m bs buddy_page prev cur =
     (case cur of
        None \<Rightarrow> Some (False, prev)
      | Some p \<Rightarrow>
          if p = buddy_page then Some (True, prev)
          else find_buddy m bs buddy_page cur (node_next m p bs))"

definition unlink :: "bstate \<Rightarrow> usize \<Rightarrow> usize \<Rightarrow> usize option \<Rightarrow> bstate" where
  "unlink = (\<lambda>(b, m) order buddy_page prev.
     (let buddy_next = node_next m buddy_page (base b) in
      case prev of
        Some prev_p \<Rightarrow> (b, set_node_next prev_p buddy_next (base b) m)
      | None \<Rightarrow> (b\<lparr>free_lists := (free_lists b)[order := buddy_next]\<rparr>, m)))"

function try_merge :: "bstate \<Rightarrow> usize \<Rightarrow> usize \<Rightarrow> bstate option" where
  "try_merge s page order =
     (if order < MAX_ORDER then
        (let b = fst s; m = snd s; buddy_page = page XOR 2 ^ order in
         if \<not> has_buddy b page order then Some (push_free page order s)
         else
           (case find_buddy m (base b) buddy_page None (free_lists b ! order) of
              None \<Rightarrow> None
            | Some (found, prev) \<Rightarrow>
                if \<not> found then Some (push_free page order s)
                else try_merge (unlink s order buddy_page prev) (unset_bit order page) (order + 1)))
      else Some (push_free page order s))"
  by pat_completeness auto
termination
  by (relation "measure (\<lambda>(s, page, order). MAX_ORDER - order)") auto

text \<open>\<open>for o in order..=MAX_ORDER\<close>: the first non-empty list that is large enough.\<close>

function alloc_loop :: "bstate \<Rightarrow> usize \<Rightarrow> usize \<Rightarrow> (usize option \<times> bstate) option" where
  "alloc_loop s order ord =
     (if ord \<le> MAX_ORDER then
        (if free_lists (fst s) ! ord \<noteq> None then
           (if ord > order then
              (case split s ord order of
                 None \<Rightarrow> None
               | Some (lower, (b, m)) \<Rightarrow>
                   Some (Some lower,
                     (b\<lparr>allocated_pages := allocated_pages b + 2 ^ order\<rparr>, m)))
            else
              (case pop_free ord s of
                 (None, _) \<Rightarrow> None
               | (Some page, (b, m)) \<Rightarrow>
                   Some (Some page,
                     (b\<lparr>allocated_pages := allocated_pages b + 2 ^ ord\<rparr>, m))))
         else alloc_loop s order (ord + 1))
      else Some (None, s))"
  by pat_completeness auto
termination
  by (relation "measure (\<lambda>(s, order, ord). Suc MAX_ORDER - ord)") auto

definition alloc_pages :: "bstate \<Rightarrow> usize \<Rightarrow> (usize option \<times> bstate) option" where
  "alloc_pages s order =
     (if order > MAX_ORDER then Some (None, s) else alloc_loop s order order)"

definition free_pages :: "bstate \<Rightarrow> usize \<Rightarrow> usize \<Rightarrow> bstate option" where
  "free_pages s page order =
     (if order > MAX_ORDER then Some s
      else try_merge
        ((fst s)\<lparr>allocated_pages := usize_sub (allocated_pages (fst s)) (2 ^ order)\<rparr>, snd s)
        page order)"

text \<open>The boot-time carving of the region into blocks, largest first.\<close>

function init_loop :: "bstate \<Rightarrow> usize \<Rightarrow> usize \<Rightarrow> usize \<Rightarrow> bstate" where
  "init_loop s remaining offset order =
     (if remaining \<ge> 2 ^ order then
        init_loop (push_free offset order s) (remaining - 2 ^ order) (offset + 2 ^ order) order
      else if order > 0 then init_loop s remaining offset (order - 1)
      else s)"
  by pat_completeness auto
termination
  by (relation "measures [\<lambda>(s, remaining, offset, order). order,
                          \<lambda>(s, remaining, offset, order). remaining]")
    (auto intro!: diff_less intro: less_le_trans [of 0 "2 ^ _"])

definition init :: "pmem \<Rightarrow> usize \<Rightarrow> usize \<Rightarrow> bstate" where
  "init m bs e =
     (let pages = (e - bs) div PAGE_SIZE;
          b = \<lparr>free_lists = replicate FREE_LIST_COUNT None, base = bs, bend = e,
               total_pages = pages, allocated_pages = 0\<rparr>
      in init_loop (b, m) pages 0 MAX_ORDER)"

partial_function (option) count_chain :: "pmem \<Rightarrow> usize \<Rightarrow> usize \<Rightarrow> usize option \<Rightarrow> usize \<Rightarrow> usize option" where
  [code]: "count_chain m bs order cur acc =
     (case cur of
        None \<Rightarrow> Some acc
      | Some page \<Rightarrow> count_chain m bs order (node_next m page bs) (acc + 2 ^ order))"

fun count_orders :: "bstate \<Rightarrow> usize list \<Rightarrow> usize \<Rightarrow> usize option" where
  "count_orders s [] acc = Some acc"
| "count_orders s (order # os) acc =
     (case count_chain (snd s) (base (fst s)) order (free_lists (fst s) ! order) acc of
        None \<Rightarrow> None
      | Some t \<Rightarrow> count_orders s os t)"

definition count_free_pages :: "bstate \<Rightarrow> usize option" where
  "count_free_pages s = count_orders s [0..<Suc MAX_ORDER] 0"

declare split.simps [simp del] try_merge.simps [simp del] alloc_loop.simps [simp del]
  init_loop.simps [simp del]

section \<open>What the free lists mean\<close>

text \<open>\<open>chain m bs h ps\<close>: following the links in memory from \<open>h\<close> visits \<open>ps\<close> and ends.\<close>

primrec chain :: "pmem \<Rightarrow> usize \<Rightarrow> usize option \<Rightarrow> usize list \<Rightarrow> bool" where
  "chain m bs h [] \<longleftrightarrow> h = None"
| "chain m bs h (p # ps) \<longleftrightarrow> h = Some p \<and> chain m bs (node_next m p bs) ps"

text \<open>
  A layout gives the contents of each free list. It is well formed when its blocks are
  aligned to their size, inside the region and pairwise disjoint.
\<close>

type_synonym layout = "usize \<Rightarrow> usize list"

definition block :: "usize \<Rightarrow> usize \<Rightarrow> usize set" where
  "block p ord = {p..<p + 2 ^ ord}"

definition free_chains :: "bstate \<Rightarrow> layout \<Rightarrow> bool" where
  "free_chains s L \<longleftrightarrow>
     (\<forall>ord\<le>MAX_ORDER. chain (snd s) (base (fst s)) (free_lists (fst s) ! ord) (L ord))"

definition blocks_of :: "layout \<Rightarrow> (usize \<times> usize) set" where
  "blocks_of L = {(p, ord). ord \<le> MAX_ORDER \<and> p \<in> set (L ord)}"

definition frames_of :: "layout \<Rightarrow> usize set" where
  "frames_of L = (\<Union>(p, ord) \<in> blocks_of L. block p ord)"

definition wf_blocks :: "usize \<Rightarrow> (usize \<times> usize) set \<Rightarrow> bool" where
  "wf_blocks n B \<longleftrightarrow>
     (\<forall>(p, ord) \<in> B. 2 ^ ord dvd p \<and> p + 2 ^ ord \<le> n) \<and>
     (\<forall>x \<in> B. \<forall>y \<in> B. x \<noteq> y \<longrightarrow> block (fst x) (snd x) \<inter> block (fst y) (snd y) = {})"

definition geometry :: "BuddyInner \<Rightarrow> bool" where
  "geometry b \<longleftrightarrow>
     length (free_lists b) = FREE_LIST_COUNT \<and>
     base b + total_pages b * PAGE_SIZE \<le> bend b \<and>
     bend b < base b + Suc (total_pages b) * PAGE_SIZE \<and>
     bend b < 2 ^ 64"

definition buddy_layout :: "bstate \<Rightarrow> layout \<Rightarrow> bool" where
  "buddy_layout s L \<longleftrightarrow>
     geometry (fst s) \<and> free_chains s L \<and> wf_blocks (total_pages (fst s)) (blocks_of L)"

definition keep :: "usize list \<Rightarrow> usize list" where
  "keep ps = (if ps \<noteq> [] \<and> hd ps = 0 then [] else ps)"

definition same_region :: "bstate \<Rightarrow> bstate \<Rightarrow> bool" where
  "same_region s t \<longleftrightarrow>
     base (fst t) = base (fst s) \<and> bend (fst t) = bend (fst s) \<and>
     total_pages (fst t) = total_pages (fst s)"

text \<open>Only the first cell of a page in \<open>F\<close> is written between \<open>s\<close> and \<open>t\<close>.\<close>

definition untouched :: "usize set \<Rightarrow> bstate \<Rightarrow> bstate \<Rightarrow> bool" where
  "untouched F s t \<longleftrightarrow>
     (\<forall>a. (\<forall>p\<in>F. a \<noteq> base (fst s) + p * PAGE_SIZE) \<longrightarrow> snd t a = snd s a)"

definition merge_ok :: "bstate \<Rightarrow> layout \<Rightarrow> usize \<Rightarrow> usize \<Rightarrow> bstate \<Rightarrow> layout \<Rightarrow> bool" where
  "merge_ok s L page order s' L' \<longleftrightarrow>
     buddy_layout s' L' \<and> same_region s s' \<and>
     allocated_pages (fst s') = allocated_pages (fst s) \<and>
     block page order \<subseteq> frames_of L' \<and>
     (\<exists>k. order \<le> k \<and> k \<le> MAX_ORDER \<and> L' k \<noteq> []) \<and>
     untouched (frames_of L \<union> block page order) s s' \<and>
     frames_of L' \<subseteq> frames_of L \<union> block page order \<and>
     (0 \<notin> frames_of L \<longrightarrow> frames_of L' = frames_of L \<union> block page order)"

definition grown :: "bstate \<Rightarrow> usize set \<Rightarrow> bstate \<Rightarrow> bool" where
  "grown s F t \<longleftrightarrow> (\<exists>L'. buddy_layout t L' \<and> frames_of L' = F) \<and> same_region s t \<and>
     allocated_pages (fst t) = allocated_pages (fst s)"

section \<open>Lemmas\<close>

subsection \<open>Free lists in memory\<close>

lemma chain_None [simp]: "chain m bs None ps \<longleftrightarrow> ps = []"
  by (cases ps) auto

lemma chain_Some: "chain m bs (Some p) ps \<longleftrightarrow> (\<exists>qs. ps = p # qs \<and> chain m bs (node_next m p bs) qs)"
  by (cases ps) auto

lemma node_next_neq_0 [simp]: "node_next m p bs \<noteq> Some 0"
  by (simp add: node_next_def Let_def)

lemma node_next_bound: "node_next m p bs = Some q \<Longrightarrow> q < 2 ^ 64"
  using unsigned_less [of "m (bs + p * PAGE_SIZE)", where ?'a = nat]
  by (auto simp: node_next_def Let_def split: if_splits)

lemma chain_unique: "chain m bs h ps \<Longrightarrow> chain m bs h qs \<Longrightarrow> ps = qs"
proof (induction ps arbitrary: h qs)
  case Nil
  then show ?case by simp
next
  case (Cons p ps)
  then show ?case by (cases qs) auto
qed

lemma chain_suffix: "chain m bs h (ps @ qs) \<Longrightarrow> \<exists>h'. chain m bs h' qs"
  by (induction ps arbitrary: h) auto

lemma chain_distinct: "chain m bs h ps \<Longrightarrow> distinct ps"
proof (induction ps arbitrary: h)
  case Nil
  then show ?case by simp
next
  case (Cons p ps)
  have "p \<notin> set ps"
  proof
    assume "p \<in> set ps"
    then obtain xs ys where ps: "ps = xs @ p # ys" by (auto simp: in_set_conv_decomp)
    from Cons.prems have c: "chain m bs (node_next m p bs) ps" by simp
    with ps obtain h' where "chain m bs h' (p # ys)" using chain_suffix by blast
    then have "chain m bs (node_next m p bs) ys" by simp
    with c have "ps = ys" by (rule chain_unique)
    with ps show False by simp
  qed
  with Cons show ?case by auto
qed

text \<open>Page 0 can only head a list: a stored link to it reads as the end of the list.\<close>

lemma chain_tl_nonzero: "chain m bs h (p # ps) \<Longrightarrow> 0 \<notin> set ps"
proof (induction ps arbitrary: h p)
  case Nil
  then show ?case by simp
next
  case (Cons q ps)
  then have "node_next m p bs = Some q" "chain m bs (node_next m p bs) (q # ps)" by auto
  with Cons.IH [of "node_next m p bs" q] show ?case
    by (metis node_next_neq_0 set_ConsD)
qed

lemma node_next_upd_other:
  "q \<noteq> p \<Longrightarrow> node_next (set_node_next p nxt bs m) q bs = node_next m q bs"
  by (simp add: node_next_def set_node_next_def PAGE_SIZE_def)

lemma node_next_upd_same:
  assumes "\<And>n. nxt = Some n \<Longrightarrow> n < 2 ^ 64"
  shows "node_next (set_node_next p nxt bs m) p bs = (if nxt = Some 0 then None else nxt)"
  using assms
  by (cases nxt) (auto simp: node_next_def set_node_next_def unat_of_nat take_bit_nat_eq_self)

lemma chain_upd_other:
  "p \<notin> set ps \<Longrightarrow> chain (set_node_next p nxt bs m) bs h ps \<longleftrightarrow> chain m bs h ps"
  by (induction ps arbitrary: h) (auto simp: node_next_upd_other)

lemma find_buddy_chain:
  "chain m bs h ps \<Longrightarrow>
   find_buddy m bs x prev h =
     (if x \<in> set ps then
        Some (True, let xs = takeWhile (\<lambda>y. y \<noteq> x) ps in if xs = [] then prev else Some (last xs))
      else Some (False, if ps = [] then prev else Some (last ps)))"
proof (induction ps arbitrary: h prev)
  case Nil
  then show ?case by (simp add: find_buddy.simps)
next
  case (Cons p ps)
  then have h: "h = Some p" and c: "chain m bs (node_next m p bs) ps" by auto
  show ?case
  proof (cases "p = x")
    case True
    with h show ?thesis by (simp add: find_buddy.simps [of _ _ _ _ "Some x"] Let_def)
  next
    case False
    with h have "find_buddy m bs x prev h = find_buddy m bs x h (node_next m p bs)"
      by (simp add: find_buddy.simps [of _ _ _ prev "Some p"])
    with Cons.IH [OF c, of h] False h show ?thesis
      by (auto simp: Let_def)
  qed
qed

lemma count_chain_chain:
  "chain m bs h ps \<Longrightarrow> count_chain m bs order h acc = Some (acc + length ps * 2 ^ order)"
proof (induction ps arbitrary: h acc)
  case Nil
  then show ?case by (simp add: count_chain.simps)
next
  case (Cons p ps)
  then have h: "h = Some p" and c: "chain m bs (node_next m p bs) ps" by auto
  have "count_chain m bs order h acc = count_chain m bs order (node_next m p bs) (acc + 2 ^ order)"
    using h by (simp add: count_chain.simps [of _ _ _ "Some p"])
  with Cons.IH [OF c] show ?case by simp
qed

text \<open>Taking the element after \<open>xs\<close> out of a chain, as \<open>unlink\<close> does.\<close>

lemma chain_remove_after:
  assumes "chain m bs h (xs @ x # ys)" and "xs \<noteq> []"
  shows "chain (set_node_next (last xs) (node_next m x bs) bs m) bs h (xs @ ys)"
  using assms
proof (induction xs arbitrary: h)
  case Nil
  then show ?case by simp
next
  case (Cons p xs)
  let ?m = "set_node_next (last (p # xs)) (node_next m x bs) bs m"
  from Cons.prems have h: "h = Some p" and c: "chain m bs (node_next m p bs) (xs @ x # ys)"
    by auto
  from chain_distinct [OF Cons.prems(1)] have d: "distinct (p # xs @ x # ys)" by simp
  show ?case
  proof (cases "xs = []")
    case True
    have "node_next ?m p bs = node_next m x bs"
      using True node_next_bound by (subst last.simps) (auto simp: node_next_upd_same)
    moreover from c True have "chain m bs (node_next m x bs) ys" by simp
    ultimately show ?thesis
      using True h d by (simp add: chain_upd_other)
  next
    case False
    with d have "p \<noteq> last (p # xs)" by auto
    then have "node_next ?m p bs = node_next m p bs" by (rule node_next_upd_other)
    with Cons.IH [OF c False] False h show ?thesis by simp
  qed
qed


subsection \<open>Layouts\<close>

lemma in_block_self [simp]: "p \<in> block p ord"
  by (simp add: block_def)

lemma block_nonempty [simp]: "block p ord \<noteq> {}"
  using in_block_self by blast

lemma card_block [simp]: "card (block p ord) = 2 ^ ord"
  by (simp add: block_def)

lemma finite_block [simp]: "finite (block p ord)"
  by (simp add: block_def)

lemma wf_blocks_subset: "wf_blocks n B \<Longrightarrow> C \<subseteq> B \<Longrightarrow> wf_blocks n C"
  unfolding wf_blocks_def by blast

lemma wf_blocks_insert:
  assumes "wf_blocks n B" and "2 ^ ord dvd p" and "p + 2 ^ ord \<le> n"
    and "\<And>q o'. (q, o') \<in> B \<Longrightarrow> block p ord \<inter> block q o' = {}"
  shows "wf_blocks n (insert (p, ord) B)"
  using assms unfolding wf_blocks_def by (auto simp: Int_commute; blast)

lemma mem_blocks_of: "(p, ord) \<in> blocks_of L \<longleftrightarrow> ord \<le> MAX_ORDER \<and> p \<in> set (L ord)"
  by (simp add: blocks_of_def)

lemma block_subset_frames: "(p, ord) \<in> blocks_of L \<Longrightarrow> block p ord \<subseteq> frames_of L"
  unfolding frames_of_def by blast

lemma frames_of_mono: "blocks_of L \<subseteq> blocks_of M \<Longrightarrow> frames_of L \<subseteq> frames_of M"
  unfolding frames_of_def by blast

lemma layout_geometry: "buddy_layout s L \<Longrightarrow> geometry (fst s)"
  by (simp add: buddy_layout_def)

lemma layout_chain:
  "buddy_layout s L \<Longrightarrow> ord \<le> MAX_ORDER \<Longrightarrow>
   chain (snd s) (base (fst s)) (free_lists (fst s) ! ord) (L ord)"
  by (simp add: buddy_layout_def free_chains_def)

lemma layout_block:
  assumes "buddy_layout s L" and "(p, ord) \<in> blocks_of L"
  shows "2 ^ ord dvd p" and "p + 2 ^ ord \<le> total_pages (fst s)"
  using assms unfolding buddy_layout_def wf_blocks_def by blast+

lemma layout_disjoint:
  assumes "buddy_layout s L" and "x \<in> blocks_of L" and "y \<in> blocks_of L" and "x \<noteq> y"
  shows "block (fst x) (snd x) \<inter> block (fst y) (snd y) = {}"
  using assms unfolding buddy_layout_def wf_blocks_def by blast

lemma layout_frames_bound: "buddy_layout s L \<Longrightarrow> frames_of L \<subseteq> {..<total_pages (fst s)}"
  using layout_block(2) unfolding frames_of_def block_def by fastforce

lemma geometry_pages_bound: "geometry b \<Longrightarrow> p < total_pages b \<Longrightarrow> p < 2 ^ 64"
  unfolding geometry_def PAGE_SIZE_def by linarith

lemma layout_page_bound:
  assumes "buddy_layout s L" and "ord \<le> MAX_ORDER" and "p \<in> set (L ord)"
  shows "p < 2 ^ 64"
proof -
  from assms have "p + 2 ^ ord \<le> total_pages (fst s)"
    by (auto intro: layout_block(2) simp: mem_blocks_of)
  moreover have "(0::nat) < 2 ^ ord" by simp
  ultimately have "p < total_pages (fst s)" by linarith
  with layout_geometry [OF assms(1)] show ?thesis by (rule geometry_pages_bound)
qed

lemma layout_head:
  assumes "buddy_layout s L" and "ord \<le> MAX_ORDER"
  shows "free_lists (fst s) ! ord = (case L ord of [] \<Rightarrow> None | p # _ \<Rightarrow> Some p)"
  using layout_chain [OF assms] by (cases "L ord") auto

lemma layout_unique:
  assumes "free_chains s L" and "free_chains s M" and "ord \<le> MAX_ORDER"
  shows "L ord = M ord"
  using assms unfolding free_chains_def by (blast intro: chain_unique)

lemma layout_blocks_unique: "free_chains s L \<Longrightarrow> free_chains s M \<Longrightarrow> blocks_of L = blocks_of M"
  using layout_unique [of s L M] by (auto simp: blocks_of_def)

lemma same_region_refl [simp]: "same_region s s"
  by (simp add: same_region_def)

lemma same_region_trans: "same_region s t \<Longrightarrow> same_region t u \<Longrightarrow> same_region s u"
  by (simp add: same_region_def)

lemma untouched_refl [simp]: "snd t = snd s \<Longrightarrow> untouched F s t"
  by (simp add: untouched_def)

lemma untouched_mono: "untouched F s t \<Longrightarrow> F \<subseteq> G \<Longrightarrow> untouched G s t"
  by (auto simp: untouched_def)

lemma untouched_trans:
  "untouched F s t \<Longrightarrow> untouched F t u \<Longrightarrow> same_region s t \<Longrightarrow> untouched F s u"
  by (simp add: untouched_def same_region_def)

lemma untouched_allocated [simp]:
  "untouched F s (b\<lparr>allocated_pages := n\<rparr>, m) \<longleftrightarrow> untouched F s (b, m)"
  by (simp add: untouched_def)

lemma untouched_push: "p \<in> F \<Longrightarrow> untouched F s (push_free p ord s)"
  by (cases s) (auto simp: untouched_def push_free_def set_node_next_def)

subsection \<open>Popping and pushing a block\<close>

lemma blocks_of_upd:
  "ord \<le> MAX_ORDER \<Longrightarrow>
   blocks_of (L(ord := ps)) = (blocks_of L - {(p, ord) |p. True}) \<union> {(p, ord) |p. p \<in> set ps}"
  by (auto simp: blocks_of_def split: if_splits)

lemma pop_layout:
  assumes L: "buddy_layout s L" and ord: "ord \<le> MAX_ORDER" and hd: "L ord = p # ps"
  shows "\<exists>s'. pop_free ord s = (Some p, s') \<and> buddy_layout s' (L(ord := ps)) \<and>
    same_region s s' \<and> allocated_pages (fst s') = allocated_pages (fst s) \<and> snd s' = snd s"
proof -
  obtain b m where s: "s = (b, m)" by (cases s)
  from layout_head [OF L ord] hd s have h: "free_lists b ! ord = Some p" by simp
  from layout_chain [OF L ord] hd s have c: "chain m (base b) (node_next m p (base b)) ps" by simp
  let ?b = "b\<lparr>free_lists := (free_lists b)[ord := node_next m p (base b)]\<rparr>"
  have len: "length (free_lists b) = FREE_LIST_COUNT"
    using layout_geometry [OF L] s by (simp add: geometry_def)
  have "free_chains (?b, m) (L(ord := ps))"
    using L c s ord len by (auto simp: free_chains_def buddy_layout_def FREE_LIST_COUNT_def nth_list_update)
  moreover have "blocks_of (L(ord := ps)) \<subseteq> blocks_of L"
    using hd by (auto simp: blocks_of_def split: if_splits)
  ultimately have "buddy_layout (?b, m) (L(ord := ps))"
    using L s by (auto simp: buddy_layout_def geometry_def intro: wf_blocks_subset)
  with h s show ?thesis by (simp add: pop_free_def same_region_def)
qed

lemma frames_pop:
  assumes L: "buddy_layout s L" and ord: "ord \<le> MAX_ORDER" and hd: "L ord = p # ps"
  shows "frames_of (L(ord := ps)) = frames_of L - block p ord"
    and "block p ord \<subseteq> frames_of L"
proof -
  have x: "(p, ord) \<in> blocks_of L" using ord hd by (simp add: mem_blocks_of)
  then show "block p ord \<subseteq> frames_of L" by (rule block_subset_frames)
  have "distinct (p # ps)" using layout_chain [OF L ord] hd chain_distinct by metis
  then have B: "blocks_of (L(ord := ps)) = blocks_of L - {(p, ord)}"
    using hd by (auto simp: blocks_of_def split: if_splits)
  have "block q o' \<inter> block p ord = {}" if "(q, o') \<in> blocks_of L - {(p, ord)}" for q o'
    using layout_disjoint [OF L, of "(q, o')" "(p, ord)"] x that by auto
  then show "frames_of (L(ord := ps)) = frames_of L - block p ord"
    using x unfolding frames_of_def B by blast
qed

lemma push_layout:
  assumes L: "buddy_layout s L" and ord: "ord \<le> MAX_ORDER"
    and al: "2 ^ ord dvd p" and rng: "p + 2 ^ ord \<le> total_pages (fst s)"
    and dis: "block p ord \<inter> frames_of L = {}"
  shows "buddy_layout (push_free p ord s) (L(ord := p # keep (L ord)))"
proof -
  obtain b m where s: "s = (b, m)" by (cases s)
  have g: "geometry b" using layout_geometry [OF L] s by simp
  then have len: "length (free_lists b) = FREE_LIST_COUNT" by (simp add: geometry_def)
  let ?h = "free_lists b ! ord"
  let ?m = "set_node_next p ?h (base b) m"
  have new: "p \<notin> set (L o')" if "o' \<le> MAX_ORDER" for o'
  proof
    assume "p \<in> set (L o')"
    with that have "block p o' \<subseteq> frames_of L" by (simp add: block_subset_frames mem_blocks_of)
    then have "p \<in> frames_of L" using in_block_self by blast
    with dis show False using in_block_self by blast
  qed
  have "n < 2 ^ 64" if "?h = Some n" for n
    using that layout_head [OF L ord] layout_page_bound [OF L ord] s
    by (cases "L ord") auto
  then have nx: "node_next ?m p (base b) = (if ?h = Some 0 then None else ?h)"
    by (rule node_next_upd_same)
  have c: "chain ?m (base b) (free_lists b ! o') (L o')" if "o' \<le> MAX_ORDER" for o'
    using layout_chain [OF L that] new [OF that] s by (simp add: chain_upd_other)
  have "chain ?m (base b) (node_next ?m p (base b)) (keep (L ord))"
    using nx c [OF ord] by (cases "L ord") (auto simp: keep_def)
  then have "free_chains (push_free p ord s) (L(ord := p # keep (L ord)))"
    using c s ord len
    by (auto simp: free_chains_def push_free_def FREE_LIST_COUNT_def nth_list_update)
  moreover have "wf_blocks (total_pages b) (blocks_of (L(ord := p # keep (L ord))))"
  proof (rule wf_blocks_subset)
    show "blocks_of (L(ord := p # keep (L ord))) \<subseteq> insert (p, ord) (blocks_of L)"
      by (auto simp: blocks_of_def keep_def split: if_splits)
    show "wf_blocks (total_pages b) (insert (p, ord) (blocks_of L))"
    proof (rule wf_blocks_insert)
      show "wf_blocks (total_pages b) (blocks_of L)" using L s by (simp add: buddy_layout_def)
      show "block p ord \<inter> block q o' = {}" if "(q, o') \<in> blocks_of L" for q o'
        using block_subset_frames [OF that] dis by blast
    qed (use al rng s in auto)
  qed
  ultimately show ?thesis
    using g s by (simp add: buddy_layout_def push_free_def geometry_def)
qed

lemma push_free_fields [simp]:
  "base (fst (push_free p ord s)) = base (fst s)"
  "bend (fst (push_free p ord s)) = bend (fst s)"
  "total_pages (fst (push_free p ord s)) = total_pages (fst s)"
  "allocated_pages (fst (push_free p ord s)) = allocated_pages (fst s)"
  by (cases s; simp add: push_free_def)+

lemma frames_push_exact:
  assumes "ord \<le> MAX_ORDER" and "keep (L ord) = L ord"
  shows "frames_of (L(ord := p # keep (L ord))) = block p ord \<union> frames_of L"
proof -
  have "blocks_of (L(ord := p # keep (L ord))) = insert (p, ord) (blocks_of L)"
    using assms by (auto simp: blocks_of_def split: if_splits)
  then show ?thesis by (simp add: frames_of_def)
qed

lemma frames_push_bounds:
  assumes "ord \<le> MAX_ORDER"
  shows "frames_of (L(ord := p # keep (L ord))) \<subseteq> block p ord \<union> frames_of L"
    and "block p ord \<subseteq> frames_of (L(ord := p # keep (L ord)))"
proof -
  have B: "blocks_of (L(ord := p # keep (L ord))) \<subseteq> insert (p, ord) (blocks_of L)"
    by (auto simp: blocks_of_def keep_def split: if_splits)
  have "(\<Union>(q, o') \<in> insert (p, ord) (blocks_of L). block q o') = block p ord \<union> frames_of L"
    by (simp add: frames_of_def)
  with B show "frames_of (L(ord := p # keep (L ord))) \<subseteq> block p ord \<union> frames_of L"
    unfolding frames_of_def by blast
  show "block p ord \<subseteq> frames_of (L(ord := p # keep (L ord)))"
    using assms by (intro block_subset_frames) (simp add: mem_blocks_of)
qed

lemma keep_eq:
  assumes "0 \<notin> frames_of L" and "ord \<le> MAX_ORDER"
  shows "keep (L ord) = L ord"
proof (cases "L ord")
  case Nil
  then show ?thesis by (simp add: keep_def)
next
  case (Cons a ps)
  with assms(2) have "block a ord \<subseteq> frames_of L"
    by (simp add: block_subset_frames mem_blocks_of)
  with assms(1) have "a \<noteq> 0" by (metis in_block_self subsetD)
  with Cons show ?thesis by (simp add: keep_def)
qed

lemma buddy_layout_allocated [simp]:
  "buddy_layout (b\<lparr>allocated_pages := n\<rparr>, m) L \<longleftrightarrow> buddy_layout (b, m) L"
  by (simp add: buddy_layout_def free_chains_def geometry_def)

lemma same_region_allocated [simp]:
  "same_region s (b\<lparr>allocated_pages := n\<rparr>, m) \<longleftrightarrow> same_region s (b, m)"
  by (simp add: same_region_def)

lemma same_region_push [simp]: "same_region s (push_free p ord s)"
  by (simp add: same_region_def)

lemma block_halves:
  "block p (Suc ord) = block p ord \<union> block (p + 2 ^ ord) ord"
  "block p ord \<inter> block (p + 2 ^ ord) ord = {}"
  by (auto simp: block_def)

subsection \<open>Allocation\<close>

lemma split_layout:
  "buddy_layout s L \<Longrightarrow> target < order \<Longrightarrow> order \<le> MAX_ORDER \<Longrightarrow> L order = p # ps \<Longrightarrow>
   (\<And>ord. target \<le> ord \<Longrightarrow> ord < order \<Longrightarrow> L ord = []) \<Longrightarrow>
   \<exists>s' L'. split s order target = Some (p, s') \<and> buddy_layout s' L' \<and> same_region s s' \<and>
     allocated_pages (fst s') = allocated_pages (fst s) \<and>
     frames_of L' = frames_of L - block p target \<and> untouched (frames_of L) s s'"
proof (induction order arbitrary: s L ps)
  case 0
  then show ?case by simp
next
  case (Suc ord)
  note L = Suc.prems(1) and hd = Suc.prems(4)
  have ord: "ord \<le> MAX_ORDER" using Suc.prems(3) by simp
  have pB: "(p, Suc ord) \<in> blocks_of L" using Suc.prems(3) hd by (simp add: mem_blocks_of)
  note al = layout_block [OF L pB]
  from pop_layout [OF L Suc.prems(3) hd] obtain s1 where
    pop: "pop_free (Suc ord) s = (Some p, s1)" and L1: "buddy_layout s1 (L(Suc ord := ps))" and
    r1: "same_region s s1" "allocated_pages (fst s1) = allocated_pages (fst s)" and
    m1: "snd s1 = snd s" by blast
  let ?L1 = "L(Suc ord := ps)" and ?q = "p + 2 ^ ord"
  have fr1: "frames_of ?L1 = frames_of L - block p (Suc ord)"
    using L Suc.prems(3) hd by (rule frames_pop)
  have sub: "block p (Suc ord) \<subseteq> frames_of L"
    using L Suc.prems(3) hd by (rule frames_pop)
  have e1: "?L1 ord = []" using Suc.prems(2,5) by simp
  let ?s2 = "push_free ?q ord s1" and ?L2 = "?L1(ord := [?q])"
  have "2 ^ Suc ord dvd p" using al(1) .
  then have alp: "2 ^ ord dvd p" by (metis dvd_trans le_imp_power_dvd le_SucI order_refl)
  have k1: "keep (?L1 ord) = []" using e1 by (simp add: keep_def)
  have "block ?q ord \<inter> frames_of ?L1 = {}"
    unfolding fr1 block_halves(1) by blast
  with push_layout [OF L1 ord, of ?q] alp al(2) r1 k1 have L2: "buddy_layout ?s2 ?L2"
    by (simp add: same_region_def)
  have "frames_of ?L2 = block ?q ord \<union> frames_of ?L1"
    using frames_push_exact [OF ord, of ?L1 ?q] k1 e1 by simp
  also have "\<dots> = frames_of L - block p ord"
    using sub block_halves(2) [of p ord] unfolding fr1 block_halves(1) by blast
  finally have fr2: "frames_of ?L2 = frames_of L - block p ord" .
  have r2: "same_region s ?s2" using r1 by (simp add: same_region_def)
  have pq: "p \<in> frames_of L" "?q \<in> frames_of L" using sub by (auto simp: block_def)
  then have u2: "untouched (frames_of L) s ?s2"
    by (meson m1 r1(1) untouched_push untouched_refl untouched_trans)
  show ?case
  proof (cases "target < ord")
    case False
    with Suc.prems(2) have "ord = target" by simp
    with pop have "split s (Suc ord) target = Some (p, ?s2)"
      by (subst split.simps) (simp add: Let_def)
    moreover have "same_region s ?s2" "allocated_pages (fst ?s2) = allocated_pages (fst s)"
      using r1 by (simp_all add: same_region_def)
    ultimately show ?thesis using L2 fr2 u2 \<open>ord = target\<close> by blast
  next
    case True
    let ?s3 = "push_free p ord ?s2" and ?L3 = "?L2(ord := [p, ?q])"
    have k: "keep (?L2 ord) = ?L2 ord" by (simp add: keep_def)
    have d: "block p ord \<inter> frames_of ?L2 = {}" unfolding fr2 by blast
    have rg: "p + 2 ^ ord \<le> total_pages (fst ?s2)" using al(2) r1 by (simp add: same_region_def)
    from push_layout [OF L2 ord alp rg d] have L3: "buddy_layout ?s3 ?L3" unfolding k by simp
    have "frames_of ?L3 = block p ord \<union> frames_of ?L2"
      using frames_push_exact [where L = ?L2 and p = p, OF ord k] unfolding k by simp
    also have "\<dots> = frames_of L" using sub unfolding fr2 block_halves(1) by blast
    finally have fr3: "frames_of ?L3 = frames_of L" .
    have e3: "?L3 o' = []" if "target \<le> o'" "o' < ord" for o'
      using that Suc.prems(5) by simp
    have hd3: "?L3 ord = p # [?q]" by simp
    from Suc.IH [OF L3 True ord hd3 e3] obtain s' L' where
      "split ?s3 ord target = Some (p, s')" "buddy_layout s' L'" "same_region ?s3 s'"
      "allocated_pages (fst s') = allocated_pages (fst ?s3)"
      "frames_of L' = frames_of ?L3 - block p target" "untouched (frames_of L) ?s3 s'"
      unfolding fr3 by blast
    moreover have "untouched (frames_of L) s ?s3"
      using untouched_trans [OF u2 untouched_push r2] pq(1) .
    moreover from pop True have "split s (Suc ord) target = split ?s3 ord target"
      by (subst split.simps) (simp add: Let_def)
    ultimately show ?thesis
      using fr3 r1 by (auto simp: same_region_def untouched_def)
  qed
qed

lemma alloc_loop_layout:
  assumes "buddy_layout s L" and "order \<le> ord" and "\<And>k. order \<le> k \<Longrightarrow> k < ord \<Longrightarrow> L k = []"
  shows "if \<exists>k. ord \<le> k \<and> k \<le> MAX_ORDER \<and> L k \<noteq> []
    then \<exists>p s' L'. alloc_loop s order ord = Some (Some p, s') \<and> buddy_layout s' L' \<and>
      same_region s s' \<and> allocated_pages (fst s') = allocated_pages (fst s) + 2 ^ order \<and>
      frames_of L' = frames_of L - block p order \<and> block p order \<subseteq> frames_of L \<and> 2 ^ order dvd p \<and>
      untouched (frames_of L) s s'
    else alloc_loop s order ord = Some (None, s)"
  using assms
proof (induction s order ord rule: alloc_loop.induct)
  case (1 s order ord)
  note L = "1.prems"(1)
  show ?case
  proof (cases "ord \<le> MAX_ORDER")
    case False
    then show ?thesis by (subst alloc_loop.simps) auto
  next
    case ord: True
    show ?thesis
    proof (cases "L ord")
      case Nil
      then have h: "free_lists (fst s) ! ord = None" using layout_head [OF L ord] by simp
      have n: "L k = []" if "order \<le> k" "k < ord + 1" for k
        using that "1.prems"(3) Nil by (cases "k = ord") auto
      have ex: "(\<exists>k. ord \<le> k \<and> k \<le> MAX_ORDER \<and> L k \<noteq> []) \<longleftrightarrow>
            (\<exists>k. ord + 1 \<le> k \<and> k \<le> MAX_ORDER \<and> L k \<noteq> [])"
        using Nil by (metis Suc_eq_plus1 Suc_leD not_less_eq_eq order_antisym)
      have "order \<le> ord + 1" using "1.prems"(2) by simp
      have eq: "alloc_loop s order ord = alloc_loop s order (ord + 1)"
        by (subst alloc_loop.simps) (simp add: ord h)
      from "1.IH" [OF ord _ L \<open>order \<le> ord + 1\<close> n] h show ?thesis
        unfolding ex eq by simp
    next
      case (Cons p ps)
      then have h: "free_lists (fst s) ! ord = Some p" using layout_head [OF L ord] by simp
      have ex: "\<exists>k. ord \<le> k \<and> k \<le> MAX_ORDER \<and> L k \<noteq> []" using Cons ord by auto
      have pB: "(p, ord) \<in> blocks_of L" using ord Cons by (simp add: mem_blocks_of)
      have al: "2 ^ order dvd p"
        using layout_block(1) [OF L pB] "1.prems"(2) by (meson dvd_trans le_imp_power_dvd)
      have "block p order \<subseteq> block p ord"
        using "1.prems"(2) by (simp add: block_def)
      also have "\<dots> \<subseteq> frames_of L" using pB by (rule block_subset_frames)
      finally have sub: "block p order \<subseteq> frames_of L" .
      show ?thesis
      proof (cases "order < ord")
        case True
        from split_layout [OF L True ord Cons "1.prems"(3)] obtain b m L' where
          "split s ord order = Some (p, (b, m))" "buddy_layout (b, m) L'" "same_region s (b, m)"
          "allocated_pages b = allocated_pages (fst s)"
          "frames_of L' = frames_of L - block p order" "untouched (frames_of L) s (b, m)" by auto
        moreover from this(1) True ord h have "alloc_loop s order ord =
            Some (Some p, (b\<lparr>allocated_pages := allocated_pages b + 2 ^ order\<rparr>, m))"
          by (subst alloc_loop.simps) simp
        ultimately show ?thesis
          using al sub ex by (auto intro!: exI [of _ L'])
      next
        case False
        with "1.prems"(2) have eq: "ord = order" by simp
        from pop_layout [OF L ord Cons] obtain b m where
          "pop_free ord s = (Some p, (b, m))" "buddy_layout (b, m) (L(ord := ps))"
          "same_region s (b, m)" "allocated_pages b = allocated_pages (fst s)" "m = snd s" by auto
        moreover from this(1) False ord h have "alloc_loop s order ord =
            Some (Some p, (b\<lparr>allocated_pages := allocated_pages b + 2 ^ ord\<rparr>, m))"
          by (subst alloc_loop.simps) simp
        ultimately show ?thesis
          using al sub ex eq frames_pop(1) [OF L ord Cons]
          by (auto intro!: exI [of _ "L(ord := ps)"])
      qed
    qed
  qed
qed

subsection \<open>Freeing\<close>

lemma bit_aligned:
  fixes p :: nat
  assumes "2 ^ ord dvd p"
  shows "bit p ord \<longleftrightarrow> \<not> 2 ^ Suc ord dvd p"
proof -
  from assms obtain k where k: "p = 2 ^ ord * k" by (rule dvdE)
  have "(2 ^ ord * k) div 2 ^ ord = k" by simp
  then have "bit p ord \<longleftrightarrow> odd k" by (simp add: bit_iff_odd k)
  moreover have "2 ^ Suc ord dvd p \<longleftrightarrow> even k" by (simp add: k mult.commute [of 2])
  ultimately show ?thesis by simp
qed

lemma unset_bit_nat: "unset_bit n (p::nat) = p - of_bool (bit p n) * 2 ^ n"
proof (cases "bit p n")
  case True
  have "set_bit n (unset_bit n p) = p"
    by (rule bit_eqI) (use True in \<open>auto simp: bit_simps\<close>)
  moreover have "set_bit n (unset_bit n p) = unset_bit n p + 2 ^ n"
    by (simp add: set_bit_eq bit_unset_bit_iff)
  ultimately show ?thesis using True by simp
next
  case False
  have "unset_bit n p = p"
    by (rule bit_eqI) (use False in \<open>auto simp: bit_simps\<close>)
  with False show ?thesis by simp
qed

lemma buddy_xor:
  fixes p :: nat
  assumes "2 ^ ord dvd p"
  shows "p XOR 2 ^ ord = (if 2 ^ Suc ord dvd p then p + 2 ^ ord else p - 2 ^ ord)"
proof -
  have "p XOR 2 ^ ord = flip_bit ord p" by (simp add: flip_bit_eq_xor push_bit_of_1)
  then show ?thesis
    using bit_aligned [OF assms] by (simp add: flip_bit_eq_if set_bit_eq unset_bit_nat)
qed

lemma merged_page:
  fixes p :: nat
  assumes "2 ^ ord dvd p"
  shows "unset_bit ord p = (if 2 ^ Suc ord dvd p then p else p - 2 ^ ord)"
  using bit_aligned [OF assms] by (simp add: unset_bit_nat)

lemma aligned_ge: "2 ^ ord dvd (p::nat) \<Longrightarrow> \<not> 2 ^ Suc ord dvd p \<Longrightarrow> 2 ^ ord \<le> p"
  by (cases "p = 0") (auto intro: dvd_imp_le)

lemma merged_block:
  assumes "2 ^ ord dvd p"
  shows "block (unset_bit ord p) (Suc ord) = block p ord \<union> block (p XOR 2 ^ ord) ord"
    and "2 ^ Suc ord dvd unset_bit ord p"
    and "block p ord \<inter> block (p XOR 2 ^ ord) ord = {}"
proof -
  have "2 ^ Suc ord dvd p - 2 ^ ord" if "\<not> 2 ^ Suc ord dvd p"
  proof -
    from assms obtain k where k: "p = 2 ^ ord * k" by (rule dvdE)
    with that have "odd k" by (simp add: mult.commute [of 2])
    then obtain j where "k = 2 * j + 1" by (rule oddE)
    then have "p - 2 ^ ord = 2 ^ Suc ord * j" by (simp add: k algebra_simps)
    then show ?thesis by simp
  qed
  then show "2 ^ Suc ord dvd unset_bit ord p" by (simp add: merged_page [OF assms])
  show "block (unset_bit ord p) (Suc ord) = block p ord \<union> block (p XOR 2 ^ ord) ord"
    using aligned_ge [OF assms]
    by (auto simp: merged_page [OF assms] buddy_xor [OF assms] block_def)
  show "block p ord \<inter> block (p XOR 2 ^ ord) ord = {}"
    using aligned_ge [OF assms] by (auto simp: buddy_xor [OF assms] block_def)
qed

lemma takeWhile_split:
  "x \<in> set xs \<Longrightarrow> \<exists>ys. xs = takeWhile (\<lambda>y. y \<noteq> x) xs @ x # ys"
  by (induction xs) auto

lemma layout_other_order:
  assumes L: "buddy_layout s L" and "p \<in> set (L ord)" and "ord \<le> MAX_ORDER"
    and "o' \<le> MAX_ORDER" and "o' \<noteq> ord"
  shows "p \<notin> set (L o')"
proof
  assume "p \<in> set (L o')"
  with assms have "block p ord \<inter> block p o' = {}"
    using layout_disjoint [OF L, of "(p, ord)" "(p, o')"] by (simp add: mem_blocks_of)
  then show False using in_block_self [of p ord] in_block_self [of p o'] by blast
qed

lemma unlink_layout:
  assumes L: "buddy_layout s L" and ord: "ord \<le> MAX_ORDER" and ps: "L ord = xs @ q # ys"
    and prev: "prev = (if xs = [] then None else Some (last xs))"
  shows "buddy_layout (unlink s ord q prev) (L(ord := xs @ ys))"
    and "same_region s (unlink s ord q prev)"
    and "allocated_pages (fst (unlink s ord q prev)) = allocated_pages (fst s)"
    and "untouched (frames_of L) s (unlink s ord q prev)"
proof -
  obtain b m where s: "s = (b, m)" by (cases s)
  have g: "geometry b" using layout_geometry [OF L] s by simp
  then have len: "length (free_lists b) = FREE_LIST_COUNT" by (simp add: geometry_def)
  from layout_chain [OF L ord] ps s
  have c: "chain m (base b) (free_lists b ! ord) (xs @ q # ys)" by simp
  show "same_region s (unlink s ord q prev)"
    "allocated_pages (fst (unlink s ord q prev)) = allocated_pages (fst s)"
    using s by (simp_all add: unlink_def Let_def same_region_def split: option.splits)
  have "last xs \<in> frames_of L" if "xs \<noteq> []"
    using block_subset_frames [of "last xs" ord L] that ord ps in_block_self [of "last xs" ord]
    by (auto simp: mem_blocks_of)
  then show "untouched (frames_of L) s (unlink s ord q prev)"
    using s prev by (auto simp: unlink_def untouched_def Let_def set_node_next_def)
  have "free_chains (unlink s ord q prev) (L(ord := xs @ ys))"
  proof (cases "xs = []")
    case True
    with c have "chain m (base b) (node_next m q (base b)) ys" by simp
    with True prev L s len ord show ?thesis
      by (auto simp: unlink_def Let_def free_chains_def buddy_layout_def FREE_LIST_COUNT_def
          nth_list_update)
  next
    case False
    then have "last xs \<in> set (L ord)" using ps by simp
    then have "last xs \<notin> set (L o')" if "o' \<le> MAX_ORDER" "o' \<noteq> ord" for o'
      using layout_other_order [OF L _ ord] that by blast
    with chain_remove_after [OF c False] False prev s layout_chain [OF L] ord show ?thesis
      by (auto simp: unlink_def Let_def free_chains_def chain_upd_other)
  qed
  moreover have "blocks_of (L(ord := xs @ ys)) \<subseteq> blocks_of L"
    using ps by (auto simp: blocks_of_def split: if_splits)
  moreover have "geometry (fst (unlink s ord q prev))"
    using g s by (simp add: unlink_def Let_def geometry_def split: option.splits)
  moreover have "total_pages (fst (unlink s ord q prev)) = total_pages b"
    using s by (simp add: unlink_def Let_def split: option.splits)
  ultimately show "buddy_layout (unlink s ord q prev) (L(ord := xs @ ys))"
    using L s by (auto simp: buddy_layout_def intro: wf_blocks_subset)
qed

lemma frames_remove:
  assumes L: "buddy_layout s L" and ord: "ord \<le> MAX_ORDER" and ps: "L ord = xs @ q # ys"
  shows "frames_of (L(ord := xs @ ys)) = frames_of L - block q ord"
    and "block q ord \<subseteq> frames_of L"
proof -
  have x: "(q, ord) \<in> blocks_of L" using ord ps by (simp add: mem_blocks_of)
  then show "block q ord \<subseteq> frames_of L" by (rule block_subset_frames)
  have "distinct (xs @ q # ys)" using layout_chain [OF L ord] ps chain_distinct by metis
  then have B: "blocks_of (L(ord := xs @ ys)) = blocks_of L - {(q, ord)}"
    using ps by (auto simp: blocks_of_def split: if_splits)
  have "block r o' \<inter> block q ord = {}" if "(r, o') \<in> blocks_of L - {(q, ord)}" for r o'
    using layout_disjoint [OF L, of "(r, o')" "(q, ord)"] x that by auto
  then show "frames_of (L(ord := xs @ ys)) = frames_of L - block q ord"
    using x unfolding frames_of_def B by blast
qed

lemma push_merge_ok:
  assumes "buddy_layout s L" and "order \<le> MAX_ORDER" and "2 ^ order dvd page"
    and "page + 2 ^ order \<le> total_pages (fst s)" and "block page order \<inter> frames_of L = {}"
  shows "merge_ok s L page order (push_free page order s) (L(order := page # keep (L order)))"
  using push_layout [OF assms] frames_push_bounds [where L = L and p = page, OF assms(2)]
    frames_push_exact [where L = L and p = page, OF assms(2) keep_eq [where L = L, OF _ assms(2)]]
  using assms(2) by (auto simp: merge_ok_def intro!: exI [of _ order] untouched_push)

lemma try_merge_layout:
  assumes "buddy_layout s L" and "order \<le> MAX_ORDER" and "2 ^ order dvd page"
    and "page + 2 ^ order \<le> total_pages (fst s)" and "block page order \<inter> frames_of L = {}"
  shows "\<exists>s' L'. try_merge s page order = Some s' \<and> merge_ok s L page order s' L'"
  using assms
proof (induction s page order arbitrary: L rule: try_merge.induct)
  case (1 s page order)
  note L = "1.prems"(1) and ord = "1.prems"(2) and al = "1.prems"(3) and rng = "1.prems"(4)
    and dis = "1.prems"(5)
  note push = push_merge_ok [OF L ord al rng dis]
  let ?q = "page XOR 2 ^ order" and ?b = "fst s" and ?m = "snd s"
  show ?case
  proof (cases "order < MAX_ORDER \<and> has_buddy ?b page order \<and> ?q \<in> set (L order)")
    case False
    have "try_merge s page order = Some (push_free page order s)"
      using False find_buddy_chain [OF layout_chain [OF L ord], of ?q None]
      by (subst try_merge.simps) (auto simp: Let_def)
    with push show ?thesis by blast
  next
    case True
    obtain ys where ys: "L order = takeWhile (\<lambda>y. y \<noteq> ?q) (L order) @ ?q # ys"
      using takeWhile_split True by metis
    define xs where "xs = takeWhile (\<lambda>y. y \<noteq> ?q) (L order)"
    define prev where "prev = (if xs = [] then None else Some (last xs))"
    have ps: "L order = xs @ ?q # ys" using ys by (simp add: xs_def)
    have find: "find_buddy ?m (base ?b) ?q None (free_lists ?b ! order) = Some (True, prev)"
      using find_buddy_chain [OF layout_chain [OF L ord], of ?q None] True
      by (simp add: Let_def xs_def prev_def)
    let ?s1 = "unlink s order ?q prev" and ?L1 = "L(order := xs @ ys)"
      and ?p1 = "unset_bit order page"
    note u = unlink_layout [OF L ord ps prev_def] and fr = frames_remove [OF L ord ps]
    note mb = merged_block [OF al]
    have "?p1 + 2 ^ Suc order \<le> total_pages (fst ?s1)"
      using rng layout_block(2) [OF L, of ?q order] True ord u(2) aligned_ge [OF al]
      by (auto simp: merged_page [OF al] buddy_xor [OF al] same_region_def mem_blocks_of)
    moreover have "block ?p1 (Suc order) \<inter> frames_of ?L1 = {}"
      using dis unfolding mb(1) fr(1) by blast
    ultimately have "\<exists>s' L'. try_merge ?s1 ?p1 (order + 1) = Some s' \<and>
        merge_ok ?s1 ?L1 ?p1 (order + 1) s' L'"
      by (intro "1.IH" [OF _ refl refl refl _ find refl]) (use True u(1) mb(2) in \<open>simp_all del: fun_upd_apply\<close>)
    then obtain s' L' where
      m: "try_merge ?s1 ?p1 (order + 1) = Some s'" "merge_ok ?s1 ?L1 ?p1 (order + 1) s' L'"
      by blast
    have "try_merge s page order = try_merge ?s1 ?p1 (order + 1)"
      using True find by (subst try_merge.simps) (simp add: Let_def)
    moreover have "merge_ok s L page order s' L'"
    proof -
      have eq: "frames_of ?L1 \<union> block ?p1 (Suc order) = frames_of L \<union> block page order"
        using fr(2) unfolding mb(1) fr(1) by blast
      have "block page order \<subseteq> block ?p1 (Suc order)" unfolding mb(1) by blast
      have "untouched (frames_of L \<union> block page order) s s'"
        using m(2) u(2) untouched_mono [OF u(4)] unfolding merge_ok_def Suc_eq_plus1 [symmetric] eq
        by (meson Un_upper1 untouched_trans)
      with m(2) \<open>block page order \<subseteq> block ?p1 (Suc order)\<close> show ?thesis
        using u eq fr(1) unfolding merge_ok_def by (auto intro: same_region_trans Suc_leD)
    qed
    ultimately show ?thesis using m(1) by auto
  qed
qed

subsection \<open>Boot\<close>

lemma grown_push: "grown (push_free p ord s) F t \<Longrightarrow> grown s F t"
  by (simp add: grown_def same_region_def)

lemma init_loop_exact:
  assumes "buddy_layout s L" and "order \<le> MAX_ORDER" and "2 ^ order dvd offset" and "0 < offset"
    and "offset + remaining \<le> total_pages (fst s)" and "frames_of L \<subseteq> {..<offset}"
    and "\<And>k. k < order \<Longrightarrow> 0 \<notin> set (L k)" and "2 ^ order \<le> remaining \<Longrightarrow> 0 \<notin> set (L order)"
  shows "grown s (frames_of L \<union> {offset..<offset + remaining}) (init_loop s remaining offset order)"
  using assms
proof (induction s remaining offset order arbitrary: L rule: init_loop.induct)
  case (1 s remaining offset order)
  note L = "1.prems"(1) and ord = "1.prems"(2) and al = "1.prems"(3)
  consider (push) "2 ^ order \<le> remaining" | (down) "\<not> 2 ^ order \<le> remaining" "0 < order"
    | (stop) "\<not> 2 ^ order \<le> remaining" "order = 0" by blast
  then show ?case
  proof cases
    case push
    let ?s = "push_free offset order s" and ?L = "L(order := offset # keep (L order))"
    have d: "block offset order \<inter> frames_of L = {}"
      using "1.prems"(6) by (auto simp: block_def)
    have k: "keep (L order) = L order"
      using "1.prems"(8) [OF push] by (cases "L order") (auto simp: keep_def)
    have rg: "offset + 2 ^ order \<le> total_pages (fst s)" using push "1.prems"(5) by simp
    have L1: "buddy_layout ?s ?L" using L ord al rg d by (rule push_layout)
    have fr: "frames_of ?L = block offset order \<union> frames_of L"
      using frames_push_exact [where L = L and p = offset, OF ord k] .
    have fs: "frames_of ?L \<subseteq> {..<offset + 2 ^ order}"
      unfolding fr using "1.prems"(6) by (auto simp: block_def)
    have z1: "0 \<notin> set (?L k')" if "k' < order" for k'
      using that "1.prems"(7) by simp
    have z2: "0 \<notin> set (?L order)" using "1.prems"(4,8) push k by simp
    have "grown ?s (frames_of ?L \<union>
        {offset + 2 ^ order..<(offset + 2 ^ order) + (remaining - 2 ^ order)})
        (init_loop ?s (remaining - 2 ^ order) (offset + 2 ^ order) order)"
      by (rule "1.IH"(1) [OF push L1 ord]) (use al rg "1.prems"(5) push fs z1 z2 in \<open>auto simp del: fun_upd_apply\<close>)
    moreover have "frames_of ?L \<union>
        {offset + 2 ^ order..<(offset + 2 ^ order) + (remaining - 2 ^ order)} =
        frames_of L \<union> {offset..<offset + remaining}"
      unfolding fr using push by (auto simp: block_def)
    moreover have "init_loop s remaining offset order =
        init_loop ?s (remaining - 2 ^ order) (offset + 2 ^ order) order"
      using push by (subst init_loop.simps) simp
    ultimately show ?thesis using grown_push by simp
  next
    case down
    have "2 ^ (order - 1) dvd offset"
      using al by (meson dvd_trans le_imp_power_dvd diff_le_self)
    with "1.IH"(2) [OF down L] down ord "1.prems"(4-7)
    have "grown s (frames_of L \<union> {offset..<offset + remaining})
        (init_loop s remaining offset (order - 1))" by simp
    with down show ?thesis by (subst init_loop.simps) simp
  next
    case stop
    then have "init_loop s remaining offset order = s" and "remaining = 0"
      by (subst init_loop.simps, simp, simp)
    with L show ?thesis by (auto simp: grown_def)
  qed
qed

lemma frames_single: "ord \<le> MAX_ORDER \<Longrightarrow> (\<And>k. k \<le> MAX_ORDER \<Longrightarrow> k \<noteq> ord \<Longrightarrow> L k = []) \<Longrightarrow>
  L ord = [p] \<Longrightarrow> frames_of L = block p ord"
proof -
  assume a: "ord \<le> MAX_ORDER" "\<And>k. k \<le> MAX_ORDER \<Longrightarrow> k \<noteq> ord \<Longrightarrow> L k = []" "L ord = [p]"
  have "blocks_of L = {(p, ord)}"
    using a by (auto simp: blocks_of_def) (metis empty_iff empty_set set_ConsD a(3))+
  then show ?thesis by (simp add: frames_of_def)
qed

text \<open>The first push puts page 0 on an empty list.\<close>

lemma push_page_0:
  assumes L: "buddy_layout s L" and e: "\<And>k. k \<le> MAX_ORDER \<Longrightarrow> L k = []"
    and ord: "order \<le> MAX_ORDER" and rg: "2 ^ order \<le> total_pages (fst s)"
  shows "buddy_layout (push_free 0 order s) (L(order := [0]))"
    and "frames_of (L(order := [0])) = {..<2 ^ order}"
proof -
  have "frames_of L = {}" using e by (auto simp: frames_of_def blocks_of_def)
  then have "buddy_layout (push_free 0 order s) (L(order := 0 # keep (L order)))"
    by (intro push_layout [OF L ord]) (use rg in auto)
  then show "buddy_layout (push_free 0 order s) (L(order := [0]))"
    using e [OF ord] by (simp add: keep_def)
  show "frames_of (L(order := [0])) = {..<2 ^ order}"
    using frames_single [OF ord, of "L(order := [0])" 0] e by (auto simp: block_def)
qed

lemma init_loop_small:
  assumes L: "buddy_layout s L" and e: "\<And>k. k \<le> MAX_ORDER \<Longrightarrow> L k = []"
    and "order \<le> MAX_ORDER" and "remaining < 2 ^ Suc order" and rg: "remaining \<le> total_pages (fst s)"
  shows "grown s {..<remaining} (init_loop s remaining 0 order)"
  using assms(3,4)
proof (induction order)
  case 0
  show ?case
  proof (cases "remaining = 0")
    case True
    have "frames_of L = {}" using e by (auto simp: frames_of_def blocks_of_def)
    with True L show ?thesis by (subst init_loop.simps) (auto simp: grown_def)
  next
    case False
    with 0 have r: "remaining = 1" by simp
    note p = push_page_0 [OF L e, of 0]
    have "init_loop s remaining 0 0 = push_free 0 0 s"
      using r by (simp add: init_loop.simps)
    with p r rg show ?thesis by (auto simp: grown_def)
  qed
next
  case (Suc order)
  show ?case
  proof (cases "2 ^ Suc order \<le> remaining")
    case False
    then have "init_loop s remaining 0 (Suc order) = init_loop s remaining 0 order"
      by (subst init_loop.simps) simp
    with Suc False show ?thesis by simp
  next
    case True
    let ?o = "Suc order"
    have t: "2 ^ ?o \<le> total_pages (fst s)" using True rg by linarith
    have p: "buddy_layout (push_free 0 ?o s) (L(?o := [0]))"
      "frames_of (L(?o := [0])) = {..<2 ^ ?o}"
      by (rule push_page_0 [OF L e Suc.prems(1) t], assumption)+
    have z: "0 \<notin> set ((L(?o := [0])) k)" if "k < ?o" for k
      using that e Suc.prems(1) by simp
    have "grown (push_free 0 ?o s)
        (frames_of (L(?o := [0])) \<union> {2 ^ ?o..<2 ^ ?o + (remaining - 2 ^ ?o)})
        (init_loop (push_free 0 ?o s) (remaining - 2 ^ ?o) (2 ^ ?o) ?o)"
      by (rule init_loop_exact [OF p(1) Suc.prems(1)])
        (use True rg Suc.prems z p(2) in \<open>auto simp del: fun_upd_apply\<close>)
    moreover have "init_loop s remaining 0 ?o =
        init_loop (push_free 0 ?o s) (remaining - 2 ^ ?o) (2 ^ ?o) ?o"
      using True by (subst init_loop.simps) simp
    moreover have "frames_of (L(?o := [0])) \<union> {2 ^ ?o..<2 ^ ?o + (remaining - 2 ^ ?o)} = {..<remaining}"
      unfolding p(2) using True by auto
    ultimately show ?thesis using grown_push by simp
  qed
qed

text \<open>
  With two or more maximal blocks, pushing the second one stores the link to page 0 as
  the value 0, which reads back as the end of the list: the first 16 MB are lost.
\<close>

lemma init_loop_large:
  assumes L: "buddy_layout s L" and e: "\<And>k. k \<le> MAX_ORDER \<Longrightarrow> L k = []"
    and big: "2 ^ Suc MAX_ORDER \<le> remaining" and rg: "remaining \<le> total_pages (fst s)"
  shows "grown s {2 ^ MAX_ORDER..<remaining} (init_loop s remaining 0 MAX_ORDER)"
proof -
  let ?n = "2 ^ MAX_ORDER :: nat"
  let ?s1 = "push_free 0 MAX_ORDER s" and ?L1 = "L(MAX_ORDER := [0])"
  let ?s2 = "push_free ?n MAX_ORDER ?s1" and ?L2 = "?L1(MAX_ORDER := [?n])"
  have n: "2 * ?n \<le> remaining" using big by simp
  then have n1: "?n \<le> remaining" "?n \<le> remaining - ?n" by linarith+
  note p = push_page_0 [OF L e order_refl]
  have L1: "buddy_layout ?s1 ?L1" and f1: "frames_of ?L1 = {..<?n}"
    using p n rg by auto
  have d: "block ?n MAX_ORDER \<inter> frames_of ?L1 = {}" unfolding f1 by (auto simp: block_def)
  have "buddy_layout ?s2 (?L1(MAX_ORDER := ?n # keep (?L1 MAX_ORDER)))"
    by (rule push_layout [OF L1 order_refl _ _ d]) (use n rg in auto)
  then have L2: "buddy_layout ?s2 ?L2" by (simp add: keep_def)
  have f2: "frames_of ?L2 = {?n..<2 * ?n}"
    using frames_single [of MAX_ORDER ?L2 ?n] e by (auto simp: block_def)
  have "grown ?s2 (frames_of ?L2 \<union> {2 * ?n..<2 * ?n + (remaining - 2 * ?n)})
      (init_loop ?s2 (remaining - 2 * ?n) (2 * ?n) MAX_ORDER)"
    by (rule init_loop_exact [OF L2 order_refl]) (use n rg e f2 in auto)
  moreover have "init_loop s remaining 0 MAX_ORDER =
      init_loop ?s2 (remaining - 2 * ?n) (2 * ?n) MAX_ORDER"
  proof -
    have "init_loop s remaining 0 MAX_ORDER = init_loop ?s1 (remaining - ?n) ?n MAX_ORDER"
      using n1(1) by (subst init_loop.simps) simp
    also have "\<dots> = init_loop ?s2 (remaining - ?n - ?n) (?n + ?n) MAX_ORDER"
      using n1(2) by (subst init_loop.simps) simp
    finally show ?thesis by (simp add: mult_2)
  qed
  moreover have "frames_of ?L2 \<union> {2 * ?n..<2 * ?n + (remaining - 2 * ?n)} = {?n..<remaining}"
    unfolding f2 using n by auto
  ultimately show ?thesis by (metis grown_push)
qed


subsection \<open>The operations on layouts\<close>

lemma alloc_pages_layout:
  assumes "buddy_layout s L" and "order \<le> MAX_ORDER"
  shows "if \<exists>k. order \<le> k \<and> k \<le> MAX_ORDER \<and> L k \<noteq> []
    then \<exists>p s' L'. alloc_pages s order = Some (Some p, s') \<and> buddy_layout s' L' \<and>
      same_region s s' \<and> allocated_pages (fst s') = allocated_pages (fst s) + 2 ^ order \<and>
      frames_of L' = frames_of L - block p order \<and> block p order \<subseteq> frames_of L \<and> 2 ^ order dvd p \<and>
      untouched (frames_of L) s s'
    else alloc_pages s order = Some (None, s)"
proof -
  have eq: "alloc_pages s order = alloc_loop s order order"
    using assms(2) by (simp add: alloc_pages_def)
  show ?thesis
    unfolding eq by (rule alloc_loop_layout [OF assms(1) order_refl]) simp
qed

lemma free_pages_layout:
  assumes L: "buddy_layout s L" and ord: "order \<le> MAX_ORDER" and al: "2 ^ order dvd page"
    and rng: "page + 2 ^ order \<le> total_pages (fst s)" and dis: "block page order \<inter> frames_of L = {}"
    and cnt: "2 ^ order \<le> allocated_pages (fst s)" "allocated_pages (fst s) < 2 ^ 64"
  shows "\<exists>s' L'. free_pages s page order = Some s' \<and> buddy_layout s' L' \<and> same_region s s' \<and>
    allocated_pages (fst s') = allocated_pages (fst s) - 2 ^ order \<and>
    block page order \<subseteq> frames_of L' \<and> frames_of L' \<subseteq> frames_of L \<union> block page order \<and>
    (0 \<notin> frames_of L \<longrightarrow> frames_of L' = frames_of L \<union> block page order) \<and>
    (\<exists>k. order \<le> k \<and> k \<le> MAX_ORDER \<and> L' k \<noteq> []) \<and>
    untouched (frames_of L \<union> block page order) s s'"
proof -
  obtain b m where s: "s = (b, m)" by (cases s)
  let ?n = "allocated_pages b - 2 ^ order"
  have "buddy_layout (b\<lparr>allocated_pages := ?n\<rparr>, m) L" using L s by simp
  from try_merge_layout [OF this ord al _ dis] rng s obtain s' L' where
    "try_merge (b\<lparr>allocated_pages := ?n\<rparr>, m) page order = Some s'"
    "merge_ok (b\<lparr>allocated_pages := ?n\<rparr>, m) L page order s' L'" by auto
  moreover have "usize_sub (allocated_pages b) (2 ^ order) = ?n"
    using cnt s by (simp add: usize_sub_small)
  ultimately show ?thesis
    using ord s by (auto simp: free_pages_def merge_ok_def same_region_def untouched_def intro!: exI [of _ L'])
qed

lemma layout_mem_agree:
  assumes L: "buddy_layout (b, m) L" and eq: "\<And>p. p \<in> frames_of L \<Longrightarrow>
    m' (base b + p * PAGE_SIZE) = m (base b + p * PAGE_SIZE)"
  shows "buddy_layout (b, m') L"
proof -
  have "chain m' (base b) h ps" if "chain m (base b) h ps" "set ps \<subseteq> frames_of L" for h ps
    using that
  proof (induction ps arbitrary: h)
    case (Cons p ps)
    then have "node_next m' p (base b) = node_next m p (base b)"
      using eq [of p] by (simp add: node_next_def)
    with Cons show ?case by simp
  qed simp
  moreover have "set (L ord) \<subseteq> frames_of L" if "ord \<le> MAX_ORDER" for ord
  proof
    fix p assume "p \<in> set (L ord)"
    with that have "block p ord \<subseteq> frames_of L" by (simp add: block_subset_frames mem_blocks_of)
    then show "p \<in> frames_of L" by (metis in_block_self subsetD)
  qed
  ultimately show ?thesis using L by (simp add: buddy_layout_def free_chains_def)
qed

subsection \<open>Counting the free pages\<close>

lemma count_orders_layout:
  assumes "buddy_layout s L" and "set os \<subseteq> {..MAX_ORDER}"
  shows "count_orders s os acc = Some (acc + (\<Sum>ord\<leftarrow>os. length (L ord) * 2 ^ ord))"
  using assms(2)
  by (induction os arbitrary: acc) (auto simp: count_chain_chain [OF layout_chain [OF assms(1)]])

lemma blocks_of_Sigma: "blocks_of L = (\<lambda>(ord, p). (p, ord)) ` (SIGMA ord:{..MAX_ORDER}. set (L ord))"
  by (auto simp: blocks_of_def image_iff)

lemma finite_blocks_of [simp]: "finite (blocks_of L)"
  unfolding blocks_of_Sigma by (intro finite_imageI finite_SigmaI) auto

lemma card_frames:
  assumes "buddy_layout s L"
  shows "card (frames_of L) = (\<Sum>ord\<le>MAX_ORDER. length (L ord) * 2 ^ ord)"
proof -
  have "card (frames_of L) = (\<Sum>x\<in>blocks_of L. card (block (fst x) (snd x)))"
    unfolding frames_of_def case_prod_beta
    using layout_disjoint [OF assms] by (intro card_UN_disjoint) auto
  also have "\<dots> = (\<Sum>(ord, p)\<in>(SIGMA ord:{..MAX_ORDER}. set (L ord)). 2 ^ ord)"
    unfolding blocks_of_Sigma by (subst sum.reindex) (auto simp: inj_on_def case_prod_beta)
  also have "\<dots> = (\<Sum>ord\<le>MAX_ORDER. \<Sum>p\<in>set (L ord). 2 ^ ord)"
    by (rule sum.Sigma [symmetric]) auto
  also have "\<dots> = (\<Sum>ord\<le>MAX_ORDER. length (L ord) * 2 ^ ord)"
    using chain_distinct [OF layout_chain [OF assms]] by (intro sum.cong) (auto simp: distinct_card)
  finally show ?thesis .
qed

lemma count_free_pages_layout:
  assumes "buddy_layout s L"
  shows "count_free_pages s = Some (card (frames_of L))"
proof -
  have "count_free_pages s = Some (\<Sum>ord\<leftarrow>[0..<Suc MAX_ORDER]. length (L ord) * 2 ^ ord)"
    unfolding count_free_pages_def by (subst count_orders_layout [OF assms]) auto
  also have "(\<Sum>ord\<leftarrow>[0..<Suc MAX_ORDER]. length (L ord) * 2 ^ ord) =
      (\<Sum>ord\<le>MAX_ORDER. length (L ord) * 2 ^ ord)"
    by (simp only: interv_sum_list_conv_sum_set_nat set_upt atLeast0LessThan lessThan_Suc_atMost)
  finally show ?thesis by (simp only: card_frames [OF assms])
qed

lemma free_chains_frames: "free_chains s L \<Longrightarrow> free_chains s M \<Longrightarrow> frames_of L = frames_of M"
  unfolding frames_of_def using layout_blocks_unique by metis

lemma init_layout:
  assumes "bs \<le> e" and "e < 2 ^ 64"
  shows "\<exists>L. buddy_layout (init m bs e) L \<and> frames_of L =
      (let n = (e - bs) div PAGE_SIZE in if n < 2 ^ Suc MAX_ORDER then {..<n} else {2 ^ MAX_ORDER..<n})"
    and "base (fst (init m bs e)) = bs" and "total_pages (fst (init m bs e)) = (e - bs) div PAGE_SIZE"
    and "allocated_pages (fst (init m bs e)) = 0"
proof -
  let ?n = "(e - bs) div PAGE_SIZE"
  let ?b = "\<lparr>free_lists = replicate FREE_LIST_COUNT None, base = bs, bend = e,
               total_pages = ?n, allocated_pages = 0\<rparr>"
  have L: "buddy_layout (?b, m) (\<lambda>_. [])"
  proof -
    have "?n * PAGE_SIZE \<le> e - bs" by simp
    moreover have "e - bs < Suc ?n * PAGE_SIZE"
      using div_less_iff_less_mult [of PAGE_SIZE "e - bs" "Suc ?n"] by (simp add: PAGE_SIZE_def)
    ultimately have "bs + ?n * PAGE_SIZE \<le> e \<and> e < bs + Suc ?n * PAGE_SIZE"
      using assms(1) by linarith
    then have "geometry ?b" using assms by (simp add: geometry_def)
    then show ?thesis
      by (simp add: buddy_layout_def free_chains_def blocks_of_def wf_blocks_def FREE_LIST_COUNT_def
          del: replicate.simps replicate_Suc)
  qed
  have "grown (?b, m) (if ?n < 2 ^ Suc MAX_ORDER then {..<?n} else {2 ^ MAX_ORDER..<?n}) (init m bs e)"
  proof (cases "?n < 2 ^ Suc MAX_ORDER")
    case True
    with init_loop_small [OF L refl order_refl, of ?n] show ?thesis
      by (simp add: init_def Let_def)
  next
    case False
    with init_loop_large [OF L refl, of ?n] show ?thesis
      by (simp add: init_def Let_def)
  qed
  then show "\<exists>L. buddy_layout (init m bs e) L \<and> frames_of L =
      (let n = (e - bs) div PAGE_SIZE in if n < 2 ^ Suc MAX_ORDER then {..<n} else {2 ^ MAX_ORDER..<n})"
    and "base (fst (init m bs e)) = bs" and "total_pages (fst (init m bs e)) = ?n"
    and "allocated_pages (fst (init m bs e)) = 0"
    by (auto simp: grown_def same_region_def Let_def)
qed

end
