(* ===== verification/Page_Allocator.thy ===== *)
theory Page_Allocator
  imports Buddy_Allocator "HOL-Library.Multiset"
begin

text \<open>
  The interface of kernel/src/mem/buddy.rs that the rest of the kernel calls: the
  per-hart caches of single pages in front of the buddy allocator, and allocation and
  release by physical address. The hart that runs is an argument.

  \<open>page_inv st Out\<close> is the invariant, with \<open>Out\<close> the blocks the clients hold;
  \<open>page_reach\<close> is the step relation of boot, allocation, release and client writes.
\<close>

section \<open>Definitions\<close>

definition CPU_CACHE_SIZE :: usize where "CPU_CACHE_SIZE = 8"

definition MAX_CPU_HARTS :: usize where "MAX_CPU_HARTS = 8"

record PerCpuPageCache =
  cached :: "usize list"
  cache_count :: usize

record PageState =
  inner :: BuddyInner
  phys :: pmem
  cpu_caches :: "PerCpuPageCache list"
  cache_hits :: u64
  cache_misses :: u64

definition init_pages :: "pmem \<Rightarrow> usize \<Rightarrow> usize \<Rightarrow> PageState" where
  "init_pages m bs e =
     \<lparr>inner = fst (init m bs e), phys = snd (init m bs e),
      cpu_caches =
        replicate MAX_CPU_HARTS \<lparr>cached = replicate CPU_CACHE_SIZE 0, cache_count = 0\<rparr>,
      cache_hits = 0, cache_misses = 0\<rparr>"

definition alloc_page_fast :: "usize \<Rightarrow> PageState \<Rightarrow> usize option \<times> PageState" where
  "alloc_page_fast hart st =
     (if hart \<ge> MAX_CPU_HARTS then (None, st)
      else
        (let c = cpu_caches st ! hart in
         if cache_count c > 0 then
           (let c' = c\<lparr>cache_count := cache_count c - 1\<rparr> in
            (Some (cached c' ! cache_count c'),
             st\<lparr>cpu_caches := (cpu_caches st)[hart := c']\<rparr>))
         else (None, st)))"

definition free_page_fast :: "usize \<Rightarrow> usize \<Rightarrow> PageState \<Rightarrow> bool \<times> PageState" where
  "free_page_fast hart page st =
     (if hart \<ge> MAX_CPU_HARTS then (False, st)
      else
        (let c = cpu_caches st ! hart in
         if cache_count c < CPU_CACHE_SIZE then
           (True, st\<lparr>cpu_caches := (cpu_caches st)[hart :=
              c\<lparr>cached := (cached c)[cache_count c := page], cache_count := cache_count c + 1\<rparr>]\<rparr>)
         else (False, st)))"

definition per_cpu_cache_stats :: "PageState \<Rightarrow> usize \<times> usize" where
  "per_cpu_cache_stats st =
     (fold (\<lambda>hart acc. acc + cache_count (cpu_caches st ! hart)) [0..<MAX_CPU_HARTS] 0,
      MAX_CPU_HARTS * CPU_CACHE_SIZE)"

definition alloc_pages_addr :: "usize \<Rightarrow> PageState \<Rightarrow> (usize option \<times> PageState) option" where
  "alloc_pages_addr order st =
     (case alloc_pages (inner st, phys st) order of
        None \<Rightarrow> None
      | Some (r, (b, m)) \<Rightarrow>
          Some (map_option (\<lambda>p. p * PAGE_SIZE + base b) r, st\<lparr>inner := b, phys := m\<rparr>))"

definition alloc_page :: "usize \<Rightarrow> PageState \<Rightarrow> (usize option \<times> PageState) option" where
  "alloc_page hart st =
     (case alloc_page_fast hart st of
        (Some page, st1) \<Rightarrow> Some (Some page, st1\<lparr>cache_hits := cache_hits st1 + 1\<rparr>)
      | (None, st1) \<Rightarrow>
          (let st2 = st1\<lparr>cache_misses := cache_misses st1 + 1\<rparr> in
           case alloc_pages (inner st2, phys st2) 0 of
             None \<Rightarrow> None
           | Some (r, (b, m)) \<Rightarrow>
               Some (map_option (\<lambda>p. p * PAGE_SIZE + base b) r, st2\<lparr>inner := b, phys := m\<rparr>)))"

text \<open>
  \<open>cache_zero_page\<close> (mem/cache_ops.rs) on the page at a physical address. Nothing in the kernel
  calls \<open>set_cmo_available\<close>, so the branch taken is \<open>write_bytes\<close> over the 4096 bytes of the page.
  The caller passes the kernel virtual address of the page, \<open>pa_to_kva(page)\<close>; the memory \<open>phys\<close> is
  indexed by physical addresses throughout, which the kernel's linear map of DRAM makes the same
  cells.
\<close>

definition zero_page :: "usize \<Rightarrow> pmem \<Rightarrow> pmem" where
  "zero_page page m = (\<lambda>a. if page \<le> a \<and> a < page + PAGE_SIZE then 0 else m a)"

definition alloc_page_zeroed :: "usize \<Rightarrow> PageState \<Rightarrow> (usize option \<times> PageState) option" where
  "alloc_page_zeroed hart st =
     (case alloc_page hart st of
        None \<Rightarrow> None
      | Some (None, st1) \<Rightarrow> Some (None, st1)
      | Some (Some page, st1) \<Rightarrow> Some (Some page, st1\<lparr>phys := zero_page page (phys st1)\<rparr>))"

definition free_page :: "usize \<Rightarrow> usize \<Rightarrow> usize \<Rightarrow> PageState \<Rightarrow> PageState option" where
  "free_page hart addr order st =
     (let fast = (if order = 0 then free_page_fast hart addr st else (False, st)) in
      if fst fast then Some (snd fast)
      else
        (case free_pages (inner st, phys st)
                (usize_sub addr (base (inner st)) div PAGE_SIZE) order of
           None \<Rightarrow> None
         | Some (b, m) \<Rightarrow> Some (st\<lparr>inner := b, phys := m\<rparr>)))"

section \<open>The invariant\<close>

definition span :: "(usize \<times> usize) set \<Rightarrow> usize set" where
  "span B = (\<Union>(p, ord) \<in> B. block p ord)"

definition page_addr :: "PageState \<Rightarrow> usize \<Rightarrow> usize" where
  "page_addr st p = base (inner st) + p * PAGE_SIZE"

definition cached_pages :: "PageState \<Rightarrow> usize list" where
  "cached_pages st = concat (map (\<lambda>c. take (cache_count c) (cached c)) (cpu_caches st))"

definition caches_ok :: "PageState \<Rightarrow> bool" where
  "caches_ok st \<longleftrightarrow>
     length (cpu_caches st) = MAX_CPU_HARTS \<and>
     (\<forall>c \<in> set (cpu_caches st). length (cached c) = CPU_CACHE_SIZE \<and> cache_count c \<le> CPU_CACHE_SIZE)"

text \<open>Blocks are held by clients (\<open>Out\<close>) or, one page each, by the caches (\<open>ps\<close>).\<close>

definition held :: "(usize \<times> usize) set \<Rightarrow> usize list \<Rightarrow> (usize \<times> usize) set" where
  "held Out ps = Out \<union> (\<lambda>p. (p, 0)) ` set ps"

definition page_inv_for :: "PageState \<Rightarrow> (usize \<times> usize) set \<Rightarrow> layout \<Rightarrow> usize list \<Rightarrow> bool" where
  "page_inv_for st Out L ps \<longleftrightarrow>
     buddy_layout (inner st, phys st) L \<and> caches_ok st \<and>
     mset (cached_pages st) = mset (map (page_addr st) ps) \<and> distinct ps \<and>
     finite Out \<and> (\<forall>p \<in> set ps. (p, 0) \<notin> Out) \<and> (\<forall>(p, ord) \<in> Out. ord \<le> MAX_ORDER) \<and>
     wf_blocks (total_pages (inner st)) (held Out ps) \<and>
     span (held Out ps) \<inter> frames_of L = {} \<and>
     allocated_pages (inner st) = (\<Sum>(p, ord) \<in> Out. 2 ^ ord) + length ps"

definition page_inv :: "PageState \<Rightarrow> (usize \<times> usize) set \<Rightarrow> bool" where
  "page_inv st Out \<longleftrightarrow> (\<exists>L ps. page_inv_for st Out L ps)"

text \<open>The frames the buddy lists can still reach.\<close>

definition free_frames :: "PageState \<Rightarrow> usize set" where
  "free_frames st = {f. \<exists>L. free_chains (inner st, phys st) L \<and> f \<in> frames_of L}"

text \<open>Runs of the allocator, with clients that write only into blocks they hold.\<close>

inductive page_reach :: "PageState \<Rightarrow> (usize \<times> usize) set \<Rightarrow> bool" where
  boot: "bs \<le> e \<Longrightarrow> e < 2 ^ 64 \<Longrightarrow> page_reach (init_pages m bs e) {}"
| alloc1: "page_reach st Out \<Longrightarrow> alloc_page hart st = Some (Some (page_addr st p), st') \<Longrightarrow>
    page_reach st' (insert (p, 0) Out)"
| alloc1_none: "page_reach st Out \<Longrightarrow> alloc_page hart st = Some (None, st') \<Longrightarrow> page_reach st' Out"
| alloc: "page_reach st Out \<Longrightarrow> alloc_pages_addr ord st = Some (Some (page_addr st p), st') \<Longrightarrow>
    page_reach st' (insert (p, ord) Out)"
| alloc_none: "page_reach st Out \<Longrightarrow> alloc_pages_addr ord st = Some (None, st') \<Longrightarrow> page_reach st' Out"
| free: "page_reach st Out \<Longrightarrow> (p, ord) \<in> Out \<Longrightarrow>
    free_page hart (page_addr st p) ord st = Some st' \<Longrightarrow> page_reach st' (Out - {(p, ord)})"
| client_write: "page_reach st Out \<Longrightarrow> f \<in> span Out \<Longrightarrow> off < PAGE_SIZE \<Longrightarrow>
    page_reach (st\<lparr>phys := (phys st)(page_addr st f + off := v)\<rparr>) Out"

text \<open>No byte of the frames in \<open>F\<close> changes between two states.\<close>

definition preserves :: "usize set \<Rightarrow> PageState \<Rightarrow> PageState \<Rightarrow> bool" where
  "preserves F st st' \<longleftrightarrow>
     base (inner st') = base (inner st) \<and> total_pages (inner st') = total_pages (inner st) \<and>
     (\<forall>f\<in>F. \<forall>off<PAGE_SIZE. phys st' (page_addr st f + off) = phys st (page_addr st f + off))"

section \<open>Lemmas\<close>

lemma span_insert [simp]: "span (insert (p, ord) B) = block p ord \<union> span B"
  by (simp add: span_def)

lemma block_subset_span: "(p, ord) \<in> B \<Longrightarrow> block p ord \<subseteq> span B"
  by (auto simp: span_def)

lemma span_mono: "A \<subseteq> B \<Longrightarrow> span A \<subseteq> span B"
  by (auto simp: span_def)

lemma span_Diff:
  assumes "wf_blocks n B" and "(p, ord) \<in> B"
  shows "span (B - {(p, ord)}) = span B - block p ord"
proof -
  have "block q o' \<inter> block p ord = {}" if "(q, o') \<in> B - {(p, ord)}" for q o'
    using assms that unfolding wf_blocks_def by fastforce
  then show ?thesis using assms(2) unfolding span_def by blast
qed

lemma held_insert: "held (insert (p, ord) Out) ps = insert (p, ord) (held Out ps)"
  by (simp add: held_def)

lemma held_to_cache: "(p, 0) \<in> Out \<Longrightarrow> held (Out - {(p, 0)}) (p # ps) = held Out ps"
  by (auto simp: held_def)

lemma held_from_cache: "mset ps = add_mset p (mset qs) \<Longrightarrow> held (insert (p, 0) Out) qs = held Out ps"
proof -
  assume "mset ps = add_mset p (mset qs)"
  then have "set ps = insert p (set qs)" by (metis set_mset_add_mset_insert set_mset_mset)
  then show ?thesis by (auto simp: held_def)
qed

lemma span_Out_held: "span Out \<subseteq> span (held Out ps)"
  by (rule span_mono) (simp add: held_def)

lemma page_addr_eq [simp]: "page_addr st p = page_addr st q \<longleftrightarrow> p = q"
  by (simp add: page_addr_def PAGE_SIZE_def)

lemma page_inv_bound:
  assumes "page_inv_for st Out L ps" and "(p, ord) \<in> held Out ps"
  shows "p + 2 ^ ord \<le> total_pages (inner st)" and "2 ^ ord dvd p"
    and "block p ord \<inter> frames_of L = {}"
  using assms block_subset_span [OF assms(2)]
  unfolding page_inv_for_def wf_blocks_def by blast+

subsection \<open>The caches\<close>

lemma cached_pages_update:
  assumes "hart < length (cpu_caches st)"
  shows "mset (cached_pages (st\<lparr>cpu_caches := (cpu_caches st)[hart := c]\<rparr>))
      + mset (take (cache_count (cpu_caches st ! hart)) (cached (cpu_caches st ! hart)))
    = mset (cached_pages st) + mset (take (cache_count c) (cached c))"
proof -
  let ?cs = "cpu_caches st"
  have "?cs = take hart ?cs @ ?cs ! hart # drop (Suc hart) ?cs"
    using assms by (rule id_take_nth_drop)
  then have "cached_pages st = concat (map (\<lambda>c. take (cache_count c) (cached c))
      (take hart ?cs @ ?cs ! hart # drop (Suc hart) ?cs))"
    unfolding cached_pages_def by simp
  then show ?thesis
    using assms by (simp add: cached_pages_def upd_conv_take_nth_drop)
qed

lemma caches_ok_nth:
  assumes "caches_ok st" and "hart < MAX_CPU_HARTS"
  shows "hart < length (cpu_caches st)" "length (cached (cpu_caches st ! hart)) = CPU_CACHE_SIZE"
    "cache_count (cpu_caches st ! hart) \<le> CPU_CACHE_SIZE"
  using assms by (auto simp: caches_ok_def)

lemma alloc_page_fast_cases:
  assumes ok: "caches_ok st"
  shows "(alloc_page_fast hart st = (None, st)) \<or>
    (\<exists>a cs. alloc_page_fast hart st = (Some a, st\<lparr>cpu_caches := cs\<rparr>) \<and> caches_ok (st\<lparr>cpu_caches := cs\<rparr>) \<and>
      mset (cached_pages st) = add_mset a (mset (cached_pages (st\<lparr>cpu_caches := cs\<rparr>))))"
proof (cases "hart < MAX_CPU_HARTS \<and> cache_count (cpu_caches st ! hart) > 0")
  case False
  then show ?thesis by (auto simp: alloc_page_fast_def Let_def)
next
  case True
  let ?c = "cpu_caches st ! hart"
  let ?c' = "?c\<lparr>cache_count := cache_count ?c - 1\<rparr>"
  let ?cs = "(cpu_caches st)[hart := ?c']"
  note h = caches_ok_nth [OF ok, of hart]
  have le: "cache_count ?c - Suc 0 \<le> CPU_CACHE_SIZE" using h(3) True by linarith
  from True h have "take (cache_count ?c) (cached ?c) =
      take (cache_count ?c - 1) (cached ?c) @ [cached ?c ! (cache_count ?c - 1)]"
    by (metis One_nat_def Suc_pred less_le_trans less_numeral_extra(1) take_Suc_conv_app_nth diff_less)
  then have "mset (cached_pages st) =
      add_mset (cached ?c ! (cache_count ?c - 1)) (mset (cached_pages (st\<lparr>cpu_caches := ?cs\<rparr>)))"
    using cached_pages_update [of hart st ?c'] h True by simp
  moreover have "caches_ok (st\<lparr>cpu_caches := ?cs\<rparr>)"
    using ok h True le by (auto simp: caches_ok_def dest!: set_update_subset_insert [THEN subsetD])
  ultimately show ?thesis using True by (auto simp: alloc_page_fast_def Let_def)
qed

lemma free_page_fast_cases:
  assumes ok: "caches_ok st"
  shows "(free_page_fast hart a st = (False, st)) \<or>
    (\<exists>cs. free_page_fast hart a st = (True, st\<lparr>cpu_caches := cs\<rparr>) \<and> caches_ok (st\<lparr>cpu_caches := cs\<rparr>) \<and>
      mset (cached_pages (st\<lparr>cpu_caches := cs\<rparr>)) = add_mset a (mset (cached_pages st)))"
proof (cases "hart < MAX_CPU_HARTS \<and> cache_count (cpu_caches st ! hart) < CPU_CACHE_SIZE")
  case False
  then show ?thesis by (auto simp: free_page_fast_def Let_def)
next
  case True
  let ?c = "cpu_caches st ! hart"
  let ?c' = "?c\<lparr>cached := (cached ?c)[cache_count ?c := a], cache_count := cache_count ?c + 1\<rparr>"
  let ?cs = "(cpu_caches st)[hart := ?c']"
  note h = caches_ok_nth [OF ok, of hart]
  from True h have "take (cache_count ?c') (cached ?c') = take (cache_count ?c) (cached ?c) @ [a]"
    by (simp add: take_Suc_conv_app_nth)
  then have "mset (cached_pages (st\<lparr>cpu_caches := ?cs\<rparr>)) = add_mset a (mset (cached_pages st))"
    using cached_pages_update [of hart st ?c'] h True by simp
  moreover have "caches_ok (st\<lparr>cpu_caches := ?cs\<rparr>)"
    using ok h True by (auto simp: caches_ok_def dest!: set_update_subset_insert [THEN subsetD])
  ultimately show ?thesis using True by (auto simp: free_page_fast_def Let_def)
qed


subsection \<open>Steps of the allocator\<close>

lemma cell_neq:
  assumes "p \<noteq> q" and "off < PAGE_SIZE"
  shows "b + p * PAGE_SIZE + off \<noteq> b + q * PAGE_SIZE"
proof
  assume "b + p * PAGE_SIZE + off = b + q * PAGE_SIZE"
  then have "(p * PAGE_SIZE + off) div PAGE_SIZE = (q * PAGE_SIZE) div PAGE_SIZE" by simp
  with assms show False by (simp add: PAGE_SIZE_def)
qed

lemma untouched_preserves:
  assumes "untouched F (inner st, phys st) (b, m)" and "same_region (inner st, phys st) (b, m)"
    and "G \<inter> F = {}"
  shows "preserves G st (st\<lparr>inner := b, phys := m\<rparr>)"
proof -
  have "m (page_addr st f + off) = phys st (page_addr st f + off)" if "f \<in> G" "off < PAGE_SIZE" for f off
  proof -
    have "\<forall>p\<in>F. page_addr st f + off \<noteq> base (inner st) + p * PAGE_SIZE"
      using that assms(3) cell_neq unfolding page_addr_def by (metis disjoint_iff)
    with assms(1) show ?thesis by (simp add: untouched_def)
  qed
  with assms(2) show ?thesis by (simp add: preserves_def same_region_def)
qed

lemma preserves_refl [simp]: "preserves F st st"
  by (simp add: preserves_def)

lemma page_inv_counters [simp]:
  "page_inv_for (st\<lparr>cache_hits := x\<rparr>) Out L ps = page_inv_for st Out L ps"
  "page_inv_for (st\<lparr>cache_misses := x\<rparr>) Out L ps = page_inv_for st Out L ps"
  by (simp_all add: page_inv_for_def caches_ok_def cached_pages_def page_addr_def [abs_def])

lemma wf_blocks_insert_span:
  "wf_blocks n B \<Longrightarrow> 2 ^ ord dvd p \<Longrightarrow> p + 2 ^ ord \<le> n \<Longrightarrow> block p ord \<inter> span B = {} \<Longrightarrow>
   wf_blocks n (insert (p, ord) B)"
  by (rule wf_blocks_insert) (auto simp: span_def)

lemma sum_insert_block:
  "finite Out \<Longrightarrow> (p, ord) \<notin> Out \<Longrightarrow>
   (\<Sum>(q, o')\<in>insert (p, ord) Out. (2::nat) ^ o') = 2 ^ ord + (\<Sum>(q, o')\<in>Out. 2 ^ o')"
  by simp

lemma sum_remove_block:
  "finite Out \<Longrightarrow> (p, ord) \<in> Out \<Longrightarrow>
   (\<Sum>(q, o')\<in>Out. (2::nat) ^ o') = 2 ^ ord + (\<Sum>(q, o')\<in>Out - {(p, ord)}. 2 ^ o')"
  by (subst sum.remove [of _ "(p, ord)"]) auto

lemma alloc_pages_addr_inv:
  assumes I: "page_inv_for st Out L ps" and ord: "ord \<le> MAX_ORDER"
  shows "if \<exists>k. ord \<le> k \<and> k \<le> MAX_ORDER \<and> L k \<noteq> []
    then \<exists>p st' L'. alloc_pages_addr ord st = Some (Some (page_addr st p), st') \<and>
      page_inv_for st' (insert (p, ord) Out) L' ps \<and> block p ord \<subseteq> frames_of L \<and>
      (p, ord) \<notin> held Out ps \<and> preserves (span (held Out ps)) st st' \<and>
      frames_of L' = frames_of L - block p ord
    else alloc_pages_addr ord st = Some (None, st)"
proof (cases "\<exists>k. ord \<le> k \<and> k \<le> MAX_ORDER \<and> L k \<noteq> []")
  case False
  have L: "buddy_layout (inner st, phys st) L" using I by (simp add: page_inv_for_def)
  have "alloc_pages (inner st, phys st) ord = Some (None, (inner st, phys st))"
    using alloc_pages_layout [OF L ord] unfolding if_not_P [OF False] .
  then have "alloc_pages_addr ord st = Some (None, st)" by (simp add: alloc_pages_addr_def)
  with False show ?thesis by (simp only: if_False)
next
  case True
  have L: "buddy_layout (inner st, phys st) L" using I by (simp add: page_inv_for_def)
  from alloc_pages_layout [OF L ord] True obtain p b m L' where
    a: "alloc_pages (inner st, phys st) ord = Some (Some p, (b, m))" and L': "buddy_layout (b, m) L'" and
    r: "same_region (inner st, phys st) (b, m)" and
    cnt: "allocated_pages b = allocated_pages (inner st) + 2 ^ ord" and
    fr: "frames_of L' = frames_of L - block p ord" and sub: "block p ord \<subseteq> frames_of L" and
    al: "2 ^ ord dvd p" and u: "untouched (frames_of L) (inner st, phys st) (b, m)"
    by (auto simp only: if_True prod.exhaust_sel fst_conv)
  let ?st = "st\<lparr>inner := b, phys := m\<rparr>"
  have dis: "block p ord \<inter> span (held Out ps) = {}"
    using I sub unfolding page_inv_for_def by blast
  then have new: "(p, ord) \<notin> held Out ps"
    using block_subset_span block_nonempty by fast
  have rng: "p + 2 ^ ord \<le> total_pages (inner st)"
  proof -
    have "{p..<p + 2 ^ ord} \<subseteq> {0..<total_pages (inner st)}"
      using order_trans [OF sub layout_frames_bound [OF L]]
      unfolding block_def atLeast0LessThan by simp
    then show ?thesis by (simp add: ivl_subset)
  qed
  have "page_inv_for ?st (insert (p, ord) Out) L' ps"
    unfolding page_inv_for_def held_insert
  proof (intro conjI)
    show "wf_blocks (total_pages (inner ?st)) (insert (p, ord) (held Out ps))"
      using I r rng al dis by (intro wf_blocks_insert_span) (auto simp: page_inv_for_def same_region_def)
    show "allocated_pages (inner ?st) = (\<Sum>(p, ord)\<in>insert (p, ord) Out. 2 ^ ord) + length ps"
      using I cnt new by (subst sum_insert_block) (auto simp: page_inv_for_def held_def)
    show "mset (cached_pages ?st) = mset (map (page_addr ?st) ps)"
      using I r by (simp add: page_inv_for_def cached_pages_def page_addr_def [abs_def] same_region_def)
    show "span (insert (p, ord) (held Out ps)) \<inter> frames_of L' = {}"
      using I fr by (auto simp: page_inv_for_def)
  qed (use I L' ord new in \<open>auto simp: page_inv_for_def caches_ok_def held_def\<close>)
  moreover have "alloc_pages_addr ord st = Some (Some (page_addr st p), ?st)"
    using a r by (simp add: alloc_pages_addr_def page_addr_def same_region_def)
  moreover have "preserves (span (held Out ps)) st ?st"
    using I by (intro untouched_preserves [OF u r]) (simp add: page_inv_for_def)
  ultimately show ?thesis using True sub new fr by auto
qed


lemma alloc_page_slow:
  assumes "alloc_page_fast hart st = (None, st)"
  shows "alloc_page hart st = alloc_pages_addr 0 (st\<lparr>cache_misses := cache_misses st + 1\<rparr>)"
  using assms by (simp add: alloc_page_def alloc_pages_addr_def Let_def)

lemma page_addr_counters [simp]:
  "page_addr (st\<lparr>cache_misses := x\<rparr>) = page_addr st" "page_addr (st\<lparr>cache_hits := x\<rparr>) = page_addr st"
  "page_addr (st\<lparr>cpu_caches := cs\<rparr>) = page_addr st"
  by (simp_all add: page_addr_def [abs_def])

lemma preserves_counters [simp]:
  "preserves F (st\<lparr>cache_misses := x\<rparr>) st' = preserves F st st'"
  "preserves F st (st\<lparr>cpu_caches := cs, cache_hits := y\<rparr>)"
  "preserves F st (st\<lparr>cpu_caches := cs\<rparr>)"
  "preserves F st (st\<lparr>cache_misses := z\<rparr>)"
  by (simp_all add: preserves_def)

lemma page_inv_from_cache:
  assumes I: "page_inv_for st Out L ps" and ok: "caches_ok (st\<lparr>cpu_caches := cs\<rparr>)"
    and c: "mset (cached_pages st) = add_mset a (mset (cached_pages (st\<lparr>cpu_caches := cs\<rparr>)))"
  shows "\<exists>p qs. a = page_addr st p \<and> p \<in> set ps \<and>
    page_inv_for (st\<lparr>cpu_caches := cs\<rparr>) (insert (p, 0) Out) L qs"
proof -
  have m: "mset (cached_pages st) = mset (map (page_addr st) ps)" using I by (simp add: page_inv_for_def)
  then have "a \<in># mset (map (page_addr st) ps)" using c by (metis union_single_eq_member)
  then obtain p where p: "p \<in> set ps" "a = page_addr st p" by auto
  define qs where "qs = remove1 p ps"
  have mq: "mset ps = add_mset p (mset qs)" using p by (simp add: qs_def)
  have d: "distinct ps" using I by (simp add: page_inv_for_def)
  have q: "distinct qs" "set qs = set ps - {p}" using d by (simp_all add: qs_def)
  have len: "length ps = Suc (length qs)" by (metis mq size_add_mset size_mset)
  have "mset (map (page_addr st) ps) = add_mset a (mset (map (page_addr st) qs))"
    using mq p by simp
  then have "mset (cached_pages (st\<lparr>cpu_caches := cs\<rparr>)) = mset (map (page_addr st) qs)"
    using m c by simp
  then have "page_inv_for (st\<lparr>cpu_caches := cs\<rparr>) (insert (p, 0) Out) L qs"
    unfolding page_inv_for_def held_from_cache [OF mq]
    using I ok p q len by (auto simp: page_inv_for_def)
  with p show ?thesis by blast
qed

lemma page_inv_to_cache:
  assumes I: "page_inv_for st Out L ps" and ok: "caches_ok (st\<lparr>cpu_caches := cs\<rparr>)"
    and c: "mset (cached_pages (st\<lparr>cpu_caches := cs\<rparr>)) = add_mset (page_addr st p) (mset (cached_pages st))"
    and p: "(p, 0) \<in> Out"
  shows "page_inv_for (st\<lparr>cpu_caches := cs\<rparr>) (Out - {(p, 0)}) L (p # ps)"
  unfolding page_inv_for_def held_to_cache [OF p]
  using I ok c p sum_remove_block [of Out p 0] by (auto simp: page_inv_for_def)

lemma alloc_page_inv:
  assumes I: "page_inv_for st Out L ps"
  shows "\<exists>r st'. alloc_page hart st = Some (r, st') \<and>
    preserves (span Out) st st' \<and>
    (case r of
       None \<Rightarrow> page_inv_for st' Out L ps \<and> (\<forall>k\<le>MAX_ORDER. L k = [])
     | Some a \<Rightarrow> \<exists>p L' qs. a = page_addr st p \<and> (p, 0) \<notin> Out \<and> p \<notin> span Out \<and>
         page_inv_for st' (insert (p, 0) Out) L' qs)"
proof -
  have ok: "caches_ok st" using I by (simp add: page_inv_for_def)
  have sub: "span Out \<subseteq> span (held Out ps)" by (rule span_mono) (simp add: held_def)
  consider (slow) "alloc_page_fast hart st = (None, st)"
    | (fast) a cs where "alloc_page_fast hart st = (Some a, st\<lparr>cpu_caches := cs\<rparr>)"
      "caches_ok (st\<lparr>cpu_caches := cs\<rparr>)"
      "mset (cached_pages st) = add_mset a (mset (cached_pages (st\<lparr>cpu_caches := cs\<rparr>)))"
    using alloc_page_fast_cases [OF ok, of hart] by blast
  then show ?thesis
  proof cases
    case fast
    from page_inv_from_cache [OF I fast(2,3)] obtain p qs where
      p: "a = page_addr st p" "p \<in> set ps"
      "page_inv_for (st\<lparr>cpu_caches := cs\<rparr>) (insert (p, 0) Out) L qs" by blast
    have new: "(p, 0) \<notin> Out" using I p(2) by (auto simp: page_inv_for_def)
    have "span (held Out ps - {(p, 0)}) = span (held Out ps) - block p 0"
      by (rule span_Diff) (use I p(2) in \<open>auto simp: page_inv_for_def held_def\<close>)
    moreover have "span Out \<subseteq> span (held Out ps - {(p, 0)})"
      by (rule span_mono) (use new in \<open>auto simp: held_def\<close>)
    ultimately have "p \<notin> span Out" by (auto simp: block_def)
    with p new fast(1) show ?thesis by (auto simp: alloc_page_def)
  next
    case slow
    let ?st = "st\<lparr>cache_misses := cache_misses st + 1\<rparr>"
    have I': "page_inv_for ?st Out L ps" using I by simp
    note A = alloc_pages_addr_inv [OF I' le0]
    show ?thesis
    proof (cases "\<exists>k. 0 \<le> k \<and> k \<le> MAX_ORDER \<and> L k \<noteq> []")
      case False
      with A have "alloc_page hart st = Some (None, ?st)" by (simp only: alloc_page_slow [OF slow] if_False)
      with I' False show ?thesis by simp
    next
      case True
      with A obtain p st' L' where a: "alloc_pages_addr 0 ?st = Some (Some (page_addr ?st p), st')"
        "page_inv_for st' (insert (p, 0) Out) L' ps" "block p 0 \<subseteq> frames_of L"
        "(p, 0) \<notin> held Out ps" "preserves (span (held Out ps)) ?st st'"
        by (simp only: if_True) blast
      have "p \<notin> span Out"
        using I a(3) sub in_block_self [of p 0] unfolding page_inv_for_def by blast
      moreover have "preserves (span Out) st st'"
        using a(5) sub unfolding preserves_counters by (auto simp: preserves_def)
      ultimately show ?thesis using a slow
        by (auto simp: alloc_page_slow held_def)
    qed
  qed
qed


subsection \<open>Accounting\<close>

lemma page_inv_finite: "page_inv_for st Out L ps \<Longrightarrow> finite (held Out ps)"
  by (simp add: page_inv_for_def held_def)

lemma card_span:
  assumes "wf_blocks n B" and "finite B"
  shows "card (span B) = (\<Sum>(p, ord)\<in>B. 2 ^ ord)"
proof -
  have "card (span B) = (\<Sum>x\<in>B. card (block (fst x) (snd x)))"
    unfolding span_def case_prod_beta
    using assms unfolding wf_blocks_def by (intro card_UN_disjoint) auto
  then show ?thesis by (simp add: case_prod_beta)
qed

lemma allocated_card:
  assumes I: "page_inv_for st Out L ps"
  shows "allocated_pages (inner st) = card (span (held Out ps))"
proof -
  have d: "distinct ps" "Out \<inter> (\<lambda>p. (p, 0)) ` set ps = {}" "finite Out"
    using I by (auto simp: page_inv_for_def)
  have "card (span (held Out ps)) = (\<Sum>(p, ord)\<in>held Out ps. 2 ^ ord)"
    using I page_inv_finite [OF I] by (intro card_span) (auto simp: page_inv_for_def)
  also have "\<dots> = (\<Sum>(p, ord)\<in>Out. 2 ^ ord) + (\<Sum>(p, ord)\<in>(\<lambda>p. (p, 0)) ` set ps. 2 ^ ord)"
    unfolding held_def using d by (intro sum.union_disjoint) auto
  also have "(\<Sum>(p, ord)\<in>(\<lambda>p. (p, 0::nat)) ` set ps. (2::nat) ^ ord) = length ps"
    using d(1) by (subst sum.reindex) (auto simp: inj_on_def distinct_card)
  finally show ?thesis using I by (simp add: page_inv_for_def)
qed

lemma span_bound: "wf_blocks n B \<Longrightarrow> span B \<subseteq> {..<n}"
  unfolding span_def wf_blocks_def block_def by fastforce

lemma allocated_free_bound:
  assumes I: "page_inv_for st Out L ps"
  shows "allocated_pages (inner st) + card (frames_of L) \<le> total_pages (inner st)"
proof -
  have L: "buddy_layout (inner st, phys st) L" using I by (simp add: page_inv_for_def)
  have b: "span (held Out ps) \<subseteq> {..<total_pages (inner st)}" "frames_of L \<subseteq> {..<total_pages (inner st)}"
    using I span_bound layout_frames_bound [OF L] by (auto simp: page_inv_for_def)
  then have f: "finite (span (held Out ps))" "finite (frames_of L)"
    by (auto intro: finite_subset)
  have "card (span (held Out ps) \<union> frames_of L) = card (span (held Out ps)) + card (frames_of L)"
    using I f by (intro card_Un_disjoint) (auto simp: page_inv_for_def)
  moreover have "card (span (held Out ps) \<union> frames_of L) \<le> card {..<total_pages (inner st)}"
    using b by (intro card_mono) auto
  ultimately show ?thesis by (simp add: allocated_card [OF I])
qed

subsection \<open>Release\<close>

lemma page_of_addr:
  assumes "geometry (inner st)" and "p < total_pages (inner st)"
  shows "usize_sub (page_addr st p) (base (inner st)) div PAGE_SIZE = p"
proof -
  have "p * PAGE_SIZE \<le> total_pages (inner st) * PAGE_SIZE" using assms(2) by simp
  then have "page_addr st p < 2 ^ 64"
    using assms(1) unfolding page_addr_def geometry_def by linarith
  then have "usize_sub (page_addr st p) (base (inner st)) = p * PAGE_SIZE"
    by (simp add: usize_sub_small page_addr_def)
  then show ?thesis by (simp add: PAGE_SIZE_def)
qed

lemma free_page_slow:
  assumes I: "page_inv_for st Out L ps" and mem: "(p, ord) \<in> Out"
    and slow: "ord = 0 \<longrightarrow> \<not> fst (free_page_fast hart (page_addr st p) st)"
  shows "\<exists>st' L'. free_page hart (page_addr st p) ord st = Some st' \<and>
    page_inv_for st' (Out - {(p, ord)}) L' ps \<and> preserves (span (Out - {(p, ord)})) st st' \<and>
    (\<exists>k. ord \<le> k \<and> k \<le> MAX_ORDER \<and> L' k \<noteq> [])"
proof -
  have L: "buddy_layout (inner st, phys st) L" using I by (simp add: page_inv_for_def)
  have h: "(p, ord) \<in> held Out ps" using mem by (simp add: held_def)
  note b = page_inv_bound [OF I h]
  have ord: "ord \<le> MAX_ORDER" using I mem by (auto simp: page_inv_for_def)
  have s: "(\<Sum>(q, o')\<in>Out. (2::nat) ^ o') = 2 ^ ord + (\<Sum>(q, o')\<in>Out - {(p, ord)}. 2 ^ o')"
    using I mem by (intro sum_remove_block) (auto simp: page_inv_for_def)
  then have ge: "2 ^ ord \<le> allocated_pages (inner st)" using I by (simp add: page_inv_for_def)
  have g: "geometry (inner st)" using layout_geometry [OF L] by simp
  then have lt: "allocated_pages (inner st) < 2 ^ 64"
    using allocated_free_bound [OF I] unfolding geometry_def PAGE_SIZE_def by linarith
  from free_pages_layout [OF L ord b(2) _ b(3)] b(1) ge lt obtain c m L' where
    f: "free_pages (inner st, phys st) p ord = Some (c, m)" and L': "buddy_layout (c, m) L'" and
    r: "same_region (inner st, phys st) (c, m)" and
    cnt: "allocated_pages c = allocated_pages (inner st) - 2 ^ ord" and
    fr: "frames_of L' \<subseteq> frames_of L \<union> block p ord" and
    k: "\<exists>k. ord \<le> k \<and> k \<le> MAX_ORDER \<and> L' k \<noteq> []" and
    u: "untouched (frames_of L \<union> block p ord) (inner st, phys st) (c, m)"
    by auto
  let ?st = "st\<lparr>inner := c, phys := m\<rparr>"
  have hd: "held (Out - {(p, ord)}) ps = held Out ps - {(p, ord)}"
    using I mem by (auto simp: held_def page_inv_for_def)
  have sp: "span (held Out ps - {(p, ord)}) = span (held Out ps) - block p ord"
    using I h by (intro span_Diff) (auto simp: page_inv_for_def)
  have "page_inv_for ?st (Out - {(p, ord)}) L' ps"
    unfolding page_inv_for_def hd sp
  proof (intro conjI)
    show "wf_blocks (total_pages (inner ?st)) (held Out ps - {(p, ord)})"
      using I r by (auto simp: page_inv_for_def same_region_def intro: wf_blocks_subset)
    show "mset (cached_pages ?st) = mset (map (page_addr ?st) ps)"
      using I r by (simp add: page_inv_for_def cached_pages_def page_addr_def [abs_def] same_region_def)
    show "(span (held Out ps) - block p ord) \<inter> frames_of L' = {}"
      using I fr by (auto simp: page_inv_for_def)
    show "allocated_pages (inner ?st) = (\<Sum>(p, ord)\<in>Out - {(p, ord)}. 2 ^ ord) + length ps"
      using I cnt s by (simp add: page_inv_for_def)
  qed (use I L' in \<open>auto simp: page_inv_for_def caches_ok_def\<close>)
  moreover have "(0::nat) < 2 ^ ord" by simp
  then have "p < total_pages (inner st)" using b(1) by linarith
  then have "free_page hart (page_addr st p) ord st = Some ?st"
    using f slow by (cases "ord = 0") (simp_all add: free_page_def page_of_addr [OF g])
  moreover have "span (Out - {(p, ord)}) \<inter> (frames_of L \<union> block p ord) = {}"
  proof -
    have "Out - {(p, ord)} \<subseteq> held Out ps - {(p, ord)}" by (auto simp: held_def)
    from span_mono [OF this] show ?thesis using I unfolding sp page_inv_for_def by blast
  qed
  then have "preserves (span (Out - {(p, ord)})) st ?st"
    by (rule untouched_preserves [OF u r])
  ultimately show ?thesis using k by blast
qed

lemma cpu_caches_upd_eq [simp]: "st\<lparr>cpu_caches := cs\<rparr> = st\<lparr>cpu_caches := cs'\<rparr> \<longleftrightarrow> cs = cs'"
  by (metis PageState.select_convs(3) PageState.surjective PageState.update_convs(3))

lemma free_page_inv:
  assumes I: "page_inv_for st Out L ps" and mem: "(p, ord) \<in> Out"
  shows "\<exists>st' L' qs. free_page hart (page_addr st p) ord st = Some st' \<and>
    page_inv_for st' (Out - {(p, ord)}) L' qs \<and> preserves (span (Out - {(p, ord)})) st st' \<and>
    ((\<exists>k. ord \<le> k \<and> k \<le> MAX_ORDER \<and> L' k \<noteq> []) \<or> ord = 0 \<and> fst (alloc_page_fast hart st') \<noteq> None)"
proof (cases "ord = 0 \<and> fst (free_page_fast hart (page_addr st p) st)")
  case False
  then show ?thesis using free_page_slow [OF I mem] by blast
next
  case True
  have ok: "caches_ok st" using I by (simp add: page_inv_for_def)
  from free_page_fast_cases [OF ok, of hart "page_addr st p"] True obtain cs where
    f: "free_page_fast hart (page_addr st p) st = (True, st\<lparr>cpu_caches := cs\<rparr>)"
    "caches_ok (st\<lparr>cpu_caches := cs\<rparr>)"
    "mset (cached_pages (st\<lparr>cpu_caches := cs\<rparr>)) = add_mset (page_addr st p) (mset (cached_pages st))"
    by auto
  have "fst (alloc_page_fast hart (st\<lparr>cpu_caches := cs\<rparr>)) \<noteq> None"
    using f(1) ok caches_ok_nth [OF ok, of hart]
    by (auto simp: free_page_fast_def alloc_page_fast_def Let_def split: if_splits)
  moreover have "page_inv_for (st\<lparr>cpu_caches := cs\<rparr>) (Out - {(p, ord)}) L (p # ps)"
    using page_inv_to_cache [OF I f(2,3)] mem True by simp
  ultimately show ?thesis using True f(1)
    by (auto simp: free_page_def)
qed

subsection \<open>Boot and client writes\<close>

lemma page_inv_boot:
  assumes "bs \<le> e" and "e < 2 ^ 64"
  shows "\<exists>L. page_inv_for (init_pages m bs e) {} L [] \<and> frames_of L =
      (let n = (e - bs) div PAGE_SIZE in if n < 2 ^ Suc MAX_ORDER then {..<n} else {2 ^ MAX_ORDER..<n})"
  using init_layout [OF assms, of m]
  by (auto simp: page_inv_for_def init_pages_def caches_ok_def cached_pages_def held_def
      wf_blocks_def span_def)

lemma page_inv_mem:
  assumes I: "page_inv_for st Out L ps"
    and eq: "\<And>q. q \<in> frames_of L \<Longrightarrow> m (page_addr st q) = phys st (page_addr st q)"
  shows "page_inv_for (st\<lparr>phys := m\<rparr>) Out L ps"
proof -
  have "buddy_layout (inner st, m) L"
    by (rule layout_mem_agree [of "inner st" "phys st"])
      (use I in \<open>simp add: page_inv_for_def\<close>, use eq in \<open>simp add: page_addr_def\<close>)
  with I show ?thesis
    by (simp add: page_inv_for_def caches_ok_def cached_pages_def page_addr_def [abs_def])
qed

lemma page_inv_span_frames:
  "page_inv_for st Out L ps \<Longrightarrow> f \<in> span Out \<Longrightarrow> f \<notin> frames_of L"
  using span_Out_held [of Out ps] unfolding page_inv_for_def by blast

lemma page_inv_write:
  assumes I: "page_inv_for st Out L ps" and f: "f \<in> span Out" and off: "off < PAGE_SIZE"
  shows "page_inv_for (st\<lparr>phys := (phys st)(page_addr st f + off := v)\<rparr>) Out L ps"
proof (rule page_inv_mem [OF I])
  fix q assume "q \<in> frames_of L"
  with page_inv_span_frames [OF I f] have "f \<noteq> q" by blast
  from cell_neq [OF this off, of "base (inner st)"]
  show "((phys st)(page_addr st f + off := v)) (page_addr st q) = phys st (page_addr st q)"
    by (simp add: page_addr_def)
qed

lemma zero_page_other:
  assumes "p \<noteq> q" and "off < PAGE_SIZE"
  shows "zero_page (page_addr st p) m (page_addr st q + off) = m (page_addr st q + off)"
proof -
  consider "Suc p \<le> q" | "Suc q \<le> p" using assms(1) by linarith
  then have "page_addr st p + PAGE_SIZE \<le> page_addr st q \<or> page_addr st q + PAGE_SIZE \<le> page_addr st p"
  proof cases
    case 1
    from mult_le_mono1 [OF this, of PAGE_SIZE] show ?thesis by (simp add: page_addr_def)
  next
    case 2
    from mult_le_mono1 [OF this, of PAGE_SIZE] show ?thesis by (simp add: page_addr_def)
  qed
  with assms(2) show ?thesis by (auto simp: zero_page_def)
qed

lemma page_inv_zero:
  assumes I: "page_inv_for st Out L ps" and f: "f \<in> span Out"
  shows "page_inv_for (st\<lparr>phys := zero_page (page_addr st f) (phys st)\<rparr>) Out L ps"
proof (rule page_inv_mem [OF I])
  fix q assume "q \<in> frames_of L"
  with page_inv_span_frames [OF I f] have "f \<noteq> q" by blast
  from zero_page_other [OF this, of 0 st "phys st"]
  show "zero_page (page_addr st f) (phys st) (page_addr st q) = phys st (page_addr st q)"
    by (simp add: PAGE_SIZE_def)
qed

lemma alloc_pages_addr_big: "ord > MAX_ORDER \<Longrightarrow> alloc_pages_addr ord st = Some (None, st)"
  by (simp add: alloc_pages_addr_def alloc_pages_def)

lemma page_reach_inv: "page_reach st Out \<Longrightarrow> \<exists>L ps. page_inv_for st Out L ps"
proof (induction rule: page_reach.induct)
  case (boot bs e m)
  from page_inv_boot [OF boot] show ?case by blast
next
  case (alloc1 st Out hart p st')
  then obtain L ps where "page_inv_for st Out L ps" by blast
  from alloc_page_inv [OF this, of hart] alloc1.hyps(2) show ?case by auto
next
  case (alloc1_none st Out hart st')
  then obtain L ps where "page_inv_for st Out L ps" by blast
  from alloc_page_inv [OF this, of hart] alloc1_none.hyps(2) show ?case by auto
next
  case (alloc st Out ord p st')
  then obtain L ps where I: "page_inv_for st Out L ps" by blast
  have "ord \<le> MAX_ORDER" using alloc.hyps(2) alloc_pages_addr_big [of ord st] by fastforce
  from alloc_pages_addr_inv [OF I this] alloc.hyps(2) show ?case by (auto split: if_splits)
next
  case (alloc_none st Out ord st')
  then obtain L ps where I: "page_inv_for st Out L ps" by blast
  show ?case
  proof (cases "ord \<le> MAX_ORDER")
    case True
    from alloc_pages_addr_inv [OF I True] alloc_none.hyps(2) I show ?thesis by (auto split: if_splits)
  next
    case False
    with alloc_none.hyps(2) alloc_pages_addr_big [of ord st] I show ?thesis by auto
  qed
next
  case (free st Out p ord hart st')
  then obtain L ps where "page_inv_for st Out L ps" by blast
  from free_page_inv [OF this free.hyps(2), of hart] free.hyps(3) show ?case by auto
next
  case (client_write st Out f off v)
  then obtain L ps where "page_inv_for st Out L ps" by blast
  from page_inv_write [OF this client_write.hyps(2,3)] show ?case by blast
qed

lemma free_frames_layout:
  assumes "page_inv_for st Out L ps"
  shows "free_frames st = frames_of L"
proof -
  have L: "free_chains (inner st, phys st) L"
    using assms by (simp add: page_inv_for_def buddy_layout_def)
  from free_chains_frames [OF _ L] L show ?thesis unfolding free_frames_def by blast
qed


lemma preserves_mono: "preserves G st st' \<Longrightarrow> F \<subseteq> G \<Longrightarrow> preserves F st st'"
  by (auto simp: preserves_def)

lemma cache_stats_length:
  assumes "page_inv_for st Out L ps"
  shows "fst (per_cpu_cache_stats st) = length ps"
proof -
  have ok: "caches_ok st" using assms by (simp add: page_inv_for_def)
  have f: "fold (\<lambda>h acc. acc + g h) hs n = n + (\<Sum>h\<leftarrow>hs. g h)" for g :: "nat \<Rightarrow> nat" and hs n
    by (induction hs arbitrary: n) auto
  have "length ps = length (cached_pages st)"
    using assms unfolding page_inv_for_def by (metis mset_eq_length length_map)
  also have "\<dots> = (\<Sum>c\<leftarrow>cpu_caches st. cache_count c)"
    using ok unfolding cached_pages_def length_concat map_map comp_def caches_ok_def
    by (intro arg_cong [of _ _ sum_list] map_cong) auto
  also have "map cache_count (cpu_caches st) =
      map (\<lambda>h. cache_count (cpu_caches st ! h)) [0..<MAX_CPU_HARTS]"
    using ok by (intro nth_equalityI) (auto simp: caches_ok_def)
  finally show ?thesis by (simp add: per_cpu_cache_stats_def f)
qed

section \<open>Properties\<close>

text \<open>
  C1. Exclusive ownership: in every run of the page allocator, an allocation of any order
  returns (no panic, no endless walk of a free list), and a page address it returns is that
  of an aligned block inside the managed region, disjoint from every block a client holds
  and taken from the frames that were free; the bytes of all held blocks are unchanged.
\<close>

theorem alloc_pages_exclusive:
  assumes "page_reach st Out"
  shows "\<exists>r st'. alloc_pages_addr ord st = Some (r, st') \<and> preserves (span Out) st st' \<and>
    (\<forall>a. r = Some a \<longrightarrow> (\<exists>p. a = page_addr st p \<and> 2 ^ ord dvd p \<and>
       p + 2 ^ ord \<le> total_pages (inner st) \<and> block p ord \<inter> span Out = {} \<and>
       block p ord \<subseteq> free_frames st \<and> free_frames st' = free_frames st - block p ord))"
proof -
  obtain L ps where I: "page_inv_for st Out L ps" using page_reach_inv [OF assms] by blast
  consider (big) "ord > MAX_ORDER" | (none) "ord \<le> MAX_ORDER" "\<not> (\<exists>k. ord \<le> k \<and> k \<le> MAX_ORDER \<and> L k \<noteq> [])"
    | (found) "ord \<le> MAX_ORDER" "\<exists>k. ord \<le> k \<and> k \<le> MAX_ORDER \<and> L k \<noteq> []" by (meson not_le)
  then show ?thesis
  proof cases
    case big
    then show ?thesis by (simp add: alloc_pages_addr_big)
  next
    case none
    from alloc_pages_addr_inv [OF I none(1)] show ?thesis unfolding if_not_P [OF none(2)] by simp
  next
    case found
    from alloc_pages_addr_inv [OF I found(1)] obtain p st' L' where
      a: "alloc_pages_addr ord st = Some (Some (page_addr st p), st')"
      "page_inv_for st' (insert (p, ord) Out) L' ps" "block p ord \<subseteq> frames_of L"
      "preserves (span (held Out ps)) st st'" "frames_of L' = frames_of L - block p ord"
      unfolding if_P [OF found(2)] by blast
    have "block p ord \<inter> span Out = {}"
      using I a(3) span_Out_held [of Out ps] unfolding page_inv_for_def by blast
    moreover have "p + 2 ^ ord \<le> total_pages (inner st)" "2 ^ ord dvd p"
      using page_inv_bound [OF a(2), of p ord] a(4) by (auto simp: held_def preserves_def)
    ultimately show ?thesis
      using a preserves_mono [OF a(4) span_Out_held] free_frames_layout [OF I] free_frames_layout [OF a(2)]
      by auto
  qed
qed

text \<open>
  C2. Release and reuse: freeing a block that a client holds returns, leaves the bytes of
  the other held blocks alone, and makes the memory available again: the next allocation
  of the same order (through the same hart, for single pages) succeeds.
\<close>

theorem free_page_reuse:
  assumes "page_reach st Out" and "(p, ord) \<in> Out"
  shows "\<exists>st'. free_page hart (page_addr st p) ord st = Some st' \<and>
    preserves (span (Out - {(p, ord)})) st st' \<and> page_reach st' (Out - {(p, ord)}) \<and>
    (\<exists>a st''. (if ord = 0 then alloc_page hart st' else alloc_pages_addr ord st') = Some (Some a, st''))"
proof -
  obtain L ps where I: "page_inv_for st Out L ps" using page_reach_inv [OF assms(1)] by blast
  from free_page_inv [OF I assms(2), of hart] obtain st' L' qs where
    f: "free_page hart (page_addr st p) ord st = Some st'"
    "page_inv_for st' (Out - {(p, ord)}) L' qs" "preserves (span (Out - {(p, ord)})) st st'"
    "(\<exists>k. ord \<le> k \<and> k \<le> MAX_ORDER \<and> L' k \<noteq> []) \<or> ord = 0 \<and> fst (alloc_page_fast hart st') \<noteq> None"
    by blast
  have ord: "ord \<le> MAX_ORDER" using I assms(2) by (auto simp: page_inv_for_def)
  have "\<exists>a st''. alloc_pages_addr ord st' = Some (Some a, st'')"
    if "\<exists>k. ord \<le> k \<and> k \<le> MAX_ORDER \<and> L' k \<noteq> []"
    using alloc_pages_addr_inv [OF f(2) ord] unfolding if_P [OF that] by blast
  moreover have "\<exists>a st''. alloc_page hart st' = Some (Some a, st'')" if "ord = 0"
  proof -
    from alloc_page_inv [OF f(2), of hart] obtain r st'' where
      a: "alloc_page hart st' = Some (r, st'')" "r = None \<longrightarrow> (\<forall>k\<le>MAX_ORDER. L' k = [])"
      by (auto split: option.splits)
    have "r \<noteq> None"
      using a f(4) by (auto simp: alloc_page_def split: prod.splits)
    with a show ?thesis by auto
  qed
  ultimately show ?thesis
    using f page_reach.free [OF assms f(1)] by auto
qed

text \<open>
  C3. Accounting: in every run, \<open>count_free_pages\<close> returns the number of frames on the
  free lists, \<open>allocated_pages\<close> counts exactly the pages that clients hold plus those
  parked in the per-hart caches, and together they never exceed the managed pages.
\<close>

theorem page_accounting:
  assumes "page_reach st Out"
  shows "count_free_pages (inner st, phys st) = Some (card (free_frames st)) \<and>
    allocated_pages (inner st) = card (span Out) + fst (per_cpu_cache_stats st) \<and>
    allocated_pages (inner st) + card (free_frames st) \<le> total_pages (inner st)"
proof -
  obtain L ps where I: "page_inv_for st Out L ps" using page_reach_inv [OF assms] by blast
  then have L: "buddy_layout (inner st, phys st) L" by (simp add: page_inv_for_def)
  have "card (span Out) = (\<Sum>(p, ord)\<in>Out. 2 ^ ord)"
    using I by (intro card_span [of "total_pages (inner st)"])
      (auto simp: page_inv_for_def held_def intro: wf_blocks_subset)
  then show ?thesis
    using count_free_pages_layout [OF L] allocated_free_bound [OF I] cache_stats_length [OF I] I
    by (simp add: free_frames_layout [OF I] page_inv_for_def)
qed

text \<open>
  C4. What boot makes available: with fewer than two maximal blocks (8192 pages, 32 MB)
  every page of the region is free after \<open>init\<close>; from 8192 pages on the first 4096 pages
  are lost, because the link to page 0 reads back as the end of the free list.
\<close>

theorem init_free_pages:
  assumes "bs \<le> e" and "e < 2 ^ 64"
  shows "let n = (e - bs) div PAGE_SIZE in
    count_free_pages (init m bs e) = Some (if n < 8192 then n else n - 4096)"
proof -
  from init_layout(1) [OF assms, of m] obtain L where
    L: "buddy_layout (init m bs e) L" "frames_of L = (let n = (e - bs) div PAGE_SIZE in
      if n < 2 ^ Suc MAX_ORDER then {..<n} else {2 ^ MAX_ORDER..<n})" by blast
  show ?thesis
    unfolding count_free_pages_layout [OF L(1)] L(2) Let_def MAX_ORDER_def by simp
qed

text \<open>
  C5. A page from \<open>alloc_page_zeroed\<close> is not part of any block a client holds, every
  cell of it reads zero, and the other held blocks keep their contents. \<open>None\<close> is
  returned only when no free list has a block.
\<close>

theorem alloc_page_zeroed_fresh:
  assumes "page_reach st Out"
  shows "\<exists>r st'. alloc_page_zeroed hart st = Some (r, st') \<and> preserves (span Out) st st' \<and>
    (r = None \<longrightarrow> free_frames st = {}) \<and>
    (\<forall>a. r = Some a \<longrightarrow> (\<exists>p. a = page_addr st p \<and> p < total_pages (inner st) \<and> p \<notin> span Out \<and>
       (\<forall>off<PAGE_SIZE. phys st' (a + off) = 0) \<and> page_inv st' (insert (p, 0) Out)))"
proof -
  obtain L ps where I: "page_inv_for st Out L ps" using page_reach_inv [OF assms] by blast
  from alloc_page_inv [OF I, of hart] obtain r st' where
    a: "alloc_page hart st = Some (r, st')" "preserves (span Out) st st'"
    "case r of None \<Rightarrow> page_inv_for st' Out L ps \<and> (\<forall>k\<le>MAX_ORDER. L k = [])
     | Some a \<Rightarrow> \<exists>p L' qs. a = page_addr st p \<and> (p, 0) \<notin> Out \<and> p \<notin> span Out \<and>
         page_inv_for st' (insert (p, 0) Out) L' qs" by blast
  show ?thesis
  proof (cases r)
    case None
    with a(3) have "frames_of L = {}" by (auto simp: frames_of_def blocks_of_def)
    with None a(1,2) show ?thesis by (simp add: alloc_page_zeroed_def free_frames_layout [OF I])
  next
    case (Some a')
    with a(3) obtain p L' qs where p: "a' = page_addr st p" "p \<notin> span Out"
      "page_inv_for st' (insert (p, 0) Out) L' qs" by auto
    let ?st = "st'\<lparr>phys := zero_page a' (phys st')\<rparr>"
    have eq: "page_addr st' = page_addr st" using a(2) by (simp add: preserves_def page_addr_def [abs_def])
    have "page_inv ?st (insert (p, 0) Out)"
      using page_inv_zero [OF p(3), of p] p(1) eq by (auto simp: page_inv_def)
    moreover have "p < total_pages (inner st)"
      using page_inv_bound(1) [OF p(3), of p 0] a(2) by (simp add: held_def preserves_def)
    moreover have "p \<noteq> f" if "f \<in> span Out" for f using that p(2) by blast
    then have "preserves (span Out) st ?st"
      using a(2) p(1) by (simp add: preserves_def zero_page_other)
    ultimately show ?thesis
      using a(1) Some p(1,2) by (auto simp: alloc_page_zeroed_def zero_page_def)
  qed
qed

section \<open>Witnesses\<close>

text \<open>A region of four pages, and the run that allocates one block of order 1 from it.\<close>

definition demo :: PageState where
  "demo = init_pages (\<lambda>_. 0) 4096 20480"

definition demo1 :: PageState where
  "demo1 = snd (the (alloc_pages_addr 1 demo))"

lemma demo_reach: "page_reach demo {}"
  unfolding demo_def by (rule page_reach.boot) simp_all

lemma demo_init: "init (\<lambda>_. 0) 4096 20480 =
  (\<lparr>free_lists = [None, None, Some 0, None, None, None, None, None, None, None, None, None, None],
    base = 4096, bend = 20480, total_pages = 4, allocated_pages = 0\<rparr>, \<lambda>_. 0)"
  by (simp add: init_def Let_def PAGE_SIZE_def MAX_ORDER_def init_loop.simps [of _ 4]
      init_loop.simps [of _ 0] push_free_def set_node_next_def FREE_LIST_COUNT_def fun_upd_idem)
    (simp add: numeral_eq_Suc)

lemma demo_alloc: "alloc_pages_addr 1 demo = Some (Some (page_addr demo 0), demo1)"
proof -
  have "fst (the (alloc_pages_addr 1 demo)) = Some (page_addr demo 0) \<and> alloc_pages_addr 1 demo \<noteq> None"
    by (simp add: demo_def init_pages_def demo_init alloc_pages_addr_def alloc_pages_def MAX_ORDER_def
        alloc_loop.simps split.simps [of _ "Suc (Suc 0)"] pop_free_def push_free_def set_node_next_def node_next_def
        page_addr_def Let_def PAGE_SIZE_def)
  then show ?thesis by (auto simp: demo1_def)
qed

lemma demo1_reach: "page_reach demo1 {(0, 1)}"
  using page_reach.alloc [OF demo_reach demo_alloc] by simp


theorem alloc_pages_exclusive_witness:
  "page_reach demo1 {(0, 1)} \<and>
   (\<exists>r st'. alloc_pages_addr 1 demo1 = Some (r, st') \<and> preserves (span {(0, 1)}) demo1 st')"
  using demo1_reach alloc_pages_exclusive [OF demo1_reach, of 1] by blast

theorem free_page_reuse_witness:
  "\<exists>st'. free_page 3 (page_addr demo1 0) 1 demo1 = Some st' \<and> page_reach st' {}"
  using free_page_reuse [OF demo1_reach, of 0 1 3] by auto

theorem page_accounting_witness:
  "count_free_pages (inner demo1, phys demo1) = Some (card (free_frames demo1)) \<and>
   allocated_pages (inner demo1) = 2 + fst (per_cpu_cache_stats demo1)"
  using page_accounting [OF demo1_reach] by (simp add: span_def)

theorem init_free_pages_witness:
  "count_free_pages (init (\<lambda>_. 0) 4096 20480) = Some 4 \<and>
   count_free_pages (init (\<lambda>_. 0) 0 36864000) = Some 4904"
  using init_free_pages [of 4096 20480 "\<lambda>_. 0"] init_free_pages [of 0 36864000 "\<lambda>_. 0"]
  by (simp add: PAGE_SIZE_def)

theorem alloc_page_zeroed_fresh_witness:
  "\<exists>r st'. alloc_page_zeroed 0 demo1 = Some (r, st') \<and> preserves (span {(0, 1)}) demo1 st' \<and>
    (case r of None \<Rightarrow> free_frames demo1 = {} | Some a \<Rightarrow> phys st' (a + 8) = 0)"
proof -
  from alloc_page_zeroed_fresh [OF demo1_reach, of 0] obtain r st' where
    "alloc_page_zeroed 0 demo1 = Some (r, st')" "preserves (span {(0, 1)}) demo1 st'"
    "r = None \<longrightarrow> free_frames demo1 = {}"
    "\<forall>a. r = Some a \<longrightarrow> (\<forall>off<PAGE_SIZE. phys st' (a + off) = 0)" by blast
  moreover have "8 < PAGE_SIZE" by (simp add: PAGE_SIZE_def)
  ultimately show ?thesis by (auto split: option.splits)
qed

end
