(* ===== verification/Capabilities.thy ===== *)
theory Capabilities
  imports Kernel_Prelude
begin

unbundle bit_operations_syntax

text \<open>
  Capabilities: kernel/src/cap/types.rs, cap/mod.rs, cap/ops.rs and the capability
  system calls of syscall/cap.rs. The resource table is the state; resource ids are
  indices into it and are handed out in increasing order.

  The table is behind one \<open>spin::Mutex\<close>. \<open>relock\<close> is the outcome of locking it while
  the same thread already holds it; the operations say at each lock whether the guard is
  still alive. The crate documents that its mutex is not reentrant: \<open>relock = Hang\<close>.
\<close>

section \<open>Definitions\<close>

subsection \<open>Data\<close>

datatype CapType = CapNull | CapMem | CapEP | CapProc | CapCNode | CapVector

type_synonym rights = u8

definition RIGHT_READ :: rights where "RIGHT_READ = 1"
definition RIGHT_WRITE :: rights where "RIGHT_WRITE = 2"
definition RIGHT_EXEC :: rights where "RIGHT_EXEC = 4"
definition RIGHT_MAP :: rights where "RIGHT_MAP = 8"
definition RIGHT_SEND :: rights where "RIGHT_SEND = 16"
definition RIGHT_RECV :: rights where "RIGHT_RECV = 32"
definition RIGHT_SPAWN :: rights where "RIGHT_SPAWN = 64"
definition RIGHT_KILL :: rights where "RIGHT_KILL = 128"

record Slot =
  cap_type :: CapType
  slot_rights :: rights
  resource_id :: usize

definition null_slot :: Slot where
  "null_slot = \<lparr>cap_type = CapNull, slot_rights = 0, resource_id = 0\<rparr>"

datatype ResourceData =
    RNull | RMem (phys_addr: usize) (rsize: usize) | REP (ep_id: usize) | RProc (rpid: u32)
  | RCNode (slots: "Slot list") | RVector (vpid: u32)

record Resource =
  ref_count :: usize
  res_type :: CapType
  derivation_parent :: "usize option"
  derivation_children :: "usize list"
  rdata :: ResourceData

record CapState =
  resources :: "Resource option list"
  next_resource_id :: usize

definition cap_init :: CapState where
  "cap_init = \<lparr>resources = [None], next_resource_id = 1\<rparr>"

text \<open>\<open>resources.get(rid)?.as_ref()?\<close>\<close>

definition res_at :: "CapState \<Rightarrow> usize \<Rightarrow> Resource option" where
  "res_at s rid = (if rid < length (resources s) then resources s ! rid else None)"

definition set_res :: "usize \<Rightarrow> Resource option \<Rightarrow> CapState \<Rightarrow> CapState" where
  "set_res rid r s = s\<lparr>resources := (resources s)[rid := r]\<rparr>"

definition lock_resources :: "unit outcome \<Rightarrow> bool \<Rightarrow> unit outcome" where
  "lock_resources relock held = (if held then relock else Ret ())"

subsection \<open>Operations\<close>

definition alloc_resource ::
  "unit outcome \<Rightarrow> bool \<Rightarrow> CapType \<Rightarrow> ResourceData \<Rightarrow> CapState \<Rightarrow> (usize \<times> CapState) outcome" where
  "alloc_resource relock held t d s =
     (let rid = next_resource_id s;
          r = \<lparr>ref_count = 1, res_type = t, derivation_parent = None, derivation_children = [], rdata = d\<rparr>
      in obind (lock_resources relock held) (\<lambda>_.
         let padded = resources s @ replicate (Suc rid - length (resources s)) None
         in Ret (rid, \<lparr>resources = padded[rid := Some r], next_resource_id = rid + 1\<rparr>)))"

definition get_resource :: "CapState \<Rightarrow> usize \<Rightarrow> Resource option" where
  "get_resource s rid =
     (if rid < length (resources s) \<and> resources s ! rid \<noteq> None then resources s ! rid else None)"

definition inc_ref :: "unit outcome \<Rightarrow> bool \<Rightarrow> usize \<Rightarrow> CapState \<Rightarrow> CapState outcome" where
  "inc_ref relock held rid s =
     obind (lock_resources relock held) (\<lambda>_.
       if rid \<ge> length (resources s) then Panic
       else (case resources s ! rid of
               None \<Rightarrow> Ret s
             | Some r \<Rightarrow> Ret (set_res rid (Some (r\<lparr>ref_count := usize_add (ref_count r) 1\<rparr>)) s)))"

definition dec_ref :: "usize \<Rightarrow> CapState \<Rightarrow> CapState" where
  "dec_ref rid s =
     (case res_at s rid of
        None \<Rightarrow> s
      | Some r \<Rightarrow>
          (let refcnt = usize_sub (ref_count r) 1 in
           if refcnt = 0 then set_res rid None s
           else set_res rid (Some (r\<lparr>ref_count := refcnt\<rparr>)) s))"

definition duplicate_resource_data_inner ::
  "unit outcome \<Rightarrow> bool \<Rightarrow> usize \<Rightarrow> CapState \<Rightarrow> (ResourceData option \<times> CapState) outcome" where
  "duplicate_resource_data_inner relock held rid s =
     obind (lock_resources relock held) (\<lambda>_.
       case res_at s rid of
         None \<Rightarrow> Ret (None, s)
       | Some res \<Rightarrow> obind (inc_ref relock True rid s) (\<lambda>s1. Ret (Some (rdata res), s1)))"

text \<open>The guards of \<open>mint\<close>: the source slot, when it may be minted with these rights.\<close>

definition mint_source :: "CapState \<Rightarrow> usize \<Rightarrow> usize \<Rightarrow> rights \<Rightarrow> Slot option" where
  "mint_source s cnode_id src_slot_idx desired_rights =
     (case res_at s cnode_id of
        None \<Rightarrow> None
      | Some cnode \<Rightarrow>
          (case rdata cnode of
             RCNode ss \<Rightarrow>
               (if src_slot_idx < length ss then
                  (let src = ss ! src_slot_idx in
                   if cap_type src = CapNull then None
                   else if desired_rights AND slot_rights src \<noteq> desired_rights then None
                   else Some src)
                else None)
           | _ \<Rightarrow> None))"

definition add_child :: "usize \<Rightarrow> usize \<Rightarrow> CapState \<Rightarrow> CapState" where
  "add_child src_id child_id s =
     (case resources s ! src_id of
        None \<Rightarrow> s
      | Some parent \<Rightarrow>
          set_res src_id (Some (parent\<lparr>derivation_children := derivation_children parent @ [child_id]\<rparr>)) s)"

definition set_parent :: "usize \<Rightarrow> usize \<Rightarrow> CapState \<Rightarrow> CapState" where
  "set_parent child_id src_id s =
     (case resources s ! child_id of
        None \<Rightarrow> s
      | Some child \<Rightarrow> set_res child_id (Some (child\<lparr>derivation_parent := Some src_id\<rparr>)) s)"

definition record_derivation :: "usize \<Rightarrow> usize \<Rightarrow> CapState \<Rightarrow> CapState outcome" where
  "record_derivation src_id child_id s =
     (if src_id \<ge> length (resources s) \<or> child_id \<ge> length (resources s) then Panic
      else Ret (set_parent child_id src_id (add_child src_id child_id s)))"

definition mint ::
  "unit outcome \<Rightarrow> usize \<Rightarrow> usize \<Rightarrow> rights \<Rightarrow> CapState \<Rightarrow> (Slot option \<times> CapState) outcome" where
  "mint relock cnode_id src_slot_idx desired_rights s =
     obind (lock_resources relock False) (\<lambda>_.
       case mint_source s cnode_id src_slot_idx desired_rights of
         None \<Rightarrow> Ret (None, s)
       | Some src \<Rightarrow>
           obind (duplicate_resource_data_inner relock True (resource_id src) s) (\<lambda>(d, s1).
             case d of
               None \<Rightarrow> Ret (None, s1)
             | Some d \<Rightarrow>
                 obind (alloc_resource relock True (cap_type src) d s1) (\<lambda>(child_id, s2).
                 obind (record_derivation (resource_id src) child_id s2) (\<lambda>s3.
                 Ret (Some \<lparr>cap_type = cap_type src, slot_rights = desired_rights,
                            resource_id = child_id\<rparr>, s3)))))"

definition copy_source :: "CapState \<Rightarrow> usize \<Rightarrow> usize \<Rightarrow> Slot result" where
  "copy_source s src_cnode src_idx =
     (if src_cnode \<ge> length (resources s) then Inl ''src cnode not found''
      else case resources s ! src_cnode of
        None \<Rightarrow> Inl ''src cnode freed''
      | Some src_node \<Rightarrow>
          (case rdata src_node of
             RCNode ss \<Rightarrow>
               (let src_slot = (if src_idx < length ss then ss ! src_idx else null_slot)
                in if cap_type src_slot = CapNull then Inl ''src slot null'' else Inr src_slot)
           | _ \<Rightarrow> Inl ''src not a cnode''))"

definition put_slot :: "usize \<Rightarrow> Slot \<Rightarrow> Slot list \<Rightarrow> Slot list" where
  "put_slot idx sl ss = (ss @ replicate (Suc idx - length ss) null_slot)[idx := sl]"

definition copy_cap ::
  "unit outcome \<Rightarrow> usize \<Rightarrow> usize \<Rightarrow> usize \<Rightarrow> usize \<Rightarrow> CapState \<Rightarrow> (unit result \<times> CapState) outcome" where
  "copy_cap relock src_cnode src_idx dst_cnode dst_idx s =
     obind (lock_resources relock False) (\<lambda>_.
       case copy_source s src_cnode src_idx of
         Inl e \<Rightarrow> Ret (Inl e, s)
       | Inr src_slot \<Rightarrow>
           obind (inc_ref relock True (resource_id src_slot) s) (\<lambda>s1.
             if dst_cnode \<ge> length (resources s1) then Ret (Inl ''dst cnode not found'', s1)
             else case resources s1 ! dst_cnode of
               None \<Rightarrow> Ret (Inl ''dst cnode freed'', s1)
             | Some dst_node \<Rightarrow>
                 Ret (Inr (),
                   case rdata dst_node of
                     RCNode ss \<Rightarrow>
                       set_res dst_cnode (Some (dst_node\<lparr>rdata := RCNode (put_slot dst_idx src_slot ss)\<rparr>)) s1
                   | _ \<Rightarrow> s1)))"

definition move_cap ::
  "unit outcome \<Rightarrow> usize \<Rightarrow> usize \<Rightarrow> usize \<Rightarrow> usize \<Rightarrow> CapState \<Rightarrow> (unit result \<times> CapState) outcome" where
  "move_cap relock src_cnode src_idx dst_cnode dst_idx s =
     obind (copy_cap relock src_cnode src_idx dst_cnode dst_idx s) (\<lambda>(r, s1).
       case r of
         Inl e \<Rightarrow> Ret (Inl e, s1)
       | Inr _ \<Rightarrow>
           (case res_at s1 src_cnode of
              None \<Rightarrow> Panic
            | Some src_node \<Rightarrow>
                (case rdata src_node of
                   RCNode ss \<Rightarrow>
                     (if src_idx < length ss then
                        Ret (Inr (), set_res src_cnode
                               (Some (src_node\<lparr>rdata := RCNode (ss[src_idx := null_slot])\<rparr>)) s1)
                      else Panic)
                 | _ \<Rightarrow> Ret (Inr (), s1))))"

text \<open>
  \<open>revoke\<close> recurses over the derivation tree; \<open>None\<close> is a call that is still running
  when the fuel is used up.
\<close>

fun revoke_children ::
  "(usize \<Rightarrow> CapState \<Rightarrow> CapState outcome option) \<Rightarrow> usize list \<Rightarrow> CapState \<Rightarrow> CapState outcome option" where
  "revoke_children f [] s = Some (Ret s)"
| "revoke_children f (child_id # cs) s =
     (case f child_id s of
        Some (Ret s1) \<Rightarrow> revoke_children f cs s1
      | r \<Rightarrow> r)"

primrec revoke :: "nat \<Rightarrow> usize \<Rightarrow> CapState \<Rightarrow> CapState outcome option" where
  "revoke 0 = (\<lambda>rid s. None)"
| "revoke (Suc n) = (\<lambda>rid s.
     if rid \<ge> length (resources s) then Some Panic
     else case resources s ! rid of
       None \<Rightarrow> Some (Ret s)
     | Some res \<Rightarrow>
         (case revoke_children (revoke n) (derivation_children res) s of
            Some (Ret s1) \<Rightarrow> Some (Ret (dec_ref rid s1))
          | r \<Rightarrow> r))"

definition delete_cap :: "usize \<Rightarrow> usize \<Rightarrow> CapState \<Rightarrow> unit result \<times> CapState" where
  "delete_cap cnode_id slot_idx s =
     (if cnode_id \<ge> length (resources s) then (Inl ''cnode not found'', s)
      else case resources s ! cnode_id of
        None \<Rightarrow> (Inl ''cnode freed'', s)
      | Some cnode \<Rightarrow>
          (case rdata cnode of
             RCNode ss \<Rightarrow>
               (if slot_idx < length ss then
                  (let rid = resource_id (ss ! slot_idx);
                       s1 = set_res cnode_id (Some (cnode\<lparr>rdata := RCNode (ss[slot_idx := null_slot])\<rparr>)) s
                   in (Inr (), dec_ref rid s1))
                else (Inl ''slot out of range'', s))
           | _ \<Rightarrow> (Inl ''not a cnode'', s)))"

subsection \<open>System calls\<close>

text \<open>
  The caller is the owner of the current thread (0 when there is none); of the process
  table only the pid and the id of the CNode matter here. \<open>cap_audit_log\<close> collects the
  calls of the audit hook.
\<close>

record CapSys =
  caps :: CapState
  proc_cnodes :: "(u32 \<times> usize) list"
  cap_audit_log :: "(u32 \<times> nat \<times> usize) list"

definition proc_cnode :: "CapSys \<Rightarrow> u32 \<Rightarrow> usize option" where
  "proc_cnode k pid = map_option snd (find (\<lambda>(p, _). p = pid) (proc_cnodes k))"

definition caller_cnode :: "u32 option \<Rightarrow> CapSys \<Rightarrow> usize result" where
  "caller_cnode cur k =
     (case proc_cnode k (case cur of None \<Rightarrow> 0 | Some pid \<Rightarrow> pid) of
        None \<Rightarrow> Inl ''no process'' | Some c \<Rightarrow> Inr c)"


definition append_slot :: "usize \<Rightarrow> Slot \<Rightarrow> CapState \<Rightarrow> usize result \<times> CapState" where
  "append_slot cnode sl s =
     (case get_resource s cnode of
        None \<Rightarrow> (Inl ''cnode gone'', s)
      | Some res \<Rightarrow>
          (case rdata res of
             RCNode ss \<Rightarrow>
               (Inr (length ss), set_res cnode (Some (res\<lparr>rdata := RCNode (ss @ [sl])\<rparr>)) s)
           | _ \<Rightarrow> (Inl ''mint: cnode resource invalid'', s)))"


definition sys_copy ::
  "unit outcome \<Rightarrow> u32 option \<Rightarrow> usize \<Rightarrow> u32 \<Rightarrow> usize \<Rightarrow> CapSys \<Rightarrow> (usize result \<times> CapSys) outcome" where
  "sys_copy relock cur src_idx dst_pid dst_idx k =
     (case caller_cnode cur k of
        Inl e \<Rightarrow> Ret (Inl e, k)
      | Inr src_cnode \<Rightarrow>
          (case proc_cnode k dst_pid of
             None \<Rightarrow> Ret (Inl ''dst process not found'', k)
           | Some dst_cnode \<Rightarrow>
               obind (copy_cap relock src_cnode src_idx dst_cnode dst_idx (caps k)) (\<lambda>(r, s1).
                 Ret (map_sum id (\<lambda>_. 0) r, k\<lparr>caps := s1\<rparr>))))"

definition sys_move ::
  "unit outcome \<Rightarrow> u32 option \<Rightarrow> usize \<Rightarrow> u32 \<Rightarrow> usize \<Rightarrow> CapSys \<Rightarrow> (usize result \<times> CapSys) outcome" where
  "sys_move relock cur src_idx dst_pid dst_idx k =
     (case caller_cnode cur k of
        Inl e \<Rightarrow> Ret (Inl e, k)
      | Inr src_cnode \<Rightarrow>
          (case proc_cnode k dst_pid of
             None \<Rightarrow> Ret (Inl ''dst process not found'', k)
           | Some dst_cnode \<Rightarrow>
               obind (move_cap relock src_cnode src_idx dst_cnode dst_idx (caps k)) (\<lambda>(r, s1).
                 Ret (map_sum id (\<lambda>_. 0) r, k\<lparr>caps := s1\<rparr>))))"

definition sys_delete :: "u32 option \<Rightarrow> usize \<Rightarrow> CapSys \<Rightarrow> usize result \<times> CapSys" where
  "sys_delete cur slot_idx k =
     (case caller_cnode cur k of
        Inl e \<Rightarrow> (Inl e, k)
      | Inr cnode \<Rightarrow>
          (let (r, s1) = delete_cap cnode slot_idx (caps k)
           in (map_sum id (\<lambda>_. 0) r, k\<lparr>caps := s1\<rparr>)))"

fun count_slot :: "Slot \<Rightarrow> usize \<times> usize \<times> usize \<Rightarrow> usize \<times> usize \<times> usize" where
  "count_slot sl (used, ep_count, mem_count) =
     (case cap_type sl of
        CapNull \<Rightarrow> (used, ep_count, mem_count)
      | CapEP \<Rightarrow> (used + 1, ep_count + 1, mem_count)
      | CapMem \<Rightarrow> (used + 1, ep_count, mem_count + 1)
      | _ \<Rightarrow> (used + 1, ep_count, mem_count))"

definition pack_stats :: "u64 \<Rightarrow> u64 \<Rightarrow> u64 \<Rightarrow> u64 \<Rightarrow> u64" where
  "pack_stats tot used ep_count mem_count =
     (tot AND 0xFFFF) OR push_bit 16 (used AND 0xFFFF) OR
     push_bit 32 (ep_count AND 0xFFFF) OR push_bit 48 (mem_count AND 0xFFFF)"

definition sys_cap_stats :: "u32 option \<Rightarrow> CapSys \<Rightarrow> u64 result" where
  "sys_cap_stats cur k =
     (case caller_cnode cur k of
        Inl e \<Rightarrow> Inl e
      | Inr cnode_id \<Rightarrow>
          (case get_resource (caps k) cnode_id of
             None \<Rightarrow> Inl ''no cnode''
           | Some res \<Rightarrow>
               (case rdata res of
                  RCNode ss \<Rightarrow>
                    (let (used, ep_count, mem_count) = fold count_slot ss (0, 0, 0)
                     in Inr (pack_stats (of_nat (length ss)) (of_nat used) (of_nat ep_count) (of_nat mem_count)))
                | _ \<Rightarrow> Inl ''not a cnode'')))"

section \<open>Invariant and step relation\<close>

text \<open>
  Ids below \<open>next_resource_id\<close> index the table, and the children of a resource were
  allocated after it; \<open>refs_ok\<close>: the reference counts of live resources are in range.
\<close>

definition cap_ok :: "CapState \<Rightarrow> bool" where
  "cap_ok s \<longleftrightarrow>
     0 < next_resource_id s \<and> length (resources s) = next_resource_id s \<and>
     (\<forall>rid r. res_at s rid = Some r \<longrightarrow>
        (\<forall>c \<in> set (derivation_children r). rid < c \<and> c < next_resource_id s))"

definition refs_ok :: "CapState \<Rightarrow> bool" where
  "refs_ok s \<longleftrightarrow> (\<forall>rid r. res_at s rid = Some r \<longrightarrow> 0 < ref_count r \<and> ref_count r < 2 ^ 64)"

inductive cap_step :: "unit outcome \<Rightarrow> CapState \<Rightarrow> CapState \<Rightarrow> bool" for relock where
  step_alloc: "alloc_resource relock False t d s = Ret (rid, s') \<Longrightarrow> cap_step relock s s'"
| step_dec: "cap_step relock s (dec_ref rid s)"
| step_inc: "inc_ref relock False rid s = Ret s' \<Longrightarrow> cap_step relock s s'"
| step_mint: "mint relock c i rs s = Ret (sl, s') \<Longrightarrow> cap_step relock s s'"
| step_append: "append_slot c sl s = (r, s') \<Longrightarrow> cap_step relock s s'"
| step_copy: "copy_cap relock c i c' i' s = Ret (r, s') \<Longrightarrow> cap_step relock s s'"
| step_move: "move_cap relock c i c' i' s = Ret (r, s') \<Longrightarrow> cap_step relock s s'"
| step_revoke: "revoke n rid s = Some (Ret s') \<Longrightarrow> cap_step relock s s'"
| step_delete: "delete_cap c i s = (r, s') \<Longrightarrow> cap_step relock s s'"

text \<open>The resources derived from \<open>rid\<close>, itself included, over live resources.\<close>

inductive_set derived :: "CapState \<Rightarrow> usize \<Rightarrow> usize set" for s rid where
  derived_self: "res_at s rid \<noteq> None \<Longrightarrow> rid \<in> derived s rid"
| derived_child: "d \<in> derived s rid \<Longrightarrow> res_at s d = Some r \<Longrightarrow> c \<in> set (derivation_children r) \<Longrightarrow>
    res_at s c \<noteq> None \<Longrightarrow> c \<in> derived s rid"

definition refs :: "CapState \<Rightarrow> usize \<Rightarrow> usize" where
  "refs s rid = (case res_at s rid of None \<Rightarrow> 0 | Some r \<Rightarrow> ref_count r)"

text \<open>
  The recorded derivations form a forest: a resource stands in the list of children of
  one resource at most, and once.
\<close>

definition kids :: "CapState \<Rightarrow> usize \<Rightarrow> usize list" where
  "kids s rid = (case res_at s rid of None \<Rightarrow> [] | Some r \<Rightarrow> derivation_children r)"

definition tree_ok :: "CapState \<Rightarrow> bool" where
  "tree_ok s \<longleftrightarrow> (\<forall>d. distinct (kids s d)) \<and>
     (\<forall>d e c. c \<in> set (kids s d) \<longrightarrow> c \<in> set (kids s e) \<longrightarrow> d = e)"

definition evolves :: "CapState \<Rightarrow> CapState \<Rightarrow> bool" where
  "evolves s s' \<longleftrightarrow> (cap_ok s \<longrightarrow> cap_ok s' \<and> next_resource_id s \<le> next_resource_id s' \<and>
     (\<forall>rid < next_resource_id s. res_at s rid = None \<longrightarrow> res_at s' rid = None))"

text \<open>
  One reference given up: the last one frees the resource, any other leaves it with a
  count lower by one. \<open>revoked\<close>: exactly the resources of \<open>D\<close> gave up one reference.
\<close>

definition drop_one :: "Resource option \<Rightarrow> Resource option" where
  "drop_one x = (case x of
     None \<Rightarrow> None
   | Some r \<Rightarrow> (if ref_count r = 1 then None else Some (r\<lparr>ref_count := ref_count r - 1\<rparr>)))"

definition revoked :: "CapState \<Rightarrow> usize set \<Rightarrow> CapState \<Rightarrow> bool" where
  "revoked s D s' \<longleftrightarrow>
     length (resources s') = length (resources s) \<and> next_resource_id s' = next_resource_id s \<and>
     (\<forall>d. res_at s' d = (if d \<in> D then drop_one (res_at s d) else res_at s d))"

section \<open>Lemmas\<close>

subsection \<open>Ids are never reused\<close>

lemma evolves_refl [simp]: "evolves s s"
  by (simp add: evolves_def)

lemma evolves_trans: "evolves s t \<Longrightarrow> evolves t u \<Longrightarrow> evolves s u"
  unfolding evolves_def by (meson less_le_trans le_trans)

lemma set_res_fields [simp]:
  "length (resources (set_res rid r s)) = length (resources s)"
  "next_resource_id (set_res rid r s) = next_resource_id s"
  by (simp_all add: set_res_def)

lemma res_at_set_res: "res_at (set_res rid r s) d = (if d = rid \<and> d < length (resources s) then r else res_at s d)"
  by (simp add: res_at_def set_res_def)

lemma res_at_SomeD: "res_at s rid = Some r \<Longrightarrow> rid < length (resources s) \<and> resources s ! rid = Some r"
  by (simp add: res_at_def split: if_splits)

lemma res_atI: "rid < length (resources s) \<Longrightarrow> resources s ! rid = r \<Longrightarrow> res_at s rid = r"
  by (simp add: res_at_def)

lemma set_res_evolves:
  assumes "res_at s rid = Some r"
    and "\<And>r'. new = Some r' \<Longrightarrow> set (derivation_children r') \<subseteq>
      set (derivation_children r) \<union> {c. rid < c \<and> c < next_resource_id s}"
  shows "evolves s (set_res rid new s)"
proof -
  have c: "\<forall>c \<in> set (derivation_children r'). d < c \<and> c < next_resource_id s"
    if "cap_ok s" "res_at (set_res rid new s) d = Some r'" for d r'
    using that assms by (cases "d = rid") (auto simp: cap_ok_def res_at_set_res split: if_splits)
  have "cap_ok (set_res rid new s)" if "cap_ok s"
    using c [OF that] that unfolding cap_ok_def set_res_fields by blast
  with assms(1) show ?thesis by (simp add: evolves_def res_at_set_res)
qed

lemma dec_ref_evolves: "evolves s (dec_ref rid s)"
  by (auto simp: dec_ref_def Let_def split: option.splits intro!: set_res_evolves)

lemma lock_Ret: "obind (lock_resources relock held) f = Ret x \<longleftrightarrow> (held \<longrightarrow> relock = Ret ()) \<and> f () = Ret x"
  by (auto simp: lock_resources_def)

lemma inc_ref_evolves: "inc_ref relock held rid s = Ret s' \<Longrightarrow> evolves s s'"
  by (auto simp: inc_ref_def lock_Ret split: option.splits if_splits intro!: set_res_evolves res_atI)

lemma alloc_resource_spec:
  assumes "alloc_resource relock held t d s = Ret (rid, s')" and "cap_ok s"
  shows "rid = next_resource_id s" and "next_resource_id s' = Suc rid" and "res_at s' rid =
      Some \<lparr>ref_count = 1, res_type = t, derivation_parent = None, derivation_children = [], rdata = d\<rparr>"
    and "\<And>o'. o' \<noteq> rid \<Longrightarrow> res_at s' o' = res_at s o'" and "length (resources s') = Suc rid"
proof -
  have "length (resources s) = next_resource_id s" using assms(2) by (simp add: cap_ok_def)
  with assms(1) show "rid = next_resource_id s" and "next_resource_id s' = Suc rid" and "res_at s' rid =
      Some \<lparr>ref_count = 1, res_type = t, derivation_parent = None, derivation_children = [], rdata = d\<rparr>"
    and "length (resources s') = Suc rid"
    by (auto simp: alloc_resource_def Let_def res_at_def)
  show "res_at s' o' = res_at s o'" if "o' \<noteq> rid" for o'
    using that assms(1) \<open>length (resources s) = next_resource_id s\<close>
    by (auto simp: alloc_resource_def Let_def res_at_def nth_append nth_list_update)
qed

lemma alloc_resource_evolves:
  assumes a: "alloc_resource relock held t d s = Ret (rid, s')"
  shows "evolves s s'"
proof -
  have "cap_ok s'" if ok: "cap_ok s"
    unfolding cap_ok_def
  proof (intro conjI allI impI)
    fix d' r assume r: "res_at s' d' = Some r"
    show "\<forall>c \<in> set (derivation_children r). d' < c \<and> c < next_resource_id s'"
      using r ok alloc_resource_spec [OF a ok]
      by (cases "d' = rid") (auto simp: cap_ok_def less_Suc_eq)
  qed (use alloc_resource_spec [OF a ok] in auto)
  moreover have "res_at s' d' = res_at s d'" if "cap_ok s" "d' < next_resource_id s" for d'
    using alloc_resource_spec(1,4) [OF a that(1)] that(2) by auto
  ultimately show ?thesis
    using alloc_resource_spec(1,2) [OF a] by (auto simp: evolves_def)
qed

lemma duplicate_evolves:
  "duplicate_resource_data_inner relock held rid s = Ret (d, s') \<Longrightarrow> evolves s s'"
  by (auto simp: duplicate_resource_data_inner_def lock_Ret split: option.splits dest: inc_ref_evolves)

lemma inc_ref_res_at:
  "inc_ref relock held rid s = Ret s' \<Longrightarrow> res_at s' d = None \<longleftrightarrow> res_at s d = None"
  by (auto simp: inc_ref_def set_res_def res_at_def nth_list_update split: option.splits if_splits)

lemma duplicate_source:
  "duplicate_resource_data_inner relock held rid s = Ret (Some d, s') \<Longrightarrow> res_at s' rid \<noteq> None"
  by (auto simp: duplicate_resource_data_inner_def split: option.splits dest!: inc_ref_res_at [where d = rid])

lemma record_derivation_evolves:
  assumes "record_derivation src child s = Ret s'" and "src < child" and "child < next_resource_id s"
  shows "evolves s s'"
proof -
  have len: "src < length (resources s)" "child < length (resources s)"
    and s': "s' = set_parent child src (add_child src child s)"
    using assms(1) by (auto simp: record_derivation_def split: if_splits)
  have "evolves s (add_child src child s)"
    using len(1) assms(2,3) by (auto simp: add_child_def split: option.splits intro!: set_res_evolves res_atI)
  moreover have "length (resources (add_child src child s)) = length (resources s)"
    by (simp add: add_child_def split: option.splits)
  then have "evolves (add_child src child s) s'"
    using len(2) unfolding s' set_parent_def by (auto split: option.splits intro!: set_res_evolves res_atI)
  ultimately show ?thesis by (rule evolves_trans)
qed

lemma mint_evolves:
  assumes "mint relock c i rs s = Ret (sl, s')"
  shows "evolves s s'"
proof (cases "mint_source s c i rs")
  case None
  with assms show ?thesis by (simp add: mint_def lock_Ret)
next
  case (Some src)
  with assms obtain d s1 where d: "duplicate_resource_data_inner relock True (resource_id src) s = Ret (d, s1)"
    and rest: "(case d of
               None \<Rightarrow> Ret (None, s1)
             | Some d \<Rightarrow>
                 obind (alloc_resource relock True (cap_type src) d s1) (\<lambda>(child_id, s2).
                 obind (record_derivation (resource_id src) child_id s2) (\<lambda>s3.
                 Ret (Some \<lparr>cap_type = cap_type src, slot_rights = rs, resource_id = child_id\<rparr>, s3)))) = Ret (sl, s')"
    by (auto simp: mint_def lock_Ret)
  note e1 = duplicate_evolves [OF d]
  show ?thesis
  proof (cases d)
    case None
    with rest e1 show ?thesis by simp
  next
    case (Some d')
    with rest obtain child s2 where a: "alloc_resource relock True (cap_type src) d' s1 = Ret (child, s2)"
      and r: "record_derivation (resource_id src) child s2 = Ret s'" by auto
    have src: "res_at s1 (resource_id src) \<noteq> None" using duplicate_source d Some by blast
    have "evolves s2 s'" if ok: "cap_ok s1"
    proof (rule record_derivation_evolves [OF r])
      show "resource_id src < child"
        using src ok alloc_resource_spec(1) [OF a ok] by (auto simp: cap_ok_def dest!: res_at_SomeD)
    qed (use alloc_resource_spec [OF a ok] in simp)
    then have e3: "cap_ok s1 \<Longrightarrow> evolves s2 s'" .
    show ?thesis
    proof (cases "cap_ok s")
      case True
      with e1 have "cap_ok s1" by (simp add: evolves_def)
      from evolves_trans [OF evolves_trans [OF e1 alloc_resource_evolves [OF a]] e3 [OF this]] show ?thesis .
    next
      case False
      then show ?thesis by (simp add: evolves_def)
    qed
  qed
qed


lemma append_slot_evolves: "append_slot c sl s = (r, s') \<Longrightarrow> evolves s s'"
  by (auto simp: append_slot_def get_resource_def split: option.splits if_splits ResourceData.splits
      intro!: set_res_evolves res_atI)

lemma copy_cap_evolves:
  assumes "copy_cap relock c i c' i' s = Ret (r, s')"
  shows "evolves s s'"
proof (cases "copy_source s c i")
  case (Inl e)
  with assms show ?thesis by (simp add: copy_cap_def)
next
  case (Inr src)
  with assms obtain s1 where s1: "inc_ref relock True (resource_id src) s = Ret s1"
    and rest: "(if c' \<ge> length (resources s1) then Ret (Inl ''dst cnode not found'', s1)
             else case resources s1 ! c' of
               None \<Rightarrow> Ret (Inl ''dst cnode freed'', s1)
             | Some dst_node \<Rightarrow>
                 Ret (Inr (),
                   case rdata dst_node of
                     RCNode ss \<Rightarrow> set_res c' (Some (dst_node\<lparr>rdata := RCNode (put_slot i' src ss)\<rparr>)) s1
                   | _ \<Rightarrow> s1)) = Ret (r, s')"
    by (auto simp: copy_cap_def)
  from rest have "evolves s1 s'"
    by (auto split: option.splits if_splits ResourceData.splits intro!: set_res_evolves res_atI)
  with inc_ref_evolves [OF s1] show ?thesis by (rule evolves_trans)
qed

lemma move_cap_evolves:
  assumes "move_cap relock c i c' i' s = Ret (r, s')"
  shows "evolves s s'"
proof -
  from assms obtain r1 s1 where c: "copy_cap relock c i c' i' s = Ret (r1, s1)"
    by (auto simp: move_cap_def)
  from assms c have "evolves s1 s'"
    by (auto simp: move_cap_def split: sum.splits option.splits if_splits ResourceData.splits
        intro!: set_res_evolves)
  with copy_cap_evolves [OF c] show ?thesis by (rule evolves_trans)
qed

lemma revoke_children_evolves:
  "(\<And>c s s'. f c s = Some (Ret s') \<Longrightarrow> evolves s s') \<Longrightarrow>
   revoke_children f cs s = Some (Ret s') \<Longrightarrow> evolves s s'"
proof (induction cs arbitrary: s)
  case Nil
  then show ?case by simp
next
  case (Cons c cs)
  then obtain s1 where "f c s = Some (Ret s1)" "revoke_children f cs s1 = Some (Ret s')"
    by (auto split: option.splits outcome.splits)
  with Cons show ?case by (meson evolves_trans)
qed

lemma revoke_evolves: "revoke n rid s = Some (Ret s') \<Longrightarrow> evolves s s'"
proof (induction n arbitrary: rid s s')
  case 0
  then show ?case by simp
next
  case (Suc n)
  show ?case
  proof (cases "rid < length (resources s) \<and> resources s ! rid \<noteq> None")
    case False
    with Suc.prems show ?thesis by (auto split: if_splits)
  next
    case True
    then obtain r where r: "rid < length (resources s)" "resources s ! rid = Some r" by blast
    with Suc.prems obtain s1 where s1: "revoke_children (revoke n) (derivation_children r) s = Some (Ret s1)"
      and s': "s' = dec_ref rid s1" by (auto split: option.splits outcome.splits)
    have "evolves s s1" by (rule revoke_children_evolves [OF Suc.IH s1])
    then show ?thesis unfolding s' using dec_ref_evolves by (rule evolves_trans)
  qed
qed

lemma delete_cap_evolves:
  assumes "delete_cap c i s = (r, s')"
  shows "evolves s s'"
proof -
  have "evolves s (dec_ref k (set_res c (Some (cn\<lparr>rdata := d\<rparr>)) s))"
    if "c < length (resources s)" "resources s ! c = Some cn" for k d cn
    using that by (intro evolves_trans [OF _ dec_ref_evolves] set_res_evolves [OF res_atI]) auto
  with assms show ?thesis
    by (auto simp: delete_cap_def Let_def split: option.splits if_splits ResourceData.splits)
qed

lemma cap_step_evolves: "cap_step relock s s' \<Longrightarrow> evolves s s'"
  by (induction rule: cap_step.induct)
    (auto intro: alloc_resource_evolves dec_ref_evolves inc_ref_evolves mint_evolves
      append_slot_evolves copy_cap_evolves move_cap_evolves revoke_evolves delete_cap_evolves)

lemma cap_steps_evolves: "(cap_step relock)\<^sup>*\<^sup>* s s' \<Longrightarrow> evolves s s'"
  by (induction rule: rtranclp_induct) (auto intro: evolves_trans cap_step_evolves)

subsection \<open>Derivations form a forest\<close>

definition kids_le :: "CapState \<Rightarrow> CapState \<Rightarrow> bool" where
  "kids_le s s' \<longleftrightarrow> (\<forall>d. kids s' d = [] \<or> kids s' d = kids s d)"

lemma kids_le_refl [simp]: "kids_le s s"
  by (simp add: kids_le_def)

lemma kids_le_trans: "kids_le s t \<Longrightarrow> kids_le t u \<Longrightarrow> kids_le s u"
  unfolding kids_le_def by metis

lemma kids_le_tree: "kids_le s s' \<Longrightarrow> tree_ok s \<Longrightarrow> tree_ok s'"
  unfolding kids_le_def tree_ok_def by (metis distinct.simps(1) empty_iff empty_set)

lemma kids_bound: "cap_ok s \<Longrightarrow> c \<in> set (kids s d) \<Longrightarrow> d < c \<and> c < next_resource_id s"
  by (cases "res_at s d") (auto simp: kids_def cap_ok_def)

lemma set_res_kids:
  assumes "res_at s rid = Some r"
    and "\<And>r'. new = Some r' \<Longrightarrow> derivation_children r' = derivation_children r"
  shows "kids_le s (set_res rid new s)"
  using assms by (auto simp: kids_le_def kids_def res_at_set_res split: option.splits)

lemma dec_ref_kids: "kids_le s (dec_ref rid s)"
  by (auto simp: dec_ref_def Let_def split: option.splits intro!: set_res_kids)

lemma inc_ref_kids: "inc_ref relock held rid s = Ret s' \<Longrightarrow> kids_le s s'"
  by (auto simp: inc_ref_def lock_Ret split: option.splits if_splits intro!: set_res_kids res_atI)

lemma append_slot_kids: "append_slot c sl s = (r, s') \<Longrightarrow> kids_le s s'"
  by (auto simp: append_slot_def get_resource_def split: option.splits if_splits ResourceData.splits
      intro!: set_res_kids res_atI)

lemma alloc_resource_kids:
  assumes "alloc_resource relock held t d s = Ret (rid, s')" and "cap_ok s"
  shows "kids_le s s'"
  unfolding kids_le_def
proof
  fix o' show "kids s' o' = [] \<or> kids s' o' = kids s o'"
    using alloc_resource_spec(3,4) [OF assms] by (cases "o' = rid") (auto simp: kids_def)
qed

lemma copy_cap_kids:
  assumes "copy_cap relock c i c' i' s = Ret (r, s')"
  shows "kids_le s s'"
proof (cases "copy_source s c i")
  case (Inl e)
  with assms show ?thesis by (simp add: copy_cap_def)
next
  case (Inr src)
  with assms obtain s1 where s1: "inc_ref relock True (resource_id src) s = Ret s1"
    by (auto simp: copy_cap_def)
  with assms Inr have "kids_le s1 s'"
    by (auto simp: copy_cap_def split: option.splits if_splits ResourceData.splits intro!: set_res_kids res_atI)
  with inc_ref_kids [OF s1] show ?thesis by (rule kids_le_trans)
qed

lemma move_cap_kids:
  assumes "move_cap relock c i c' i' s = Ret (r, s')"
  shows "kids_le s s'"
proof -
  from assms obtain r1 s1 where c: "copy_cap relock c i c' i' s = Ret (r1, s1)"
    by (auto simp: move_cap_def)
  from assms c have "kids_le s1 s'"
    by (auto simp: move_cap_def split: sum.splits option.splits if_splits ResourceData.splits
        intro!: set_res_kids)
  with copy_cap_kids [OF c] show ?thesis by (rule kids_le_trans)
qed

lemma delete_cap_kids:
  assumes "delete_cap c i s = (r, s')"
  shows "kids_le s s'"
proof -
  have "kids_le s (dec_ref k (set_res c (Some (cn\<lparr>rdata := d\<rparr>)) s))"
    if "c < length (resources s)" "resources s ! c = Some cn" for k d cn
    using that by (intro kids_le_trans [OF _ dec_ref_kids] set_res_kids [OF res_atI]) auto
  with assms show ?thesis
    by (auto simp: delete_cap_def Let_def split: option.splits if_splits ResourceData.splits)
qed

lemma revoke_children_kids:
  "(\<And>c s s'. f c s = Some (Ret s') \<Longrightarrow> kids_le s s') \<Longrightarrow>
   revoke_children f cs s = Some (Ret s') \<Longrightarrow> kids_le s s'"
  by (induction cs arbitrary: s) (force split: option.splits outcome.splits intro: kids_le_trans)+

lemma revoke_kids: "revoke n rid s = Some (Ret s') \<Longrightarrow> kids_le s s'"
proof (induction n arbitrary: rid s s')
  case (Suc n)
  then show ?case
    by (auto split: option.splits outcome.splits if_splits
        intro!: kids_le_trans [OF revoke_children_kids [OF Suc.IH] dec_ref_kids])
qed simp

text \<open>\<open>mint\<close> adds one child, with an id that was not in use.\<close>

lemma add_kid_tree:
  assumes "tree_ok s" and "\<And>d. c \<notin> set (kids s d)"
    and "\<And>d. kids s' d = (if d = src then kids s src @ [c] else kids s d)"
  shows "tree_ok s'"
  using assms unfolding tree_ok_def by (auto split: if_splits)

lemma record_derivation_kids:
  assumes "record_derivation src child s = Ret s'" and "res_at s src \<noteq> None"
  shows "kids s' d = (if d = src then kids s src @ [child] else kids s d)"
proof -
  obtain r where r: "res_at s src = Some r" "src < length (resources s)" "resources s ! src = Some r"
    using assms(2) res_at_SomeD by blast
  let ?t = "add_child src child s"
  have t: "kids ?t d = (if d = src then kids s src @ [child] else kids s d)" for d
    using r by (auto simp: add_child_def kids_def res_at_set_res)
  have len: "child < length (resources ?t)" "s' = set_parent child src ?t"
    using assms(1) by (auto simp: record_derivation_def add_child_def split: if_splits option.splits)
  have "kids s' d = kids ?t d" for d
    using len by (auto simp: set_parent_def kids_def set_res_def res_at_def nth_list_update split: option.splits)
  with t show ?thesis by simp
qed

lemma mint_tree:
  assumes "mint relock c i rs s = Ret (sl, s')" and "cap_ok s" and "tree_ok s"
  shows "tree_ok s'"
proof (cases "mint_source s c i rs")
  case None
  with assms show ?thesis by (simp add: mint_def lock_Ret)
next
  case (Some src)
  with assms obtain d s1 where d: "duplicate_resource_data_inner relock True (resource_id src) s = Ret (d, s1)"
    by (auto simp: mint_def lock_Ret)
  have ok1: "cap_ok s1" using duplicate_evolves [OF d] assms(2) by (simp add: evolves_def)
  have "kids_le s s1"
    using d by (auto simp: duplicate_resource_data_inner_def lock_Ret split: option.splits dest: inc_ref_kids)
  then have tr1: "tree_ok s1" using assms(3) by (rule kids_le_tree)
  show ?thesis
  proof (cases d)
    case None
    with assms(1) Some d tr1 show ?thesis by (simp add: mint_def lock_Ret)
  next
    case (Some d')
    with assms(1) \<open>mint_source s c i rs = Some src\<close> d obtain child s2 where
      a: "alloc_resource relock True (cap_type src) d' s1 = Ret (child, s2)"
      and r: "record_derivation (resource_id src) child s2 = Ret s'" by (auto simp: mint_def lock_Ret)
    have src: "res_at s1 (resource_id src) \<noteq> None" using duplicate_source d Some by blast
    then have "res_at s2 (resource_id src) \<noteq> None"
      using alloc_resource_spec(3,4) [OF a ok1] by (metis option.distinct(1))
    moreover have "child \<notin> set (kids s2 o')" for o'
      using alloc_resource_kids [OF a ok1] kids_bound [OF ok1, of child o'] alloc_resource_spec(1) [OF a ok1]
      unfolding kids_le_def by (metis empty_iff empty_set less_irrefl)
    ultimately show ?thesis
      using add_kid_tree [OF kids_le_tree [OF alloc_resource_kids [OF a ok1] tr1]] record_derivation_kids [OF r]
      by blast
  qed
qed

lemma cap_step_tree: "cap_step relock s s' \<Longrightarrow> cap_ok s \<Longrightarrow> tree_ok s \<Longrightarrow> tree_ok s'"
  by (induction rule: cap_step.induct)
    (auto elim: mint_tree intro: kids_le_tree [OF alloc_resource_kids] kids_le_tree [OF dec_ref_kids]
      kids_le_tree [OF inc_ref_kids] kids_le_tree [OF append_slot_kids] kids_le_tree [OF copy_cap_kids]
      kids_le_tree [OF move_cap_kids] kids_le_tree [OF revoke_kids] kids_le_tree [OF delete_cap_kids])

lemma cap_steps_tree: "(cap_step relock)\<^sup>*\<^sup>* s s' \<Longrightarrow> cap_ok s \<Longrightarrow> tree_ok s \<Longrightarrow> cap_ok s' \<and> tree_ok s'"
proof (induction rule: rtranclp_induct)
  case (step t u)
  with cap_step_tree [OF step(2)] cap_step_evolves [OF step(2)] show ?case by (simp add: evolves_def)
qed simp

lemma cap_init_ok: "cap_ok cap_init" "tree_ok cap_init"
  by (auto simp: cap_ok_def tree_ok_def kids_def res_at_def cap_init_def split: option.splits)

subsection \<open>Revocation\<close>

lemma derived_live: "d \<in> derived s rid \<Longrightarrow> res_at s d \<noteq> None"
  by (erule derived.cases) auto

lemma derived_trans: "d \<in> derived s c \<Longrightarrow> c \<in> derived s rid \<Longrightarrow> d \<in> derived s rid"
  by (induction rule: derived.induct) (auto intro: derived.intros)

lemma derived_ge: "cap_ok s \<Longrightarrow> d \<in> derived s rid \<Longrightarrow> rid \<le> d"
  by (erule derived.induct) (auto simp: cap_ok_def, meson le_trans less_imp_le)

lemma derived_unfold:
  assumes "res_at s rid = Some r"
  shows "derived s rid = insert rid (\<Union>c \<in> set (derivation_children r). derived s c)"
proof
  show "derived s rid \<subseteq> insert rid (\<Union>c \<in> set (derivation_children r). derived s c)"
  proof
    fix d assume "d \<in> derived s rid"
    then show "d \<in> insert rid (\<Union>c \<in> set (derivation_children r). derived s c)"
    proof (induction rule: derived.induct)
      case (derived_child d r' c)
      then show ?case
        using assms by (cases "d = rid") (auto intro: derived.intros)
    qed simp
  qed
  have "derived s c \<subseteq> derived s rid" if "c \<in> set (derivation_children r)" for c
  proof
    fix d assume d: "d \<in> derived s c"
    then have "res_at s c \<noteq> None" by (induction rule: derived.induct) auto
    with assms that have "c \<in> derived s rid" by (metis derived.intros option.distinct(1))
    with d show "d \<in> derived s rid" by (rule derived_trans)
  qed
  then show "insert rid (\<Union>c \<in> set (derivation_children r). derived s c) \<subseteq> derived s rid"
    using assms by (auto intro: derived_self)
qed

lemma derived_dead: "res_at s rid = None \<Longrightarrow> derived s rid = {}"
proof -
  have "res_at s rid \<noteq> None" if "d \<in> derived s rid" for d
    using that by (induction rule: derived.induct) auto
  then show "res_at s rid = None \<Longrightarrow> derived s rid = {}" by blast
qed

lemma derived_parent:
  assumes "d \<in> derived s rid" and "d \<noteq> rid"
  shows "\<exists>p. p \<in> derived s rid \<and> d \<in> set (kids s p)"
  using assms by (cases rule: derived.cases) (auto simp: kids_def)

text \<open>Two subtrees of a forest that meet are nested, so those of two siblings are apart.\<close>

lemma derived_nested:
  assumes "tree_ok s" and "d \<in> derived s a" and "d \<in> derived s b"
  shows "a \<in> derived s b \<or> b \<in> derived s a"
  using assms(2,3)
proof (induction rule: derived.induct)
  case (derived_child d r c)
  then have "c \<in> derived s a" by (metis derived.derived_child)
  show ?case
  proof (cases "c = b")
    case True
    with \<open>c \<in> derived s a\<close> show ?thesis by simp
  next
    case False
    with derived_child.prems obtain p where p: "p \<in> derived s b" "c \<in> set (kids s p)"
      using derived_parent by blast
    moreover have "c \<in> set (kids s d)" using derived_child.hyps by (simp add: kids_def)
    ultimately have "p = d" using assms(1) unfolding tree_ok_def by blast
    with p(1) derived_child.IH show ?thesis by simp
  qed
qed simp

lemma siblings_apart:
  assumes "cap_ok s" and "tree_ok s" and "a \<in> set (kids s p)" and "b \<in> set (kids s p)" and "a \<noteq> b"
  shows "derived s a \<inter> derived s b = {}"
proof -
  have no: False if "x \<in> derived s y" "x \<in> set (kids s p)" "y \<in> set (kids s p)" "x \<noteq> y" for x y
  proof -
    from derived_parent [OF that(1,4)] obtain q where q: "q \<in> derived s y" "x \<in> set (kids s q)" by blast
    with that(2) assms(2) have "q = p" unfolding tree_ok_def by blast
    with q(1) derived_ge [OF assms(1)] kids_bound [OF assms(1) that(3)] show False by fastforce
  qed
  with derived_nested [OF assms(2)] assms(3-5) show ?thesis by blast
qed

text \<open>A subtree away from the revoked set is as it was.\<close>

lemma derived_outside:
  assumes "revoked s D s'" and "derived s c \<inter> D = {}"
  shows "derived s' c = derived s c"
proof -
  have same: "res_at s' d = res_at s d" if "d \<in> derived s c" for d
    using assms that unfolding revoked_def by auto
  have le: "res_at s d = None \<Longrightarrow> res_at s' d = None" for d
    using assms(1) by (auto simp: revoked_def drop_one_def)
  have "d \<in> derived s c" if "d \<in> derived s' c" for d
    using that
  proof (induction rule: derived.induct)
    case derived_self
    with le show ?case by (meson derived.derived_self)
  next
    case (derived_child d r e)
    with same le show ?case by (metis derived.derived_child)
  qed
  moreover have "d \<in> derived s' c" if "d \<in> derived s c" for d
    using that
  proof (induction rule: derived.induct)
    case derived_self
    with same show ?case by (metis derived.derived_self)
  next
    case (derived_child d r e)
    then have "e \<in> derived s c" by (metis derived.derived_child)
    with derived_child same show ?case by (metis derived.derived_child)
  qed
  ultimately show ?thesis by blast
qed

lemma revoked_kids: "revoked s D s' \<Longrightarrow> kids_le s s'"
  by (auto simp: revoked_def kids_le_def kids_def drop_one_def split: option.splits)

lemma revoked_ok:
  assumes "revoked s D s'"
  shows "cap_ok s \<Longrightarrow> cap_ok s'" and "refs_ok s \<Longrightarrow> refs_ok s'" and "tree_ok s \<Longrightarrow> tree_ok s'"
proof -
  have r: "\<exists>r0. res_at s d = Some r0 \<and> derivation_children r = derivation_children r0 \<and>
      (0 < ref_count r0 \<longrightarrow> 0 < ref_count r) \<and> ref_count r \<le> ref_count r0"
    if "res_at s' d = Some r" for d r
    using assms that by (auto simp: revoked_def drop_one_def split: if_splits option.splits)
  show "cap_ok s'" if "cap_ok s"
    using that assms r unfolding cap_ok_def revoked_def by metis
  show "refs_ok s'" if "refs_ok s"
    using that r unfolding refs_ok_def by (meson le_less_trans)
  show "tree_ok s'" if "tree_ok s"
    using kids_le_tree [OF revoked_kids [OF assms] that] .
qed

lemma revoked_Un:
  assumes "revoked s D s1" and "revoked s1 E s2" and "D \<inter> E = {}"
  shows "revoked s (D \<union> E) s2"
  using assms unfolding revoked_def by (simp, auto split: if_splits)

lemma revoke_children_revoked:
  assumes f: "\<And>s c. cap_ok s \<Longrightarrow> refs_ok s \<Longrightarrow> tree_ok s \<Longrightarrow> c \<in> set cs \<Longrightarrow> next_resource_id s = nx \<Longrightarrow>
      \<exists>s'. f c s = Some (Ret s') \<and> revoked s (derived s c) s'"
    and "cap_ok s" and "refs_ok s" and "tree_ok s" and "next_resource_id s = nx" and "distinct cs"
    and "\<And>a b. a \<in> set cs \<Longrightarrow> b \<in> set cs \<Longrightarrow> a \<noteq> b \<Longrightarrow> derived s a \<inter> derived s b = {}"
  shows "\<exists>s'. revoke_children f cs s = Some (Ret s') \<and> revoked s (\<Union>c \<in> set cs. derived s c) s'"
  using assms
proof (induction cs arbitrary: s)
  case Nil
  then show ?case by (auto simp: revoked_def)
next
  case (Cons c cs)
  from Cons.prems obtain s1 where s1: "f c s = Some (Ret s1)" "revoked s (derived s c) s1" by force
  have apart: "derived s e \<inter> derived s c = {}" if "e \<in> set cs" for e
    using Cons.prems(6,7) that by (metis distinct.simps(2) list.set_intros)
  have same: "derived s1 e = derived s e" if "e \<in> set cs" for e
    using derived_outside [OF s1(2) apart [OF that]] .
  have "\<exists>s'. revoke_children f cs s1 = Some (Ret s') \<and> revoked s1 (\<Union>c \<in> set cs. derived s1 c) s'"
    by (rule Cons.IH) (use Cons.prems revoked_ok [OF s1(2)] s1(2) same in \<open>auto simp: revoked_def\<close>)
  then obtain s' where s': "revoke_children f cs s1 = Some (Ret s')"
    "revoked s1 (\<Union>c \<in> set cs. derived s1 c) s'" by blast
  have "(\<Union>c \<in> set cs. derived s1 c) = (\<Union>c \<in> set cs. derived s c)" using same by simp
  with revoked_Un [OF s1(2) s'(2)] apart have "revoked s (derived s c \<union> (\<Union>c \<in> set cs. derived s c)) s'"
    by (metis (no_types, lifting) Int_UN_distrib Int_commute SUP_bot_conv(2))
  with s1(1) s'(1) show ?case by simp
qed

lemma dec_ref_revoked:
  assumes "refs_ok s" and "res_at s rid = Some r"
  shows "revoked s {rid} (dec_ref rid s)"
proof -
  have r: "0 < ref_count r" "usize_sub (ref_count r) 1 = ref_count r - 1"
    using assms usize_sub_small [of 1 "ref_count r"] by (auto simp: refs_ok_def Suc_le_eq)
  have "rid < length (resources s)" using res_at_SomeD [OF assms(2)] by simp
  with assms(2) r show ?thesis
    by (auto simp: revoked_def dec_ref_def drop_one_def Let_def res_at_set_res)
qed

lemma revoke_revoked:
  "cap_ok s \<Longrightarrow> refs_ok s \<Longrightarrow> tree_ok s \<Longrightarrow> rid < next_resource_id s \<Longrightarrow> next_resource_id s - rid \<le> n \<Longrightarrow>
   \<exists>s'. revoke n rid s = Some (Ret s') \<and> revoked s (derived s rid) s'"
proof (induction n arbitrary: rid s)
  case 0
  then show ?case by simp
next
  case (Suc n)
  have len: "rid < length (resources s)" using Suc.prems by (simp add: cap_ok_def)
  show ?case
  proof (cases "resources s ! rid")
    case None
    with len derived_dead [of s rid] show ?thesis by (auto simp: revoked_def res_at_def)
  next
    case (Some r)
    then have at: "res_at s rid = Some r" using len by (simp add: res_at_def)
    then have k: "kids s rid = derivation_children r" by (simp add: kids_def)
    let ?D = "\<Union>c \<in> set (derivation_children r). derived s c"
    have ch: "rid < c \<and> c < next_resource_id s" if "c \<in> set (derivation_children r)" for c
      using kids_bound [OF Suc.prems(1)] that k by metis
    have ih: "\<exists>s'. revoke n c t = Some (Ret s') \<and> revoked t (derived t c) s'"
      if "cap_ok t" "refs_ok t" "tree_ok t" "c \<in> set (derivation_children r)"
        "next_resource_id t = next_resource_id s" for t c
      using Suc.IH [of t c] that ch [OF that(4)] Suc.prems(5) by auto
    have "distinct (derivation_children r)" using Suc.prems(3) k unfolding tree_ok_def by metis
    moreover have "derived s a \<inter> derived s b = {}"
      if "a \<in> set (derivation_children r)" "b \<in> set (derivation_children r)" "a \<noteq> b" for a b
      using siblings_apart [OF Suc.prems(1,3), of a rid b] that k by simp
    ultimately obtain s1 where
      s1: "revoke_children (revoke n) (derivation_children r) s = Some (Ret s1)" "revoked s ?D s1"
      using revoke_children_revoked [of "derivation_children r" "next_resource_id s" "revoke n" s] ih Suc.prems(1-3)
      by blast
    have out: "rid \<notin> ?D" using derived_ge [OF Suc.prems(1)] ch by fastforce
    then have "res_at s1 rid = Some r" using s1(2) at by (auto simp: revoked_def)
    from dec_ref_revoked [OF revoked_ok(2) [OF s1(2) Suc.prems(2)] this] out
    have "revoked s (?D \<union> {rid}) (dec_ref rid s1)" using revoked_Un [OF s1(2)] by blast
    with Some len s1(1) derived_unfold [OF at] show ?thesis by simp
  qed
qed

subsection \<open>Rights and statistics\<close>







lemma fold_count_slot:
  "fold count_slot ss (u, e, m) =
     (u + length (filter (\<lambda>sl. cap_type sl \<noteq> CapNull) ss),
      e + length (filter (\<lambda>sl. cap_type sl = CapEP) ss),
      m + length (filter (\<lambda>sl. cap_type sl = CapMem) ss))"
  by (induction ss arbitrary: u e m) (auto split: CapType.splits)

lemma pack_stats_fields:
  "take_bit 16 (pack_stats t u e m) = take_bit 16 t"
  "take_bit 16 (drop_bit 16 (pack_stats t u e m)) = take_bit 16 u"
  "take_bit 16 (drop_bit 32 (pack_stats t u e m)) = take_bit 16 e"
  "take_bit 16 (drop_bit 48 (pack_stats t u e m)) = take_bit 16 m"
proof -
  have m: "x AND 0xFFFF = take_bit 16 x" for x :: u64
    using take_bit_eq_mask [of 16 x] by (simp add: mask_eq_exp_minus_1)
  show "take_bit 16 (pack_stats t u e m) = take_bit 16 t"
    "take_bit 16 (drop_bit 16 (pack_stats t u e m)) = take_bit 16 u"
    "take_bit 16 (drop_bit 32 (pack_stats t u e m)) = take_bit 16 e"
    "take_bit 16 (drop_bit 48 (pack_stats t u e m)) = take_bit 16 m"
    unfolding pack_stats_def m
    by (rule bit_word_eqI, auto simp: bit_simps)+
qed

lemma unat_field: "n < 65536 \<Longrightarrow> unat (take_bit 16 (of_nat n :: u64)) = n"
  by (simp add: unsigned_take_bit_eq unat_of_nat take_bit_nat_eq_self)

section \<open>Properties\<close>

text \<open>
  C6. Dead capabilities stay dead: once the resource behind an id has been freed, no
  sequence of capability operations makes that id live again, and no later allocation
  returns it, so a stale slot can never come to name another object.
\<close>

theorem cap_no_resurrection:
  assumes "cap_ok s" and "(cap_step relock)\<^sup>*\<^sup>* s s'"
    and "rid < next_resource_id s" and "res_at s rid = None"
  shows "res_at s' rid = None \<and> cap_ok s' \<and>
    (\<forall>t d new s''. alloc_resource relock False t d s' = Ret (new, s'') \<longrightarrow> new \<noteq> rid)"
proof -
  have e: "cap_ok s'" "next_resource_id s \<le> next_resource_id s'" "res_at s' rid = None"
    using cap_steps_evolves [OF assms(2)] assms unfolding evolves_def by auto
  with alloc_resource_spec(1) assms(3) show ?thesis by (metis not_le)
qed

text \<open>
  C7. Revocation is exact: \<open>revoke\<close> returns; every live resource derived from the revoked
  one, itself included, gives up exactly one reference: it is freed when that was the
  last one, and otherwise stays with its count lower by one and nothing else changed;
  every other resource is exactly as before. The derivations form a forest in every
  state the capability operations reach (\<open>cap_steps_tree\<close>, \<open>cap_init_ok\<close>).
\<close>

theorem revoke_exact:
  assumes "cap_ok s" and "refs_ok s" and "tree_ok s"
    and "rid < next_resource_id s" and "next_resource_id s \<le> n"
  shows "\<exists>s'. revoke n rid s = Some (Ret s') \<and>
    (\<forall>d. d \<in> derived s rid \<longrightarrow> refs s' d = refs s d - 1 \<and> (res_at s' d = None \<longleftrightarrow> refs s d = 1)) \<and>
    (\<forall>d r. d \<in> derived s rid \<longrightarrow> res_at s d = Some r \<longrightarrow> 1 < ref_count r \<longrightarrow>
       res_at s' d = Some (r\<lparr>ref_count := ref_count r - 1\<rparr>)) \<and>
    (\<forall>d. d \<notin> derived s rid \<longrightarrow> res_at s' d = res_at s d)"
proof -
  have "next_resource_id s - rid \<le> n" using assms(5) by linarith
  from revoke_revoked [OF assms(1-4) this] obtain s' where
    s': "revoke n rid s = Some (Ret s')" "revoked s (derived s rid) s'" by blast
  have "refs s' d = refs s d - 1 \<and> (res_at s' d = None \<longleftrightarrow> refs s d = 1)" if "d \<in> derived s rid" for d
    using that s'(2) derived_live [OF that]
    by (auto simp: revoked_def refs_def drop_one_def split: option.splits)
  with s' show ?thesis
    by (intro exI [of _ s']) (auto simp: revoked_def drop_one_def)
qed

text \<open>
  C8. With a mutex that is not reentrant, \<open>mint\<close>, \<open>copy_cap\<close> and \<open>move_cap\<close> never
  return once their guards accept the source slot: they lock the resource table again
  while their own guard of it is alive.
\<close>

theorem cap_self_deadlock:
  assumes "relock = Hang" and "mint_source s c i rs = Some src" and "copy_source s c' i' = Inr src'"
  shows "mint relock c i rs s = Hang \<and> copy_cap relock c' i' dst_c dst_i s = Hang \<and>
    move_cap relock c' i' dst_c dst_i s = Hang"
  using assms
  by (simp add: mint_def copy_cap_def move_cap_def duplicate_resource_data_inner_def inc_ref_def
      lock_resources_def)


text \<open>
  \<open>sys_cap_stats\<close> round trip: for a CNode of fewer than 65536 slots the four 16-bit
  fields of the packed result are the number of slots, of non-null slots, of endpoint
  slots and of memory slots.
\<close>

lemma sys_cap_stats_fields:
  assumes "caller_cnode cur k = Inr c" and "get_resource (caps k) c = Some res"
    and "rdata res = RCNode ss" and "length ss < 65536"
  shows "\<exists>w. sys_cap_stats cur k = Inr w \<and>
    unat (take_bit 16 w) = length ss \<and>
    unat (take_bit 16 (drop_bit 16 w)) = length (filter (\<lambda>sl. cap_type sl \<noteq> CapNull) ss) \<and>
    unat (take_bit 16 (drop_bit 32 w)) = length (filter (\<lambda>sl. cap_type sl = CapEP) ss) \<and>
    unat (take_bit 16 (drop_bit 48 w)) = length (filter (\<lambda>sl. cap_type sl = CapMem) ss)"
proof -
  have "length (filter P ss) < 65536" for P
    using assms(4) length_filter_le [of P ss] by linarith
  with assms show ?thesis
    by (simp add: sys_cap_stats_def fold_count_slot pack_stats_fields unat_field)
qed

section \<open>Witnesses\<close>

text \<open>A process whose CNode (resource 1) has one memory capability (resource 2).\<close>

definition demo_res :: "ResourceData \<Rightarrow> usize list \<Rightarrow> Resource" where
  "demo_res d cs = \<lparr>ref_count = 1, res_type = CapMem, derivation_parent = None, derivation_children = cs, rdata = d\<rparr>"

definition demo_slot :: Slot where
  "demo_slot = \<lparr>cap_type = CapMem, slot_rights = 3, resource_id = 2\<rparr>"

definition demo_caps :: CapState where
  "demo_caps = \<lparr>resources = [None, Some (demo_res (RCNode [demo_slot]) []),
     Some (demo_res (RMem 4096 4096) [3]), Some (demo_res (RMem 4096 4096) [])], next_resource_id = 4\<rparr>"

definition demo_sys :: CapSys where
  "demo_sys = \<lparr>caps = demo_caps, proc_cnodes = [(7, 1)], cap_audit_log = []\<rparr>"

lemma demo_res_at:
  "res_at demo_caps rid = (if rid = 1 then Some (demo_res (RCNode [demo_slot]) []) else
     if rid = 2 then Some (demo_res (RMem 4096 4096) [3]) else
     if rid = 3 then Some (demo_res (RMem 4096 4096) []) else None)"
  by (auto simp: res_at_def demo_caps_def nth_Cons' numeral_eq_Suc less_Suc_eq)

lemma demo_caps_ok: "cap_ok demo_caps" "refs_ok demo_caps"
  unfolding cap_ok_def refs_ok_def demo_res_at by (auto simp: demo_caps_def demo_res_def)

lemma demo_tree_ok: "tree_ok demo_caps"
  unfolding tree_ok_def kids_def demo_res_at by (simp add: demo_res_def)

lemma demo_caps_fields [simp]: "next_resource_id demo_caps = 4" "length (resources demo_caps) = 4"
  by (simp_all add: demo_caps_def)

lemma demo_freed: "cap_ok (dec_ref 3 demo_caps)" "res_at (dec_ref 3 demo_caps) 3 = None"
  "next_resource_id (dec_ref 3 demo_caps) = 4"
  using dec_ref_evolves [of demo_caps 3] demo_caps_ok usize_sub_small [of 1 1]
  by (simp_all add: evolves_def dec_ref_def demo_res_at res_at_set_res demo_res_def)

theorem cap_no_resurrection_witness:
  "res_at (dec_ref 2 (dec_ref 3 demo_caps)) 3 = None \<and> cap_ok (dec_ref 2 (dec_ref 3 demo_caps))"
  using cap_no_resurrection [of "dec_ref 3 demo_caps" Hang "dec_ref 2 (dec_ref 3 demo_caps)" 3]
    demo_freed r_into_rtranclp [of "cap_step Hang", OF step_dec]
  by simp

text \<open>Resource 2 with a second reference and a child, resource 3, with one.\<close>

definition demo_shared :: CapState where
  "demo_shared = \<lparr>resources = [None, Some (demo_res (RCNode [demo_slot]) []),
     Some ((demo_res (RMem 4096 4096) [3])\<lparr>ref_count := 2\<rparr>), Some (demo_res (RMem 4096 4096) [])],
     next_resource_id = 4\<rparr>"

lemma demo_shared_at:
  "res_at demo_shared rid = (if rid = 1 then Some (demo_res (RCNode [demo_slot]) []) else
     if rid = 2 then Some ((demo_res (RMem 4096 4096) [3])\<lparr>ref_count := 2\<rparr>) else
     if rid = 3 then Some (demo_res (RMem 4096 4096) []) else None)"
  by (auto simp: res_at_def demo_shared_def nth_Cons' numeral_eq_Suc less_Suc_eq)

lemma demo_shared_ok: "cap_ok demo_shared" "refs_ok demo_shared" "tree_ok demo_shared"
proof -
  show "cap_ok demo_shared" unfolding cap_ok_def demo_shared_at by (auto simp: demo_shared_def demo_res_def)
  show "refs_ok demo_shared" unfolding refs_ok_def demo_shared_at by (auto simp: demo_res_def)
  show "tree_ok demo_shared" unfolding tree_ok_def kids_def demo_shared_at by (simp add: demo_res_def)
qed

theorem revoke_exact_witness:
  "\<exists>s'. revoke 4 2 demo_shared = Some (Ret s') \<and> refs s' 2 = 1 \<and> res_at s' 2 \<noteq> None \<and>
     res_at s' 3 = None \<and> res_at s' 1 = res_at demo_shared 1"
proof -
  have d: "2 \<in> derived demo_shared 2" by (auto intro!: derived_self simp: demo_shared_at)
  then have e: "3 \<in> derived demo_shared 2"
    by (rule derived_child) (auto simp: demo_shared_at demo_res_def)
  have n: "1 \<notin> derived demo_shared 2" using derived_ge [OF demo_shared_ok(1), of 1 2] by auto
  have r: "refs demo_shared 3 = 1" "refs demo_shared 2 = 2" by (simp_all add: refs_def demo_shared_at demo_res_def)
  have b: "2 < next_resource_id demo_shared" "next_resource_id demo_shared \<le> 4" by (simp_all add: demo_shared_def)
  from revoke_exact [OF demo_shared_ok b] d e n r show ?thesis by fastforce
qed

theorem cap_self_deadlock_witness:
  "mint Hang 1 0 1 demo_caps = Hang \<and> copy_cap Hang 1 0 1 5 demo_caps = Hang \<and>
   move_cap Hang 1 0 1 5 demo_caps = Hang"
  using cap_self_deadlock [of Hang demo_caps 1 0 1 demo_slot 1 0 demo_slot 1 5]
    demo_res_at [of 1] res_at_SomeD [of demo_caps 1]
  by (simp add: mint_source_def copy_source_def demo_res_def Let_def demo_slot_def)


lemma sys_cap_stats_fields_example:
  "\<exists>w. sys_cap_stats (Some 7) demo_sys = Inr w \<and> unat (take_bit 16 w) = 1 \<and>
     unat (take_bit 16 (drop_bit 48 w)) = 1"
  using sys_cap_stats_fields [of "Some 7" demo_sys 1 "demo_res (RCNode [demo_slot]) []" "[demo_slot]"]
  by (auto simp: demo_sys_def caller_cnode_def proc_cnode_def get_resource_def demo_caps_def demo_res_def
      demo_slot_def)

end
