(* ===== verification/Zicond.thy ===== *)
theory Zicond
  imports Kernel_Prelude
begin

unbundle bit_operations_syntax

text \<open>
  Branchless selection, kernel/src/mem/zicond.rs, and the scheduler comparisons that use
  it (the V38c part of sched/mod.rs). The processor is a parameter: whether the boot probe
  found the extension, and what the instruction \<open>.insn r 0x13, 0x7, funct7\<close> computes from
  its two source registers. \<open>zicond_sound\<close> is what the source documents of it.
\<close>

section \<open>Definitions\<close>

record zicond_hw =
  zicond_available :: bool
  insn_r :: "u64 \<Rightarrow> u64 \<Rightarrow> u64 \<Rightarrow> u64"

definition cmov_u64 :: "zicond_hw \<Rightarrow> bool \<Rightarrow> u64 \<Rightarrow> u64 \<Rightarrow> u64" where
  "cmov_u64 hw cond a b =
     (if zicond_available hw then
        (let cond_mask = (if cond then 1 else 0);
             result_a = insn_r hw 0 a cond_mask;
             result_b = insn_r hw 1 b cond_mask
         in result_a OR result_b)
      else if cond then a else b)"

definition cset_u64 :: "zicond_hw \<Rightarrow> bool \<Rightarrow> u64" where
  "cset_u64 hw cond = cmov_u64 hw cond 1 0"

definition max_u64 :: "zicond_hw \<Rightarrow> u64 \<Rightarrow> u64 \<Rightarrow> u64" where
  "max_u64 hw a b = cmov_u64 hw (a > b) a b"

definition min_u64 :: "zicond_hw \<Rightarrow> u64 \<Rightarrow> u64 \<Rightarrow> u64" where
  "min_u64 hw a b = cmov_u64 hw (a < b) a b"

text \<open>An \<open>i64\<close> is the same 64-bit word, compared as a signed number.\<close>

definition max_i64 :: "zicond_hw \<Rightarrow> u64 \<Rightarrow> u64 \<Rightarrow> u64" where
  "max_i64 hw a b = cmov_u64 hw (sint a > sint b) a b"

definition min_i64 :: "zicond_hw \<Rightarrow> u64 \<Rightarrow> u64 \<Rightarrow> u64" where
  "min_i64 hw a b = cmov_u64 hw (sint a < sint b) a b"

definition clamp_u64 :: "zicond_hw \<Rightarrow> u64 \<Rightarrow> u64 \<Rightarrow> u64 \<Rightarrow> u64" where
  "clamp_u64 hw val lo hi =
     cmov_u64 hw (cmov_u64 hw (val < lo) lo val > hi) hi (cmov_u64 hw (val < lo) lo val)"

definition clamp_i64 :: "zicond_hw \<Rightarrow> u64 \<Rightarrow> u64 \<Rightarrow> u64 \<Rightarrow> u64" where
  "clamp_i64 hw val lo hi = clamp_u64 hw val lo hi"

definition abs_i64 :: "u64 \<Rightarrow> u64" where
  "abs_i64 val = (let mask = signed_drop_bit 63 val in (val XOR mask) - mask)"

definition saturating_add_u64 :: "zicond_hw \<Rightarrow> u64 \<Rightarrow> u64 \<Rightarrow> u64" where
  "saturating_add_u64 hw a b = (let sum = a + b in cmov_u64 hw (sum < a) (- 1) sum)"

definition saturating_sub_u64 :: "zicond_hw \<Rightarrow> u64 \<Rightarrow> u64 \<Rightarrow> u64" where
  "saturating_sub_u64 hw a b = (let diff = a - b in cmov_u64 hw (diff > a) 0 diff)"

definition higher_priority :: "zicond_hw \<Rightarrow> u64 \<Rightarrow> u64 \<Rightarrow> u64" where
  "higher_priority hw prio_a prio_b = max_u64 hw prio_a prio_b"

definition earlier_deadline :: "zicond_hw \<Rightarrow> u64 \<Rightarrow> u64 \<Rightarrow> u64" where
  "earlier_deadline hw da db = min_u64 hw da db"

definition should_select_thread :: "zicond_hw \<Rightarrow> u64 \<Rightarrow> u64 \<Rightarrow> u64 \<Rightarrow> u64 \<Rightarrow> bool" where
  "should_select_thread hw prio_a prio_b deadline_a deadline_b =
     (let same_prio = (prio_a = prio_b) in
      cmov_u64 hw same_prio deadline_a (NOT prio_a) < cmov_u64 hw same_prio deadline_b (NOT prio_b))"

definition clamp_priority :: "zicond_hw \<Rightarrow> u64 \<Rightarrow> u8" where
  "clamp_priority hw prio = ucast (clamp_u64 hw prio 0 63)"

definition compute_slice_ticks :: "zicond_hw \<Rightarrow> u32 \<Rightarrow> u64" where
  "compute_slice_ticks hw weight =
     (let w = cmov_u64 hw (ucast weight < (1 :: u64)) 1 (ucast weight);
          slice_ticks = 1; weight_max = 512
      in slice_ticks * weight_max div w)"

definition test_zicond_operations :: "zicond_hw \<Rightarrow> bool" where
  "test_zicond_operations hw \<longleftrightarrow>
     cmov_u64 hw True 42 100 = 42 \<and> cmov_u64 hw False 42 100 = 100 \<and>
     cset_u64 hw True = 1 \<and> cset_u64 hw False = 0 \<and>
     max_u64 hw 10 20 = 20 \<and> min_u64 hw 10 20 = 10 \<and>
     max_i64 hw (- 5) 3 = 3 \<and> min_i64 hw (- 5) 3 = - 5 \<and>
     clamp_u64 hw 50 10 30 = 30 \<and> clamp_u64 hw 5 10 30 = 10 \<and> clamp_u64 hw 20 10 30 = 20 \<and>
     abs_i64 (- 42) = 42 \<and> abs_i64 42 = 42 \<and> abs_i64 0 = 0 \<and>
     saturating_add_u64 hw (- 1) 1 = - 1 \<and> saturating_add_u64 hw 100 50 = 150 \<and>
     saturating_sub_u64 hw 0 1 = 0 \<and> saturating_sub_u64 hw 100 50 = 50"

text \<open>
  What the source documents: \<open>czero.eqz\<close> (funct7 0) and \<open>czero.nez\<close> (funct7 1). The
  boot probe runs the instruction with funct7 \<open>0x31\<close> on 42 and 1 and takes a zero result
  as the sign that the extension is there.
\<close>

definition czero_semantics :: "zicond_hw \<Rightarrow> bool" where
  "czero_semantics hw \<longleftrightarrow>
     (\<forall>a c. insn_r hw 0 a c = (if c = 0 then 0 else a)) \<and>
     (\<forall>b c. insn_r hw 1 b c = (if c \<noteq> 0 then 0 else b))"

definition zicond_sound :: "zicond_hw \<Rightarrow> bool" where
  "zicond_sound hw \<longleftrightarrow> (zicond_available hw \<longrightarrow> czero_semantics hw)"

definition init_zicond :: "zicond_hw \<Rightarrow> zicond_hw" where
  "init_zicond hw = (if insn_r hw 0x31 42 1 = 0 then hw\<lparr>zicond_available := True\<rparr> else hw)"

text \<open>
  What the RISC-V base instruction set assigns to major opcode 0x13 with funct3 7:
  \<open>andi\<close>, whose immediate is the funct7 field followed by the number of the second
  source register (here \<open>rs2\<close>).
\<close>

definition andi_hw :: "u64 \<Rightarrow> zicond_hw" where
  "andi_hw rs2 = \<lparr>zicond_available = False, insn_r = (\<lambda>funct7 a c. a AND (push_bit 5 funct7 OR rs2))\<rparr>"

section \<open>Lemmas\<close>

named_theorems zicond_simps \<open>the branchless operations as conditionals\<close>

lemma cmov_eq: "zicond_sound hw \<Longrightarrow> cmov_u64 hw c a b = (if c then a else b)"
  by (simp add: cmov_u64_def zicond_sound_def czero_semantics_def)

lemma clamp_eq [zicond_simps]:
  "zicond_sound hw \<Longrightarrow> lo \<le> hi \<Longrightarrow> clamp_u64 hw val lo hi = max lo (min hi val)"
  by (auto simp: clamp_u64_def cmov_eq max_def min_def)

lemma max_min_eq [zicond_simps]:
  "zicond_sound hw \<Longrightarrow> max_u64 hw a b = max a b" "zicond_sound hw \<Longrightarrow> min_u64 hw a b = min a b"
  by (auto simp: max_u64_def min_u64_def cmov_eq max_def min_def)

lemma word_add_overflow: "(a + b < a) \<longleftrightarrow> 2 ^ 64 \<le> unat a + unat b" for a b :: u64
proof -
  have "unat (a + b) = (unat a + unat b) mod 2 ^ 64" by (simp add: unat_word_ariths)
  moreover have "unat a < 2 ^ 64" "unat b < 2 ^ 64" using unsigned_less [of a] unsigned_less [of b] by auto
  ultimately show ?thesis
    by (auto simp: word_less_nat_alt mod_if split: if_splits)
qed

lemma unat_minus_1: "unat (- 1 :: u64) = 2 ^ 64 - 1"
  by (simp add: unsigned_minus_1_eq_mask mask_eq_exp_minus_1)

lemma saturating_add_eq:
  assumes "zicond_sound hw"
  shows "unat (saturating_add_u64 hw a b) = min (unat a + unat b) (2 ^ 64 - 1)"
proof (cases "2 ^ 64 \<le> unat a + unat b")
  case True
  then show ?thesis
    using word_add_overflow [of a b] assms
    by (simp add: saturating_add_u64_def cmov_eq unat_minus_1)
next
  case False
  then have "unat (a + b) = unat a + unat b" by (simp add: unat_word_ariths)
  with False word_add_overflow [of a b] assms show ?thesis
    by (simp add: saturating_add_u64_def cmov_eq)
qed

lemma saturating_sub_eq:
  assumes "zicond_sound hw"
  shows "unat (saturating_sub_u64 hw a b) = unat a - unat b"
proof (cases "b \<le> a")
  case True
  then have "unat (a - b) = unat a - unat b" by (rule unat_sub)
  moreover have "\<not> a < a - b" using calculation by (simp add: word_less_nat_alt)
  ultimately show ?thesis using assms by (simp add: saturating_sub_u64_def cmov_eq)
next
  case False
  then have lt: "unat a < unat b" by (simp add: word_le_nat_alt)
  have "unat (a - b) = unat a + 2 ^ 64 - unat b"
    using lt by (simp add: unat_sub_if')
  then have "a < a - b" using unsigned_less [of b, where ?'a = nat] lt by (simp add: word_less_nat_alt)
  with lt assms show ?thesis by (simp add: saturating_sub_u64_def cmov_eq)
qed

lemma unat_not: "unat (NOT a) = 2 ^ 64 - 1 - unat a" for a :: u64
proof -
  have "NOT a = - 1 - a" by (simp add: not_eq_complement)
  moreover have "unat (- 1 - a) = unat (- 1 :: u64) - unat a" by (rule unat_sub) simp
  ultimately show ?thesis by (simp add: unat_minus_1)
qed

lemma sint_cases: "sint w = (if uint w < 2 ^ 63 then uint w else uint w - 2 ^ 64)" for w :: u64
proof -
  have t: "take_bit 64 (uint w) = uint w" using uint_lt2p [of w] by (simp add: take_bit_int_eq_self)
  have "Suc 63 = 64" by simp
  with t take_bit_Suc_from_most [of 63 "uint w"]
  have u: "uint w = 2 ^ 63 * of_bool (bit (uint w) 63) + take_bit 63 (uint w)"
    by (simp only:)
  have b: "0 \<le> take_bit 63 (uint w)" "take_bit 63 (uint w) < 2 ^ 63"
    by (rule take_bit_nonnegative, rule take_bit_int_less_exp)
  have "sint w = signed_take_bit 63 (uint w)" by (simp add: sint_uint)
  also have "\<dots> = uint w - 2 ^ 64 * of_bool (bit (uint w) 63)"
    using t by (simp add: signed_take_bit_eq_take_bit_minus)
  finally have s: "sint w = uint w - 2 ^ 64 * of_bool (bit (uint w) 63)" .
  show ?thesis
  proof (cases "bit (uint w) 63")
    case True
    with u have "uint w = 2 ^ 63 + take_bit 63 (uint w)" by simp
    with b have "\<not> uint w < 2 ^ 63" by linarith
    with True s show ?thesis by simp
  next
    case False
    with u have "uint w = take_bit 63 (uint w)" by simp
    with b have "uint w < 2 ^ 63" by linarith
    with False s show ?thesis by simp
  qed
qed

lemma not_less_not: "NOT a < NOT b \<longleftrightarrow> b < a" for a b :: u64
  using unsigned_less [of a, where ?'a = nat] unsigned_less [of b, where ?'a = nat]
  unfolding word_less_nat_alt unat_not by (auto intro: diff_less_mono2)

section \<open>Properties\<close>

text \<open>
  C11. The branchless operations compute what their names say, on hardware that behaves as
  documented and with the branch fallback alike: minimum, maximum, clamping into an
  interval, and addition and subtraction that saturate at the ends of \<open>u64\<close>.
\<close>

theorem zicond_reference:
  assumes "zicond_sound hw"
  shows "max_u64 hw a b = max a b \<and> min_u64 hw a b = min a b \<and>
    (lo \<le> hi \<longrightarrow> clamp_u64 hw val lo hi = max lo (min hi val)) \<and>
    unat (saturating_add_u64 hw a b) = min (unat a + unat b) (2 ^ 64 - 1) \<and>
    unat (saturating_sub_u64 hw a b) = unat a - unat b"
  using assms by (simp add: zicond_simps saturating_add_eq saturating_sub_eq)

text \<open>
  \<open>should_select_thread\<close> is the lexicographic order of the scheduler: higher priority
  first, and among equal priorities the strictly earlier deadline.
\<close>

lemma should_select_thread_lex:
  assumes "zicond_sound hw"
  shows "should_select_thread hw pa pb da db \<longleftrightarrow> pa > pb \<or> pa = pb \<and> da < db"
  using assms by (auto simp: should_select_thread_def Let_def cmov_eq not_less_not)

text \<open>
  The clamp for signed values compares unsigned: with a negative value below the
  interval it returns the upper end instead of the lower one.
\<close>

lemma clamp_i64_negative:
  assumes "zicond_sound hw" and "sint val < 0" and "0 \<le> sint lo" and "sint lo \<le> sint hi"
  shows "clamp_i64 hw val lo hi = hi"
proof -
  have "0 \<le> sint hi" using assms(3,4) by linarith
  then have "uint lo = sint lo" "uint hi = sint hi" "2 ^ 63 \<le> uint val"
    using assms(2,3) sint_cases [of lo] sint_cases [of hi] sint_cases [of val]
      uint_lt2p [of lo] uint_lt2p [of hi]
    by (auto split: if_splits)
  moreover have "sint hi < 2 ^ 63" using sint_less [of hi] by simp
  ultimately have "lo \<le> hi" "hi < val"
    using assms(4) by (auto simp: word_le_def word_less_def)
  with clamp_eq [OF assms(1) this(1), of val] show ?thesis
    by (simp add: clamp_i64_def)
qed

text \<open>
  The boot probe never detects the extension: the encoding it uses is that of
  \<open>andi\<close>, which leaves a non-zero result whatever register the compiler picks, so the
  kernel always runs the branch fallbacks.
\<close>

lemma probe_never_detects: "init_zicond (andi_hw rs2) = andi_hw rs2"
proof -
  have "bit (42 AND (push_bit 5 0x31 OR rs2)) 5"
    by (simp add: bit_simps)
  then have "42 AND (push_bit 5 0x31 OR rs2) \<noteq> 0" by auto
  then show ?thesis by (simp add: init_zicond_def andi_hw_def)
qed

section \<open>Witnesses\<close>

definition demo_hw :: zicond_hw where
  "demo_hw = \<lparr>zicond_available = True,
     insn_r = (\<lambda>f a c. if f = 0 then (if c = 0 then 0 else a) else (if c = 0 then a else 0))\<rparr>"

lemma demo_hw_sound: "zicond_sound demo_hw"
  by (simp add: zicond_sound_def czero_semantics_def demo_hw_def)

theorem zicond_reference_witness:
  "max_u64 demo_hw 3 5 = 5 \<and> clamp_u64 demo_hw 50 10 30 = 30 \<and>
   unat (saturating_add_u64 demo_hw (- 1) 1) = 2 ^ 64 - 1"
  using zicond_reference [OF demo_hw_sound, of 3 5 10 30 50] zicond_reference [OF demo_hw_sound, of "- 1" 1]
  by (simp add: unat_minus_1)

lemma should_select_thread_lex_example:
  "should_select_thread demo_hw 5 3 10 2 \<and> \<not> should_select_thread demo_hw 3 3 10 2"
  using should_select_thread_lex [OF demo_hw_sound, of 5 3 10 2]
    should_select_thread_lex [OF demo_hw_sound, of 3 3 10 2] by simp

lemma clamp_i64_negative_witness: "clamp_i64 demo_hw (- 1) 0 10 = 10"
  using clamp_i64_negative [OF demo_hw_sound, of "- 1" 0 10] by simp

end
