(* ===== verification/Ready_Queues.thy ===== *)
theory Ready_Queues
  imports Kernel_Prelude "HOL-Library.Multiset"
begin

unbundle bit_operations_syntax

text \<open>
  Threads (kernel/src/proc/thread.rs), the Vec-backed \<open>ThreadQueue\<close> of
  kernel/src/sched/mod.rs and the per-node EEVDF ready queues of kernel/src/numa/mod.rs.

  Thread pointers are addresses into a store \<open>threads\<close>. The fields of a thread that hold
  its register contexts are not part of the model; the ones the scheduler and IPC read or
  write are.
\<close>

section \<open>Definitions\<close>

subsection \<open>Threads\<close>

type_synonym tptr = usize

datatype ThreadState = Ready | Running | Waiting | Dead

datatype PreemptMode = PreemptNone | Lazy | Immediate

datatype WaitTarget = Endpoint usize | CallReply usize

record Thread =
  tid :: u32
  owner :: u32
  tstate :: ThreadState
  base_priority :: u8
  effective_priority :: u8
  wait_target :: "WaitTarget option"
  node_id :: u8
  vruntime :: u64
  deadline :: u64
  weight :: u32
  preempt_mode :: PreemptMode
  remaining_ticks :: u64
  last_cpu :: u8
  proxy_target :: "tptr option"
  proxy_donor :: "tptr option"
  slice_extension_enabled :: bool
  slice_extension_count :: u64

type_synonym threads = "tptr \<Rightarrow> Thread"

definition Thread_new :: "u32 \<Rightarrow> u32 \<Rightarrow> u8 \<Rightarrow> Thread" where
  "Thread_new t own priority =
     \<lparr>tid = t, owner = own, tstate = Ready, base_priority = priority, effective_priority = priority,
      wait_target = None, node_id = 0, vruntime = 0, deadline = 0, weight = (ucast priority + 1) * 8,
      preempt_mode = Lazy, remaining_ticks = 1, last_cpu = 0, proxy_target = None, proxy_donor = None,
      slice_extension_enabled = False, slice_extension_count = 0\<rparr>"

definition Thread_new_idle :: Thread where
  "Thread_new_idle =
     \<lparr>tid = 0, owner = 0, tstate = Ready, base_priority = 0, effective_priority = 0,
      wait_target = None, node_id = 0, vruntime = 0, deadline = 0, weight = 8,
      preempt_mode = PreemptNone, remaining_ticks = 0, last_cpu = 0, proxy_target = None, proxy_donor = None,
      slice_extension_enabled = False, slice_extension_count = 0\<rparr>"

subsection \<open>The thread queue\<close>

record ThreadQueue =
  tq_items :: "tptr list"
  tq_head :: usize

definition tq_new :: ThreadQueue where
  "tq_new = \<lparr>tq_items = [], tq_head = 0\<rparr>"

definition tq_push_back :: "tptr \<Rightarrow> ThreadQueue \<Rightarrow> ThreadQueue" where
  "tq_push_back t q = q\<lparr>tq_items := tq_items q @ [t]\<rparr>"

definition tq_pop_front :: "ThreadQueue \<Rightarrow> (tptr \<times> ThreadQueue) option" where
  "tq_pop_front q =
     (if tq_head q \<ge> length (tq_items q) then None
      else
        (let t = tq_items q ! tq_head q;
             hd = tq_head q + 1
         in Some (t,
              if hd > 64 \<and> hd \<ge> length (tq_items q) div 2
              then \<lparr>tq_items = drop hd (tq_items q), tq_head = 0\<rparr>
              else q\<lparr>tq_head := hd\<rparr>)))"

definition tq_is_empty :: "ThreadQueue \<Rightarrow> bool" where
  "tq_is_empty q \<longleftrightarrow> tq_head q \<ge> length (tq_items q)"

definition tq_iter :: "ThreadQueue \<Rightarrow> tptr list" where
  "tq_iter q = drop (tq_head q) (tq_items q)"

definition insert_pos :: "threads \<Rightarrow> ThreadQueue \<Rightarrow> u64 \<Rightarrow> usize" where
  "insert_pos th q dl =
     (case find (\<lambda>i. dl < deadline (th (tq_items q ! i))) [tq_head q..<length (tq_items q)] of
        None \<Rightarrow> length (tq_items q) | Some i \<Rightarrow> i)"

definition insert_sorted_by_deadline :: "threads \<Rightarrow> tptr \<Rightarrow> u64 \<Rightarrow> ThreadQueue \<Rightarrow> ThreadQueue" where
  "insert_sorted_by_deadline th t dl q =
     (let p = insert_pos th q dl
      in q\<lparr>tq_items := take p (tq_items q) @ t # drop p (tq_items q)\<rparr>)"

subsection \<open>Ready queues of a node\<close>

definition MAX_NODES :: usize where "MAX_NODES = 8"
definition NUM_PRIORITIES :: usize where "NUM_PRIORITIES = 64"
definition SLICE_TICKS :: u64 where "SLICE_TICKS = 1"
definition WEIGHT_MAX :: u64 where "WEIGHT_MAX = 512"

record NumaReadyQueues =
  queues :: "ThreadQueue list"
  priority_bitmap :: u64
  thread_count :: u64

definition NumaReadyQueues_new :: NumaReadyQueues where
  "NumaReadyQueues_new =
     \<lparr>queues = replicate NUM_PRIORITIES tq_new, priority_bitmap = 0, thread_count = 0\<rparr>"

definition update_eevdf_deadline :: "Thread \<Rightarrow> Thread" where
  "update_eevdf_deadline t =
     (let w = ucast (max (weight t) 1);
          slice = SLICE_TICKS * WEIGHT_MAX div w
      in t\<lparr>deadline := vruntime t + slice\<rparr>)"

definition enqueue_eevdf :: "threads \<Rightarrow> tptr \<Rightarrow> NumaReadyQueues \<Rightarrow> NumaReadyQueues" where
  "enqueue_eevdf th t rq =
     (let pri = unat (effective_priority (th t)) in
      if pri \<ge> NUM_PRIORITIES then rq
      else rq\<lparr>queues := (queues rq)[pri :=
                 insert_sorted_by_deadline th t (deadline (th t)) (queues rq ! pri)],
              priority_bitmap := priority_bitmap rq OR push_bit pri 1,
              thread_count := thread_count rq + 1\<rparr>)"

definition leading_zeros :: "u64 \<Rightarrow> usize" where
  "leading_zeros w = length (takeWhile (\<lambda>i. \<not> bit w i) (rev [0..<64]))"

definition pick_next_eevdf ::
  "threads \<Rightarrow> NumaReadyQueues \<Rightarrow> tptr option \<times> threads \<times> NumaReadyQueues" where
  "pick_next_eevdf th rq =
     (if priority_bitmap rq = 0 then (None, th, rq)
      else
        (let highest = 63 - leading_zeros (priority_bitmap rq) in
         case tq_pop_front (queues rq ! highest) of
           None \<Rightarrow> (None, th, rq)
         | Some (t, q) \<Rightarrow>
             (Some t,
              th(t := (th t)\<lparr>tstate := Running\<rparr>),
              rq\<lparr>queues := (queues rq)[highest := q],
                 priority_bitmap :=
                   (if tq_is_empty q then priority_bitmap rq AND NOT (push_bit highest 1)
                    else priority_bitmap rq),
                 thread_count := thread_count rq - 1\<rparr>)))"

definition eevdf_tick :: "Thread \<Rightarrow> Thread" where
  "eevdf_tick t =
     (let w = ucast (max (weight t) 1)
      in update_eevdf_deadline (t\<lparr>vruntime := vruntime t + WEIGHT_MAX div w\<rparr>))"

text \<open>The kernel's own consistency check of a node: verdict and number of queued threads.\<close>

fun check_prio :: "threads \<Rightarrow> NumaReadyQueues \<Rightarrow> usize \<Rightarrow> bool \<times> usize \<Rightarrow> bool \<times> usize" where
  "check_prio th rq prio (ok, tot) =
     (let has_bit = (drop_bit prio (priority_bitmap rq) AND 1 \<noteq> 0);
          empty = tq_is_empty (queues rq ! prio);
          ok1 = (ok \<and> \<not> (has_bit \<and> empty) \<and> \<not> (\<not> has_bit \<and> \<not> empty))
      in if \<not> empty then
           (ok1 \<and> list_all (\<lambda>t. tstate (th t) = Ready) (tq_iter (queues rq ! prio)),
            tot + length (tq_iter (queues rq ! prio)))
         else (ok1, tot))"

definition check_queues :: "threads \<Rightarrow> NumaReadyQueues \<Rightarrow> bool \<Rightarrow> bool \<times> usize" where
  "check_queues th rq ok = fold (check_prio th rq) [0..<64] (ok, 0)"

section \<open>Invariant\<close>

definition tq_ok :: "ThreadQueue \<Rightarrow> bool" where
  "tq_ok q \<longleftrightarrow> tq_head q \<le> length (tq_items q)"

definition waiting_at :: "NumaReadyQueues \<Rightarrow> usize \<Rightarrow> tptr list" where
  "waiting_at rq p = tq_iter (queues rq ! p)"

definition queued :: "NumaReadyQueues \<Rightarrow> tptr list" where
  "queued rq = concat (map tq_iter (queues rq))"

definition by_deadline :: "threads \<Rightarrow> tptr list \<Rightarrow> bool" where
  "by_deadline th ts \<longleftrightarrow> sorted_wrt (\<lambda>a b. deadline (th a) \<le> deadline (th b)) ts"

definition rq_ok :: "threads \<Rightarrow> NumaReadyQueues \<Rightarrow> bool" where
  "rq_ok th rq \<longleftrightarrow>
     length (queues rq) = NUM_PRIORITIES \<and>
     (\<forall>p < NUM_PRIORITIES. tq_ok (queues rq ! p) \<and> by_deadline th (waiting_at rq p) \<and>
        (bit (priority_bitmap rq) p \<longleftrightarrow> waiting_at rq p \<noteq> [])) \<and>
     thread_count rq = of_nat (length (queued rq))"

text \<open>Every queued thread waits in the queue of its effective priority.\<close>

definition rq_filed :: "threads \<Rightarrow> NumaReadyQueues \<Rightarrow> bool" where
  "rq_filed th rq \<longleftrightarrow>
     (\<forall>p < NUM_PRIORITIES. \<forall>t \<in> set (waiting_at rq p). unat (effective_priority (th t)) = p)"

text \<open>The thread at the front: from the highest non-empty queue, earliest deadline there.\<close>

definition is_front :: "threads \<Rightarrow> NumaReadyQueues \<Rightarrow> tptr \<Rightarrow> bool" where
  "is_front th rq t \<longleftrightarrow>
     (\<exists>p<64. t \<in> set (waiting_at rq p) \<and>
        (\<forall>p'<64. \<forall>u \<in> set (waiting_at rq p'). p' < p \<or> p' = p \<and> deadline (th t) \<le> deadline (th u)))"

text \<open>
  The thread that is to run: no queued thread has a higher effective priority, and none of
  the same priority an earlier deadline.
\<close>

definition is_best :: "threads \<Rightarrow> NumaReadyQueues \<Rightarrow> tptr \<Rightarrow> bool" where
  "is_best th rq t \<longleftrightarrow> t \<in> set (queued rq) \<and>
     (\<forall>u \<in> set (queued rq). effective_priority (th u) < effective_priority (th t) \<or>
        effective_priority (th u) = effective_priority (th t) \<and> deadline (th t) \<le> deadline (th u))"

section \<open>Lemmas\<close>

subsection \<open>The thread queue is a FIFO\<close>

lemma tq_iter_pop:
  assumes "tq_ok q"
  shows "case tq_pop_front q of None \<Rightarrow> tq_iter q = []
     | Some (t, q') \<Rightarrow> tq_iter q = t # tq_iter q' \<and> tq_ok q'"
  using assms
  by (auto simp: tq_pop_front_def tq_iter_def tq_ok_def Let_def Cons_nth_drop_Suc [symmetric])

lemma tq_is_empty_iff: "tq_is_empty q \<longleftrightarrow> tq_iter q = []"
  by (simp add: tq_is_empty_def tq_iter_def)

interpretation tq: fifo tq_new tq_push_back tq_pop_front tq_is_empty tq_iter tq_ok
proof
  show "tq_ok q \<Longrightarrow> tq_iter (tq_push_back x q) = tq_iter q @ [x]" for q x
    by (simp add: tq_iter_def tq_push_back_def tq_ok_def)
  show "tq_ok q \<Longrightarrow> tq_pop_front q = None \<longleftrightarrow> tq_iter q = []" for q
    by (auto simp: tq_pop_front_def tq_iter_def Let_def)
  show "tq_ok q \<Longrightarrow> tq_pop_front q = Some (x, q') \<Longrightarrow> tq_iter q = x # tq_iter q' \<and> tq_ok q'" for q x q'
    using tq_iter_pop [of q] by simp
qed (auto simp: tq_new_def tq_ok_def tq_iter_def tq_push_back_def tq_is_empty_def)

lemma find_upt_takeWhile:
  "h \<le> length xs \<Longrightarrow> (case find (\<lambda>i. P (xs ! i)) [h..<length xs] of None \<Rightarrow> length xs | Some i \<Rightarrow> i) =
   h + length (takeWhile (\<lambda>x. \<not> P x) (drop h xs))"
proof (induction "length xs - h" arbitrary: h)
  case 0
  then show ?case by simp
next
  case (Suc n)
  then have lt: "h < length xs" by simp
  then have u: "[h..<length xs] = h # [Suc h..<length xs]" by (simp add: upt_conv_Cons)
  have d: "drop h xs = xs ! h # drop (Suc h) xs" using lt by (simp add: Cons_nth_drop_Suc)
  show ?case
  proof (cases "P (xs ! h)")
    case True
    then show ?thesis by (simp add: u d)
  next
    case False
    then show ?thesis using Suc.hyps(1) [of "Suc h"] Suc.hyps(2) lt by (simp add: u d)
  qed
qed

lemma tq_iter_insert:
  assumes "tq_ok q"
  shows "tq_iter (insert_sorted_by_deadline th t dl q) =
    takeWhile (\<lambda>x. \<not> dl < deadline (th x)) (tq_iter q) @ t #
    dropWhile (\<lambda>x. \<not> dl < deadline (th x)) (tq_iter q)"
    and "tq_ok (insert_sorted_by_deadline th t dl q)"
proof -
  let ?c = "tq_iter q" and ?P = "\<lambda>x. \<not> dl < deadline (th x)"
  let ?k = "length (takeWhile ?P ?c)"
  have p: "insert_pos th q dl = tq_head q + ?k"
    using find_upt_takeWhile [of "tq_head q" "tq_items q" "\<lambda>x. dl < deadline (th x)"] assms
    by (simp add: insert_pos_def tq_ok_def tq_iter_def)
  have le: "tq_head q + ?k \<le> length (tq_items q)"
    using length_takeWhile_le [of ?P ?c] assms by (simp add: tq_iter_def tq_ok_def)
  have "take ?k ?c = takeWhile ?P ?c" "drop ?k ?c = dropWhile ?P ?c"
    by (simp_all add: takeWhile_eq_take [symmetric] dropWhile_eq_drop [symmetric])
  moreover have "tq_iter (insert_sorted_by_deadline th t dl q) = take ?k ?c @ t # drop ?k ?c"
    using assms le
    by (simp add: insert_sorted_by_deadline_def p tq_iter_def tq_ok_def Let_def drop_take add.commute)
  ultimately show "tq_iter (insert_sorted_by_deadline th t dl q) = takeWhile ?P ?c @ t # dropWhile ?P ?c"
    by simp
  show "tq_ok (insert_sorted_by_deadline th t dl q)"
    using le by (simp add: insert_sorted_by_deadline_def p tq_ok_def Let_def)
qed

lemma by_deadline_insert:
  assumes "by_deadline th c"
  shows "by_deadline th (takeWhile (\<lambda>x. \<not> deadline (th t) < deadline (th x)) c @ t #
    dropWhile (\<lambda>x. \<not> deadline (th t) < deadline (th x)) c)"
proof -
  let ?P = "\<lambda>x. \<not> deadline (th t) < deadline (th x)"
  have s: "sorted_wrt (\<lambda>a b. deadline (th a) \<le> deadline (th b)) (takeWhile ?P c @ dropWhile ?P c)"
    using assms by (simp add: by_deadline_def)
  have "deadline (th t) \<le> deadline (th x)" if "x \<in> set (dropWhile ?P c)" for x
  proof -
    from that obtain y ys where d: "dropWhile ?P c = y # ys" by (cases "dropWhile ?P c") auto
    then have "deadline (th t) < deadline (th y)" using hd_dropWhile [of ?P c] by simp
    moreover have "x = y \<or> deadline (th y) \<le> deadline (th x)"
      using s that d by (auto simp: sorted_wrt_append)
    ultimately show ?thesis by auto
  qed
  moreover have "deadline (th x) \<le> deadline (th t)" if "x \<in> set (takeWhile ?P c)" for x
    using set_takeWhileD [OF that] by (simp add: not_less)
  ultimately show ?thesis
    using s unfolding by_deadline_def sorted_wrt_append
    by (auto intro: order_trans)
qed

subsection \<open>Bitmap\<close>

lemma highest_bit:
  assumes "w \<noteq> (0 :: u64)"
  shows "leading_zeros w \<le> 63" and "bit w (63 - leading_zeros w)" and "\<And>p. bit w p \<Longrightarrow> p \<le> 63 - leading_zeros w"
proof -
  let ?l = "rev [0..<64]"
  let ?t = "takeWhile (\<lambda>i. \<not> bit w i) ?l"
  have nth: "?l ! k = 63 - k" if "k < 64" for k using that by (simp add: rev_nth)
  from assms obtain n where n: "bit w n" by (auto simp: bit_eq_iff)
  then have "n < 64" using bit_imp_le_length [of w n] by simp
  with n have "?t \<noteq> ?l" by (auto simp: takeWhile_eq_all_conv)
  then have "length ?t < length ?l"
    by (metis length_takeWhile_le order_le_less takeWhile_eq_take take_all_iff order_refl)
  then have lt: "leading_zeros w < 64" by (simp add: leading_zeros_def)
  then show "leading_zeros w \<le> 63" by simp
  have "bit w (?l ! length ?t)"
    using nth_length_takeWhile [of "\<lambda>i. \<not> bit w i" ?l] lt by (simp add: leading_zeros_def)
  then show "bit w (63 - leading_zeros w)" using lt nth by (simp add: leading_zeros_def)
  fix p assume p: "bit w p"
  then have p64: "p < 64" using bit_imp_le_length [of w p] by simp
  show "p \<le> 63 - leading_zeros w"
  proof (rule ccontr)
    assume "\<not> p \<le> 63 - leading_zeros w"
    then have k: "63 - p < length ?t" using p64 lt by (simp add: leading_zeros_def)
    then have "?t ! (63 - p) = ?l ! (63 - p)" by (rule takeWhile_nth)
    moreover have "\<not> bit w (?t ! (63 - p))" using nth_mem [OF k] by (auto dest: set_takeWhileD)
    ultimately show False using p p64 nth [of "63 - p"] by simp
  qed
qed


subsection \<open>Enqueue and pick\<close>

lemma rq_okD:
  assumes "rq_ok th rq"
  shows "length (queues rq) = 64" and "p < 64 \<Longrightarrow> tq_ok (queues rq ! p)"
    and "p < 64 \<Longrightarrow> by_deadline th (waiting_at rq p)"
    and "p < 64 \<Longrightarrow> bit (priority_bitmap rq) p \<longleftrightarrow> waiting_at rq p \<noteq> []"
  using assms by (auto simp: rq_ok_def NUM_PRIORITIES_def)

lemma queued_update:
  assumes "p < length (queues rq)"
  shows "mset (concat (map tq_iter ((queues rq)[p := q]))) + mset (waiting_at rq p) =
    mset (queued rq) + mset (tq_iter q)"
proof -
  let ?qs = "queues rq"
  have "?qs = take p ?qs @ ?qs ! p # drop (Suc p) ?qs" using assms by (rule id_take_nth_drop)
  then have "queued rq = concat (map tq_iter (take p ?qs @ ?qs ! p # drop (Suc p) ?qs))"
    unfolding queued_def by simp
  then show ?thesis using assms by (simp add: waiting_at_def upd_conv_take_nth_drop)
qed

lemma waiting_at_queued: "p < length (queues rq) \<Longrightarrow> set (waiting_at rq p) \<subseteq> set (queued rq)"
  using nth_mem by (fastforce simp: waiting_at_def queued_def)

lemma queued_waiting_at: "t \<in> set (queued rq) \<Longrightarrow> \<exists>p<length (queues rq). t \<in> set (waiting_at rq p)"
  by (auto simp: waiting_at_def queued_def in_set_conv_nth) (metis nth_mem)+

lemma by_deadline_cong:
  "(\<And>t. t \<in> set ts \<Longrightarrow> deadline (th' t) = deadline (th t)) \<Longrightarrow> by_deadline th' ts = by_deadline th ts"
  unfolding by_deadline_def by (induction ts) auto

lemma rq_ok_cong:
  assumes "\<And>t. t \<in> set (queued rq) \<Longrightarrow> deadline (th' t) = deadline (th t)" and "rq_ok th rq"
  shows "rq_ok th' rq"
proof -
  have "by_deadline th' (waiting_at rq p)" if "p < 64" for p
    using by_deadline_cong [of "waiting_at rq p" th' th] assms(1) waiting_at_queued [of p rq]
      rq_okD(1,3) [OF assms(2)] that by auto
  with assms(2) show ?thesis by (simp add: rq_ok_def NUM_PRIORITIES_def)
qed

lemma enqueue_eevdf_ok:
  assumes ok: "rq_ok th rq" and pri: "unat (effective_priority (th t)) < 64"
  shows "rq_ok th (enqueue_eevdf th t rq)"
    and "mset (queued (enqueue_eevdf th t rq)) = add_mset t (mset (queued rq))"
    and "set (waiting_at (enqueue_eevdf th t rq) (unat (effective_priority (th t)))) =
      insert t (set (waiting_at rq (unat (effective_priority (th t)))))"
    and "rq_filed th rq \<Longrightarrow> rq_filed th (enqueue_eevdf th t rq)"
proof -
  let ?p = "unat (effective_priority (th t))" and ?rq = "enqueue_eevdf th t rq"
  let ?q = "insert_sorted_by_deadline th t (deadline (th t)) (queues rq ! ?p)"
  have e: "?rq = rq\<lparr>queues := (queues rq)[?p := ?q], priority_bitmap := priority_bitmap rq OR push_bit ?p 1,
      thread_count := thread_count rq + 1\<rparr>"
    using pri by (simp add: enqueue_eevdf_def NUM_PRIORITIES_def Let_def)
  note d = rq_okD [OF ok] and i = tq_iter_insert [OF rq_okD(2) [OF ok pri], of th t "deadline (th t)"]
  have w: "waiting_at ?rq p = (if p = ?p then tq_iter ?q else waiting_at rq p)" if "p < 64" for p
    using that d(1) by (simp add: e waiting_at_def)
  have m: "mset (tq_iter ?q) = add_mset t (mset (waiting_at rq ?p))"
    unfolding i(1) waiting_at_def
    using mset_append [of "takeWhile P c" "dropWhile P c" for P c, symmetric] by simp
  show q: "mset (queued ?rq) = add_mset t (mset (queued rq))"
    using queued_update [of ?p rq ?q] pri d(1) m by (simp add: e queued_def)
  show at: "set (waiting_at ?rq ?p) = insert t (set (waiting_at rq ?p))"
    using w [OF pri] m by (metis set_mset_add_mset_insert set_mset_mset)
  show "rq_filed th ?rq" if "rq_filed th rq"
    unfolding rq_filed_def NUM_PRIORITIES_def
  proof (intro allI impI ballI)
    fix p u assume "p < 64" "u \<in> set (waiting_at ?rq p)"
    with that at show "unat (effective_priority (th u)) = p"
      by (cases "p = ?p") (auto simp: rq_filed_def NUM_PRIORITIES_def w)
  qed
  have "length (queued ?rq) = Suc (length (queued rq))"
    by (metis q size_add_mset size_mset)
  moreover have "by_deadline th (tq_iter ?q)"
    unfolding i(1) using by_deadline_insert d(3) [OF pri] by (simp add: waiting_at_def)
  moreover have "tq_iter ?q \<noteq> []" unfolding i(1) by simp
  ultimately show "rq_ok th ?rq"
    unfolding rq_ok_def NUM_PRIORITIES_def
    using ok d i(2) w pri by (auto simp: e rq_ok_def bit_simps nth_list_update)
qed

lemma rq_filed_cong:
  assumes "\<And>t. t \<in> set (queued rq) \<Longrightarrow> effective_priority (th' t) = effective_priority (th t)"
    and "length (queues rq) = 64" and "rq_filed th rq"
  shows "rq_filed th' rq"
  using assms waiting_at_queued [of _ rq] unfolding rq_filed_def NUM_PRIORITIES_def by (metis subsetD)

lemma front_is_best:
  assumes "is_front th rq t" and "rq_filed th rq" and len: "length (queues rq) = 64"
  shows "is_best th rq t"
proof -
  from assms(1) obtain p where p: "p < 64" "t \<in> set (waiting_at rq p)"
    and best: "\<And>p' u. p' < 64 \<Longrightarrow> u \<in> set (waiting_at rq p') \<Longrightarrow>
      p' < p \<or> p' = p \<and> deadline (th t) \<le> deadline (th u)"
    unfolding is_front_def by blast
  have f: "unat (effective_priority (th u)) = q" if "q < 64" "u \<in> set (waiting_at rq q)" for q u
    using assms(2) that by (simp add: rq_filed_def NUM_PRIORITIES_def)
  have "effective_priority (th u) < effective_priority (th t) \<or>
      effective_priority (th u) = effective_priority (th t) \<and> deadline (th t) \<le> deadline (th u)"
    if "u \<in> set (queued rq)" for u
  proof -
    from queued_waiting_at [OF that] len obtain q where "q < 64" "u \<in> set (waiting_at rq q)" by auto
    with best [OF this] f [OF this] f [OF p] show ?thesis
      by (auto simp: word_less_nat_alt word_unat_eq_iff)
  qed
  with p len waiting_at_queued [of p rq] show ?thesis by (auto simp: is_best_def)
qed

lemma pick_next_eevdf_ok:
  assumes ok: "rq_ok th rq"
  shows "case pick_next_eevdf th rq of
      (None, th', rq') \<Rightarrow> queued rq = [] \<and> th' = th \<and> rq' = rq
    | (Some t, th', rq') \<Rightarrow> is_front th rq t \<and> th' = th(t := (th t)\<lparr>tstate := Running\<rparr>) \<and>
        mset (queued rq) = add_mset t (mset (queued rq')) \<and> rq_ok th' rq' \<and>
        (rq_filed th rq \<longrightarrow> rq_filed th' rq')"
proof (cases "priority_bitmap rq = 0")
  case True
  then have "waiting_at rq p = []" if "p < 64" for p using rq_okD(4) [OF ok that] by simp
  then have "queued rq = []"
    using rq_okD(1) [OF ok] queued_waiting_at by (metis empty_iff list.set(1) list.set_intros(1) neq_Nil_conv)
  with True show ?thesis by (simp add: pick_next_eevdf_def)
next
  case False
  let ?h = "63 - leading_zeros (priority_bitmap rq)"
  note d = rq_okD [OF ok] and hb = highest_bit [OF False]
  have h: "?h < 64" by simp
  have ne: "waiting_at rq ?h \<noteq> []" using d(4) [OF h] hb(2) by simp
  with tq.pop_None [OF d(2) [OF h]] obtain t q where pop: "tq_pop_front (queues rq ! ?h) = Some (t, q)"
    by (auto simp: waiting_at_def)
  from tq.pop_Some [OF d(2) [OF h] pop] have it: "waiting_at rq ?h = t # tq_iter q" "tq_ok q"
    by (simp_all add: waiting_at_def)
  let ?th = "th(t := (th t)\<lparr>tstate := Running\<rparr>)"
  define r where "r = rq\<lparr>queues := (queues rq)[?h := q],
                 priority_bitmap :=
                   (if tq_is_empty q then priority_bitmap rq AND NOT (push_bit ?h 1) else priority_bitmap rq),
                 thread_count := thread_count rq - 1\<rparr>"
  have e: "pick_next_eevdf th rq = (Some t, ?th, r)"
    using False pop by (simp add: pick_next_eevdf_def Let_def r_def)
  have r: "queues r = (queues rq)[?h := q]" "thread_count r = thread_count rq - 1"
    "bit (priority_bitmap r) p \<longleftrightarrow> bit (priority_bitmap rq) p \<and> (p = ?h \<longrightarrow> tq_iter q \<noteq> [])" if "p < 64" for p
    using that by (auto simp: r_def bit_simps tq_is_empty_iff)
  have best: "is_front th rq t"
    unfolding is_front_def
  proof (intro exI [of _ ?h] conjI allI impI ballI)
    show "t \<in> set (waiting_at rq ?h)" using it(1) by simp
    fix p u assume "p < 64" and u: "u \<in> set (waiting_at rq p)"
    then have "bit (priority_bitmap rq) p" using d(4) by auto
    then have "p \<le> ?h" by (rule hb(3))
    moreover have "deadline (th t) \<le> deadline (th u)" if "p = ?h"
      using d(3) [OF h] it(1) u that by (auto simp: by_deadline_def)
    ultimately show "p < ?h \<or> p = ?h \<and> deadline (th t) \<le> deadline (th u)" by auto
  qed simp
  have m: "mset (queued rq) = add_mset t (mset (queued r))"
    using queued_update [of ?h rq q] h d(1) it(1) unfolding queued_def r(1) [OF h] by simp
  then have len: "length (queued rq) = Suc (length (queued r))" by (metis size_add_mset size_mset)
  have w: "waiting_at r p = (if p = ?h then tq_iter q else waiting_at rq p)" if "p < 64" for p
    using that d(1) by (simp add: waiting_at_def r(1) [OF h])
  have "rq_ok th r"
    unfolding rq_ok_def NUM_PRIORITIES_def
  proof (intro conjI allI impI)
    show "thread_count r = of_nat (length (queued r))"
      using ok len by (simp add: rq_ok_def r(2) [OF h])
    fix p :: nat assume p: "p < 64"
    show "by_deadline th (waiting_at r p)"
      using d(3) [OF p] d(3) [OF h] it(1) by (auto simp: w [OF p] by_deadline_def)
    show "tq_ok (queues r ! p)" using d(1,2) p it(2) by (simp add: nth_list_update r(1) [OF h])
    show "bit (priority_bitmap r) p = (waiting_at r p \<noteq> [])"
      using d(4) [OF p] it(1) by (auto simp: w [OF p] r(3) [OF p])
  qed (use d(1) r(1) [OF h] in simp)
  then have "rq_ok ?th r" by (rule rq_ok_cong [rotated]) simp
  moreover have "rq_filed ?th r" if f: "rq_filed th rq"
    unfolding rq_filed_def NUM_PRIORITIES_def
  proof (intro allI impI ballI)
    fix p u assume p: "p < 64" and u: "u \<in> set (waiting_at r p)"
    then have "u \<in> set (waiting_at rq p)" using it(1) by (auto simp: w split: if_splits)
    with f p show "unat (effective_priority (?th u)) = p" by (auto simp: rq_filed_def NUM_PRIORITIES_def)
  qed
  ultimately show ?thesis using best e m by simp
qed

subsection \<open>The consistency check\<close>

lemma check_prio_step:
  "check_prio th rq p (ok, n) =
     (ok \<and> (bit (priority_bitmap rq) p \<longleftrightarrow> waiting_at rq p \<noteq> []) \<and>
        (\<forall>t \<in> set (waiting_at rq p). tstate (th t) = Ready),
      n + length (waiting_at rq p))"
proof -
  have "drop_bit p (priority_bitmap rq) AND 1 \<noteq> 0 \<longleftrightarrow> bit (priority_bitmap rq) p"
    by (simp add: bit_iff_and_drop_bit_eq_1 and_one_eq odd_iff_mod_2_eq_one)
  then show ?thesis
    by (auto simp: Let_def tq_is_empty_iff waiting_at_def list_all_iff)
qed

lemma check_queues_exact:
  assumes len: "length (queues rq) = 64"
  shows "check_queues th rq ok =
    (ok \<and> (\<forall>p<64. bit (priority_bitmap rq) p \<longleftrightarrow> waiting_at rq p \<noteq> []) \<and>
       (\<forall>t \<in> set (queued rq). tstate (th t) = Ready), length (queued rq))"
proof -
  have "fold (check_prio th rq) ps (ok, n) =
      (ok \<and> (\<forall>p \<in> set ps. (bit (priority_bitmap rq) p \<longleftrightarrow> waiting_at rq p \<noteq> []) \<and>
         (\<forall>t \<in> set (waiting_at rq p). tstate (th t) = Ready)),
       n + (\<Sum>p\<leftarrow>ps. length (waiting_at rq p)))" for ps n
    by (induction ps arbitrary: ok n) (auto simp: check_prio_step simp del: check_prio.simps)
  then have "check_queues th rq ok =
      (ok \<and> (\<forall>p<64. (bit (priority_bitmap rq) p \<longleftrightarrow> waiting_at rq p \<noteq> []) \<and>
         (\<forall>t \<in> set (waiting_at rq p). tstate (th t) = Ready)),
       \<Sum>p\<leftarrow>[0..<64]. length (waiting_at rq p))"
    unfolding check_queues_def by (simp add: Ball_def)
  moreover have l: "map (\<lambda>p. length (waiting_at rq p)) [0..<64] = map (length \<circ> tq_iter) (queues rq)"
    using len by (intro nth_equalityI) (auto simp: waiting_at_def)
  moreover have r: "(\<forall>p<64. \<forall>t \<in> set (waiting_at rq p). P t) \<longleftrightarrow> (\<forall>t \<in> set (queued rq). P t)" for P
    using len queued_waiting_at [of _ rq] waiting_at_queued [of _ rq] by (metis subsetD)
  moreover have "(\<Sum>p\<leftarrow>[0..<64]. length (waiting_at rq p)) = length (queued rq)"
    unfolding l by (simp add: queued_def length_concat comp_def)
  ultimately have "check_queues th rq ok =
      (ok \<and> (\<forall>p<64. (bit (priority_bitmap rq) p \<longleftrightarrow> waiting_at rq p \<noteq> []) \<and>
         (\<forall>t \<in> set (waiting_at rq p). tstate (th t) = Ready)), length (queued rq))" by metis
  then show ?thesis using r [of "\<lambda>t. tstate (th t) = Ready"] by auto
qed

end
