(* ===== verification/Scheduler.thy ===== *)
theory Scheduler
  imports Ready_Queues Zicond
begin

unbundle bit_operations_syntax

text \<open>
  The scheduler, kernel/src/sched/mod.rs, over the NUMA queues of kernel/src/numa/mod.rs:
  \<open>schedule\<close>, load balancing, preemption modes, proxy execution, slice extension and
  cache-aware placement. The hart that runs is an argument. The context switch itself is the
  \<open>SwitchAction\<close> that \<open>schedule\<close> decides on; with no thread to run \<open>schedule\<close> ends in
  \<open>idle_loop\<close>, which never returns, so that arm is the outcome \<open>Hang\<close>. What the hart leaves
  behind in the scheduler state is in each case the result of \<open>schedule_locked\<close>.
\<close>

section \<open>Definitions\<close>

subsection \<open>Nodes and state\<close>

definition BALANCE_INTERVAL :: usize where "BALANCE_INTERVAL = 1000"
definition BALANCE_THRESHOLD :: u64 where "BALANCE_THRESHOLD = 25"

record NumaNode =
  nn_node_id :: u8
  cpu_mask :: u64
  memory_base :: usize
  memory_size :: usize
  node_free_pages :: usize
  node_total_pages :: usize
  local_pages :: usize

record SchedState =
  thr :: threads
  node_queues :: "NumaReadyQueues list"
  numa_nodes :: "NumaNode list"
  numa_node_count :: usize
  balance_tick :: usize
  current :: "tptr option"
  pick_count :: "u64 list"
  ctx_switch_count :: u64

text \<open>The static initial state: one node, empty queues, no current thread.\<close>

definition sched_init :: "threads \<Rightarrow> SchedState" where
  "sched_init th =
     \<lparr>thr = th, node_queues = replicate MAX_NODES NumaReadyQueues_new,
      numa_nodes = replicate MAX_NODES
        \<lparr>nn_node_id = 0, cpu_mask = 0xFF, memory_base = 0x80000000, memory_size = 128 * 1024 * 1024,
         node_free_pages = 0, node_total_pages = 0, local_pages = 0\<rparr>,
      numa_node_count = 1, balance_tick = 0, current = None, pick_count = replicate 4 0,
      ctx_switch_count = 0\<rparr>"

definition upd_thread :: "tptr \<Rightarrow> (Thread \<Rightarrow> Thread) \<Rightarrow> SchedState \<Rightarrow> SchedState" where
  "upd_thread t f s = s\<lparr>thr := (thr s)(t := f (thr s t))\<rparr>"

definition register_node :: "u8 \<Rightarrow> u64 \<Rightarrow> usize \<Rightarrow> usize \<Rightarrow> SchedState \<Rightarrow> SchedState" where
  "register_node nid cmask mem_base mem_size s =
     (if unat nid < MAX_NODES then
        s\<lparr>numa_nodes := (numa_nodes s)[unat nid :=
             \<lparr>nn_node_id = nid, cpu_mask = cmask, memory_base = mem_base, memory_size = mem_size,
              node_free_pages = mem_size div 4096, node_total_pages = mem_size div 4096, local_pages = 0\<rparr>],
          numa_node_count :=
            (if unat nid \<ge> numa_node_count s then unat nid + 1 else numa_node_count s)\<rparr>
      else s)"

definition hart_to_node :: "usize \<Rightarrow> SchedState \<Rightarrow> u8" where
  "hart_to_node hart s =
     (case find (\<lambda>i. drop_bit hart (cpu_mask (numa_nodes s ! i)) AND 1 \<noteq> 0) [0..<numa_node_count s] of
        Some i \<Rightarrow> nn_node_id (numa_nodes s ! i)
      | None \<Rightarrow> 0)"

definition addr_to_node :: "usize \<Rightarrow> SchedState \<Rightarrow> u8" where
  "addr_to_node pa s =
     (case find (\<lambda>i. memory_base (numa_nodes s ! i) \<le> pa \<and>
                    pa < usize_add (memory_base (numa_nodes s ! i)) (memory_size (numa_nodes s ! i)))
             [0..<numa_node_count s] of
        Some i \<Rightarrow> nn_node_id (numa_nodes s ! i)
      | None \<Rightarrow> 0)"

subsection \<open>Enqueue and pick\<close>

definition prepare_ready :: "Thread \<Rightarrow> Thread" where
  "prepare_ready t =
     (let t1 = (if tstate t = Running
                then t\<lparr>vruntime := vruntime t + WEIGHT_MAX div ucast (max (weight t) 1)\<rparr> else t)
      in (update_eevdf_deadline t1)\<lparr>tstate := Ready\<rparr>)"

definition enqueue_thread :: "tptr \<Rightarrow> SchedState \<Rightarrow> SchedState" where
  "enqueue_thread t s =
     (let node_idx = min (unat (node_id (thr s t))) (MAX_NODES - 1);
          s1 = upd_thread t prepare_ready s
      in s1\<lparr>node_queues := (node_queues s)[node_idx :=
               enqueue_eevdf (thr s1) t (node_queues s ! node_idx)]\<rparr>)"

definition pick_next :: "u8 \<Rightarrow> SchedState \<Rightarrow> tptr option \<times> SchedState" where
  "pick_next node s =
     (let node_idx = min (unat node) (MAX_NODES - 1);
          (r, th, rq) = pick_next_eevdf (thr s) (node_queues s ! node_idx)
      in (r, s\<lparr>thr := th, node_queues := (node_queues s)[node_idx := rq]\<rparr>))"

definition pick_next_for_hart :: "usize \<Rightarrow> SchedState \<Rightarrow> tptr option \<times> SchedState" where
  "pick_next_for_hart hart s = pick_next (hart_to_node hart s) s"

definition dequeue_highest :: "usize \<Rightarrow> SchedState \<Rightarrow> (tptr option \<times> SchedState) outcome" where
  "dequeue_highest hart s =
     (case pick_next_for_hart hart s of
        (None, s1) \<Rightarrow> Ret (None, s1)
      | (Some t, s1) \<Rightarrow>
          if hart < length (pick_count s1)
          then Ret (Some t, s1\<lparr>pick_count := (pick_count s1)[hart := pick_count s1 ! hart + 1]\<rparr>)
          else Panic)"

datatype SwitchAction = ContextSwitch tptr tptr | StartThread tptr

definition requeue_current :: "SchedState \<Rightarrow> SchedState" where
  "requeue_current s =
     (case current s of
        Some cur \<Rightarrow> (if tstate (thr s cur) = Running then enqueue_thread cur s else s)
      | None \<Rightarrow> s)"

text \<open>The part of \<open>schedule\<close> under \<open>SCHED_LOCK\<close>: requeue, pick the next thread, make it current.\<close>

definition schedule_locked :: "usize \<Rightarrow> SchedState \<Rightarrow> (tptr option \<times> SchedState) outcome" where
  "schedule_locked hart s =
     obind (dequeue_highest hart (requeue_current s)) (\<lambda>(nxt, s2).
         let s3 = (case nxt of
                     Some n \<Rightarrow> upd_thread n (\<lambda>t. t\<lparr>last_cpu := of_nat hart\<rparr>) s2
                   | None \<Rightarrow> s2)
         in Ret (nxt, s3\<lparr>current := nxt\<rparr>))"

definition schedule :: "usize \<Rightarrow> SchedState \<Rightarrow> (SwitchAction \<times> SchedState) outcome" where
  "schedule hart s =
     obind (schedule_locked hart s) (\<lambda>(nxt, s1).
       case (current s, nxt) of
         (Some old, Some new) \<Rightarrow>
           Ret (ContextSwitch old new, s1\<lparr>ctx_switch_count := ctx_switch_count s1 + 1\<rparr>)
       | (None, Some new) \<Rightarrow>
           Ret (StartThread new, s1\<lparr>ctx_switch_count := ctx_switch_count s1 + 1\<rparr>)
       | _ \<Rightarrow> Hang)"

definition start_scheduler :: "usize \<Rightarrow> tptr \<Rightarrow> SchedState \<Rightarrow> (SwitchAction \<times> SchedState) outcome" where
  "start_scheduler hart idle s = schedule hart (s\<lparr>current := Some idle\<rparr>)"

subsection \<open>Load balancing\<close>

fun scan_load :: "SchedState \<Rightarrow> usize \<Rightarrow> usize \<times> usize \<times> u64 \<times> u64 \<Rightarrow> usize \<times> usize \<times> u64 \<times> u64" where
  "scan_load s i (busiest, idlest, max_load, min_load) =
     (let load = thread_count (node_queues s ! i);
          (b, mx) = (if load > max_load then (i, load) else (busiest, max_load));
          (d, mn) = (if load < min_load then (i, load) else (idlest, min_load))
      in (b, d, mx, mn))"

definition balance_nodes :: "SchedState \<Rightarrow> usize \<times> usize \<times> u64 \<times> u64" where
  "balance_nodes s = fold (scan_load s) [0..<numa_node_count s] (0, 0, 0, - 1)"

definition migrate_one :: "usize \<Rightarrow> usize \<Rightarrow> SchedState \<Rightarrow> SchedState" where
  "migrate_one busiest idlest s =
     (let (fst', snd') = (if busiest < idlest then (busiest, idlest) else (idlest, busiest));
          (r, th, q_busy) = pick_next_eevdf (thr s) (node_queues s ! busiest)
      in case r of
           None \<Rightarrow> s\<lparr>thr := th, node_queues := (node_queues s)[busiest := q_busy]\<rparr>
         | Some t \<Rightarrow>
             (let th1 = th(t := (th t)\<lparr>node_id := (if busiest < idlest then of_nat snd' else of_nat fst'),
                                       tstate := Ready\<rparr>);
                  q_idle = enqueue_eevdf th1 t (node_queues s ! idlest)
              in s\<lparr>thr := th1, node_queues := (node_queues s)[busiest := q_busy, idlest := q_idle]\<rparr>))"

text \<open>
  Both queue locks are taken, lower index first; with \<open>busiest = idlest\<close> the second lock
  would never be granted.
\<close>

definition try_balance :: "SchedState \<Rightarrow> SchedState outcome" where
  "try_balance s =
     (let tick = balance_tick s;
          s1 = s\<lparr>balance_tick := usize_add tick 1\<rparr>
      in if tick mod BALANCE_INTERVAL \<noteq> 0 then Ret s1
         else if numa_node_count s1 < 2 then Ret s1
         else
           (let (busiest, idlest, max_load, min_load) = balance_nodes s1 in
            if (max_load - min_load) * 100 \<le> max_load * BALANCE_THRESHOLD then Ret s1
            else if busiest = idlest then Hang
            else Ret (migrate_one busiest idlest s1)))"

subsection \<open>Preemption, proxies, slice extension\<close>

definition check_preempt_lazy :: "Thread \<Rightarrow> bool" where
  "check_preempt_lazy t =
     (case preempt_mode t of
        Immediate \<Rightarrow> True
      | Lazy \<Rightarrow> remaining_ticks t = 0
      | PreemptNone \<Rightarrow> False)"

text \<open>The end of the timer interrupt (trap/mod.rs): charge a tick, then preempt if due.\<close>

definition timer_preempt :: "usize \<Rightarrow> SchedState \<Rightarrow> (SwitchAction option \<times> SchedState) outcome" where
  "timer_preempt hart s =
     (let (needs_resched, s1) =
        (case current s of
           Some t \<Rightarrow>
             (let s1 = (if remaining_ticks (thr s t) > 0
                        then upd_thread t (\<lambda>x. x\<lparr>remaining_ticks := remaining_ticks x - 1\<rparr>) s else s)
              in (check_preempt_lazy (thr s1 t), s1))
         | None \<Rightarrow> (True, s))
      in if needs_resched then obind (schedule hart s1) (\<lambda>(a, s2). Ret (Some a, s2))
         else Ret (None, s1))"

definition set_preempt_mode :: "tptr \<Rightarrow> PreemptMode \<Rightarrow> SchedState \<Rightarrow> SchedState" where
  "set_preempt_mode t mode = upd_thread t (\<lambda>x. x\<lparr>preempt_mode := mode\<rparr>)"

definition sys_sched_setpreempt ::
  "(u32 \<times> tptr option) list \<Rightarrow> u32 \<Rightarrow> usize \<Rightarrow> SchedState \<Rightarrow> usize result \<times> SchedState" where
  "sys_sched_setpreempt procs pid mode s =
     (case (if mode = 0 then Some PreemptNone else if mode = 1 then Some Lazy
            else if mode = 2 then Some Immediate else None) of
        None \<Rightarrow> (Inl ''invalid preempt mode'', s)
      | Some m \<Rightarrow>
          if pid = 0 then
            (case current s of
               None \<Rightarrow> (Inl ''no thread'', s)
             | Some t \<Rightarrow> (Inr 0, set_preempt_mode t m s))
          else
            (case find (\<lambda>(p, _). p = pid) procs of
               Some (_, Some t) \<Rightarrow> (Inr 0, set_preempt_mode t m s)
             | _ \<Rightarrow> (Inl ''pid not found'', s)))"

definition proxy_start :: "tptr \<Rightarrow> tptr \<Rightarrow> SchedState \<Rightarrow> SchedState" where
  "proxy_start blocker holder s =
     (let s1 = upd_thread blocker (\<lambda>t. t\<lparr>proxy_target := Some holder\<rparr>) s;
          s2 = upd_thread holder (\<lambda>t. t\<lparr>proxy_donor := Some blocker\<rparr>) s1;
          blk_prio = effective_priority (thr s2 blocker);
          hld_prio = effective_priority (thr s2 holder);
          s3 = (if blk_prio > hld_prio
                then upd_thread holder (\<lambda>t. t\<lparr>effective_priority := blk_prio\<rparr>) s2 else s2);
          blk_ticks = remaining_ticks (thr s3 blocker)
      in if blk_ticks > remaining_ticks (thr s3 holder)
         then upd_thread holder (\<lambda>t. t\<lparr>remaining_ticks := blk_ticks\<rparr>) s3 else s3)"

definition proxy_end :: "tptr \<Rightarrow> SchedState \<Rightarrow> SchedState" where
  "proxy_end holder s =
     (let s1 = (case proxy_donor (thr s holder) of
                  Some donor \<Rightarrow> upd_thread donor (\<lambda>t. t\<lparr>proxy_target := None\<rparr>) s
                | None \<Rightarrow> s);
          s2 = upd_thread holder (\<lambda>t. t\<lparr>proxy_donor := None\<rparr>) s1
      in upd_thread holder (\<lambda>t. t\<lparr>effective_priority := base_priority t\<rparr>) s2)"

definition resolve_proxy :: "SchedState \<Rightarrow> tptr option" where
  "resolve_proxy s =
     (case current s of
        None \<Rightarrow> None
      | Some c \<Rightarrow> if proxy_donor (thr s c) \<noteq> None then Some c else None)"

definition SLICE_EXTENSION_TICKS :: u64 where "SLICE_EXTENSION_TICKS = 5"
definition SLICE_EXTENSION_MAX :: u64 where "SLICE_EXTENSION_MAX = 3"

definition u64_saturating_add :: "u64 \<Rightarrow> u64 \<Rightarrow> u64" where
  "u64_saturating_add a b = (if a + b < a then - 1 else a + b)"

definition request_slice_extension :: "SchedState \<Rightarrow> SchedState" where
  "request_slice_extension s =
     (case current s of
        None \<Rightarrow> s
      | Some c \<Rightarrow>
          if slice_extension_enabled (thr s c) \<and> slice_extension_count (thr s c) < SLICE_EXTENSION_MAX
          then upd_thread c (\<lambda>t. t\<lparr>remaining_ticks := u64_saturating_add (remaining_ticks t) SLICE_EXTENSION_TICKS,
                                    slice_extension_count := slice_extension_count t + 1\<rparr>) s
          else s)"

definition sys_set_slice_ext :: "bool \<Rightarrow> SchedState \<Rightarrow> usize result \<times> SchedState" where
  "sys_set_slice_ext enable s =
     (case current s of
        None \<Rightarrow> (Inl ''no thread'', s)
      | Some c \<Rightarrow>
          (Inr 0, upd_thread c (\<lambda>t. let t1 = t\<lparr>slice_extension_enabled := enable\<rparr>
                                     in if \<not> enable then t1\<lparr>slice_extension_count := 0\<rparr> else t1) s))"

definition pick_higher_priority_thread :: "zicond_hw \<Rightarrow> threads \<Rightarrow> u64 \<Rightarrow> u64 \<Rightarrow> u64" where
  "pick_higher_priority_thread hw th a b =
     (let ta = th (unat a); tb = th (unat b);
          select_a = should_select_thread hw (ucast (effective_priority ta)) (ucast (effective_priority tb))
                       (deadline ta) (deadline tb)
      in cmov_u64 hw select_a a b)"

definition is_higher_priority :: "zicond_hw \<Rightarrow> threads \<Rightarrow> tptr \<Rightarrow> tptr \<Rightarrow> bool" where
  "is_higher_priority hw th a b =
     should_select_thread hw (ucast (effective_priority (th a))) (ucast (effective_priority (th b)))
       (deadline (th a)) (deadline (th b))"

subsection \<open>Cache-aware placement\<close>

text \<open>The current thread of each of the four harts is the list \<open>pc\<close>.\<close>

definition cpu_is_idle :: "threads \<Rightarrow> tptr option list \<Rightarrow> usize \<Rightarrow> bool" where
  "cpu_is_idle th pc hart =
     (if hart \<ge> 4 then True
      else case pc ! hart of Some t \<Rightarrow> tid (th t) = 0 | None \<Rightarrow> True)"

record CacheTopology =
  cpu_to_cache_domain :: "u8 list"
  cache_domain_cpus :: "u64 list"

definition CacheTopology_discover :: CacheTopology where
  "CacheTopology_discover =
     \<lparr>cpu_to_cache_domain = [0, 0, 0, 0, 0, 0, 0, 0], cache_domain_cpus = [0xFF, 0, 0, 0]\<rparr>"

definition find_idle_in_cache_domain ::
  "threads \<Rightarrow> tptr option list \<Rightarrow> CacheTopology \<Rightarrow> u8 \<Rightarrow> u8 option outcome" where
  "find_idle_in_cache_domain th pc topo preferred_cpu =
     (if unat preferred_cpu \<ge> length (cpu_to_cache_domain topo) then Panic
      else
        (let dom = unat (cpu_to_cache_domain topo ! unat preferred_cpu) in
         if dom \<ge> length (cache_domain_cpus topo) then Panic
         else
           (let siblings = cache_domain_cpus topo ! dom in
            Ret (find (\<lambda>cpu. drop_bit (unat cpu) siblings AND 1 \<noteq> 0 \<and> cpu_is_idle th pc (unat cpu))
                   (map (\<lambda>off. (preferred_cpu + of_nat off) AND 7) [0..<8])))))"

definition migration_cost :: "CacheTopology \<Rightarrow> u8 \<Rightarrow> u8 \<Rightarrow> u8 outcome" where
  "migration_cost topo from to =
     (if from = to then Ret 0
      else if unat from \<ge> length (cpu_to_cache_domain topo) \<or> unat to \<ge> length (cpu_to_cache_domain topo)
      then Panic
      else if cpu_to_cache_domain topo ! unat from = cpu_to_cache_domain topo ! unat to then Ret 1
      else Ret 2)"

definition cas_wake_select ::
  "tptr option list \<Rightarrow> u8 \<Rightarrow> CacheTopology \<Rightarrow> SchedState \<Rightarrow> u8 outcome" where
  "cas_wake_select pc task_last_cpu topo s =
     (if cpu_is_idle (thr s) pc (unat task_last_cpu) then Ret task_last_cpu
      else obind (find_idle_in_cache_domain (thr s) pc topo task_last_cpu) (\<lambda>r.
        case r of
          Some cpu \<Rightarrow> Ret cpu
        | None \<Rightarrow>
            (let node = unat (hart_to_node (unat task_last_cpu) s);
                 node_mask = (if node < MAX_NODES then cpu_mask (numa_nodes s ! node) else 0xFF)
             in case find (\<lambda>cpu. drop_bit cpu node_mask AND 1 \<noteq> 0 \<and> cpu_is_idle (thr s) pc cpu) [0..<8] of
                  Some cpu \<Rightarrow> Ret (of_nat cpu)
                | None \<Rightarrow>
                    (case find (cpu_is_idle (thr s) pc) [0..<8] of
                       Some cpu \<Rightarrow> Ret (of_nat cpu)
                     | None \<Rightarrow> Ret task_last_cpu))))"

definition migration_cost_between :: "CacheTopology option \<Rightarrow> u8 \<Rightarrow> u8 \<Rightarrow> u8 outcome" where
  "migration_cost_between topo from to =
     (case topo of
        Some tp \<Rightarrow> migration_cost tp from to
      | None \<Rightarrow> if from = to then Ret 0 else Ret 2)"

definition check_node_queues :: "u8 \<Rightarrow> bool \<Rightarrow> SchedState \<Rightarrow> bool \<times> usize" where
  "check_node_queues node ok s =
     check_queues (thr s) (node_queues s ! min (unat node) (MAX_NODES - 1)) ok"

section \<open>Invariant\<close>

definition all_queued :: "SchedState \<Rightarrow> tptr list" where
  "all_queued s = concat (map queued (node_queues s))"

definition queues_inv :: "SchedState \<Rightarrow> bool" where
  "queues_inv s \<longleftrightarrow>
     length (node_queues s) = MAX_NODES \<and> (\<forall>n < MAX_NODES. rq_ok (thr s) (node_queues s ! n)) \<and>
     distinct (all_queued s) \<and> (\<forall>t \<in> set (all_queued s). tstate (thr s t) = Ready)"

definition sched_inv :: "SchedState \<Rightarrow> bool" where
  "sched_inv s \<longleftrightarrow>
     queues_inv s \<and> length (pick_count s) = 4 \<and>
     (\<forall>c. current s = Some c \<longrightarrow> c \<notin> set (all_queued s))"

text \<open>
  Every queued thread waits in the queue of its effective priority. Threads are filed when
  they are enqueued; an operation that later changes the priority of a queued thread
  (\<open>proxy_start\<close>, \<open>sys_sched_setparam\<close>) leaves it where it is.
\<close>

definition filed :: "SchedState \<Rightarrow> bool" where
  "filed s \<longleftrightarrow> (\<forall>n < MAX_NODES. rq_filed (thr s) (node_queues s ! n))"

text \<open>Priorities stay below the number of queues.\<close>

definition prio_ok :: "threads \<Rightarrow> bool" where
  "prio_ok th \<longleftrightarrow> (\<forall>t. unat (effective_priority (th t)) < NUM_PRIORITIES \<and>
     unat (base_priority (th t)) < NUM_PRIORITIES)"

text \<open>The threads that are to get the processor: queued ones and the running one.\<close>

definition runnable :: "SchedState \<Rightarrow> tptr set" where
  "runnable s = set (all_queued s) \<union> {c. current s = Some c \<and> tstate (thr s c) = Running}"

definition place :: "tptr \<Rightarrow> (Thread \<Rightarrow> Thread) \<Rightarrow> usize \<Rightarrow> SchedState \<Rightarrow> SchedState" where
  "place t f n s =
     (let s1 = upd_thread t f s
      in s1\<lparr>node_queues := (node_queues s)[n := enqueue_eevdf (thr s1) t (node_queues s ! n)]\<rparr>)"

definition load :: "SchedState \<Rightarrow> usize \<Rightarrow> u64" where
  "load s i = thread_count (node_queues s ! i)"

section \<open>Lemmas\<close>

lemma prepare_ready_fields [simp]:
  "tstate (prepare_ready t) = Ready" "effective_priority (prepare_ready t) = effective_priority t"
  "base_priority (prepare_ready t) = base_priority t" "node_id (prepare_ready t) = node_id t"
  by (simp_all add: prepare_ready_def update_eevdf_deadline_def Let_def)

lemma all_queued_update:
  assumes "n < length nqs"
  shows "mset (concat (map queued (nqs[n := rq]))) + mset (queued (nqs ! n)) =
    mset (concat (map queued nqs)) + mset (queued rq)"
proof -
  have "nqs = take n nqs @ nqs ! n # drop (Suc n) nqs" using assms by (rule id_take_nth_drop)
  then have "concat (map queued nqs) = concat (map queued (take n nqs @ nqs ! n # drop (Suc n) nqs))" by simp
  then show ?thesis using assms by (simp add: upd_conv_take_nth_drop)
qed

lemma queued_all_queued: "n < length (node_queues s) \<Longrightarrow> set (queued (node_queues s ! n)) \<subseteq> set (all_queued s)"
  using nth_mem by (fastforce simp: all_queued_def)

text \<open>Replacing one node's queues and the thread store.\<close>

lemma queues_inv_update:
  assumes inv: "queues_inv s" and n: "n < MAX_NODES"
    and s': "node_queues s' = (node_queues s)[n := rq]"
    and ok: "rq_ok (thr s') rq"
    and d: "distinct (all_queued s')"
    and same: "\<And>u. u \<in> set (all_queued s) \<Longrightarrow> u \<in> set (all_queued s') \<Longrightarrow> deadline (thr s' u) = deadline (thr s u)"
    and sub: "\<And>k. k < MAX_NODES \<Longrightarrow> k \<noteq> n \<Longrightarrow> set (queued (node_queues s ! k)) \<subseteq> set (all_queued s')"
    and rdy: "\<And>u. u \<in> set (all_queued s') \<Longrightarrow> tstate (thr s' u) = Ready"
  shows "queues_inv s'"
proof -
  have len: "length (node_queues s) = MAX_NODES" using inv by (simp add: queues_inv_def)
  have "rq_ok (thr s') (node_queues s' ! k)" if k: "k < MAX_NODES" for k
  proof (cases "k = n")
    case True
    with ok n len s' show ?thesis by simp
  next
    case False
    have "rq_ok (thr s) (node_queues s ! k)" using inv k by (simp add: queues_inv_def)
    moreover have "deadline (thr s' u) = deadline (thr s u)" if "u \<in> set (queued (node_queues s ! k))" for u
    proof (rule same)
      show "u \<in> set (all_queued s)" using queued_all_queued [of k s] that k len by auto
      show "u \<in> set (all_queued s')" using sub [OF k False] that by auto
    qed
    ultimately have "rq_ok (thr s') (node_queues s ! k)" by (rule rq_ok_cong [rotated])
    with False s' show ?thesis by simp
  qed
  then show ?thesis using d rdy len s' by (simp add: queues_inv_def)
qed

lemma enqueue_thread_place:
  "enqueue_thread t s = place t prepare_ready (min (unat (node_id (thr s t))) (MAX_NODES - 1)) s"
  by (simp add: enqueue_thread_def place_def Let_def)

lemma place_fields [simp]:
  "thr (place t f n s) = (thr s)(t := f (thr s t))" "current (place t f n s) = current s"
  "pick_count (place t f n s) = pick_count s"
  by (simp_all add: place_def upd_thread_def Let_def)

lemma place_inv:
  assumes inv: "queues_inv s" and n: "n < MAX_NODES" and new: "t \<notin> set (all_queued s)"
    and pri: "unat (effective_priority (f (thr s t))) < NUM_PRIORITIES" and rdy: "tstate (f (thr s t)) = Ready"
  shows "queues_inv (place t f n s)" and "set (all_queued (place t f n s)) = insert t (set (all_queued s))"
    and "filed s \<Longrightarrow> filed (place t f n s)"
proof -
  let ?s = "place t f n s"
  have len: "length (node_queues s) = MAX_NODES" using inv by (simp add: queues_inv_def)
  note th = place_fields(1) [of t f n s]
  let ?rq = "enqueue_eevdf (thr ?s) t (node_queues s ! n)"
  have nq: "node_queues ?s = (node_queues s)[n := ?rq]"
    by (simp add: place_def upd_thread_def Let_def)
  have "rq_ok (thr s) (node_queues s ! n)" using inv n by (simp add: queues_inv_def)
  moreover have other: "thr ?s u = thr s u" if "u \<in> set (queued (node_queues s ! k))" "k < MAX_NODES" for u k
    using that new queued_all_queued [of k s] len by auto
  ultimately have "rq_ok (thr ?s) (node_queues s ! n)" using n by (intro rq_ok_cong [of _ "thr ?s" "thr s"]) auto
  note e = enqueue_eevdf_ok [OF this, of t]
  have p: "unat (effective_priority (thr ?s t)) < 64" using pri by (simp add: NUM_PRIORITIES_def)
  have m: "mset (all_queued ?s) = add_mset t (mset (all_queued s))"
    using all_queued_update [of n "node_queues s" ?rq] n len e(2) [OF p]
    unfolding all_queued_def nq by simp
  then show set_eq: "set (all_queued ?s) = insert t (set (all_queued s))"
    by (metis set_mset_add_mset_insert set_mset_mset)
  show "filed ?s" if fl: "filed s"
    unfolding filed_def
  proof (intro allI impI)
    fix k assume k: "k < MAX_NODES"
    have "length (queues (node_queues s ! k)) = 64"
      using inv k rq_okD(1) [of "thr s" "node_queues s ! k"] by (simp add: queues_inv_def)
    then have "rq_filed (thr ?s) (node_queues s ! k)"
      using rq_filed_cong [of "node_queues s ! k" "thr ?s" "thr s"] other k fl by (simp add: filed_def)
    with e(4) [OF p] k n len show "rq_filed (thr ?s) (node_queues ?s ! k)"
      by (cases "k = n") (simp_all add: nq)
  qed
  show "queues_inv ?s"
  proof (rule queues_inv_update [OF inv n nq e(1) [OF p]])
    have "mset (all_queued ?s) = mset (t # all_queued s)" using m by simp
    then show "distinct (all_queued ?s)"
      using inv new by (simp add: mset_eq_imp_distinct_iff [of "all_queued ?s" "t # all_queued s"] queues_inv_def)
    show "deadline (thr ?s u) = deadline (thr s u)" if "u \<in> set (all_queued s)" for u
      using that new by auto
    show "set (queued (node_queues s ! k)) \<subseteq> set (all_queued ?s)" if "k < MAX_NODES" for k
      using queued_all_queued [of k s] that len by (auto simp: set_eq)
    show "tstate (thr ?s u) = Ready" if "u \<in> set (all_queued ?s)" for u
      using that inv rdy by (auto simp: set_eq queues_inv_def)
  qed
qed

lemma enqueue_thread_inv:
  assumes "queues_inv s" and "t \<notin> set (all_queued s)"
    and "unat (effective_priority (thr s t)) < NUM_PRIORITIES"
  shows "queues_inv (enqueue_thread t s)" and "set (all_queued (enqueue_thread t s)) = insert t (set (all_queued s))"
    and "thr (enqueue_thread t s) = (thr s)(t := prepare_ready (thr s t))"
    and "current (enqueue_thread t s) = current s" and "pick_count (enqueue_thread t s) = pick_count s"
    and "filed s \<Longrightarrow> filed (enqueue_thread t s)"
  using place_inv [OF assms(1) _ assms(2), of "min (unat (node_id (thr s t))) (MAX_NODES - 1)" prepare_ready] assms(3)
  by (simp_all add: enqueue_thread_place MAX_NODES_def)

lemma pick_next_inv:
  assumes inv: "queues_inv s" and n: "n = min (unat node) (MAX_NODES - 1)"
  shows "case pick_next node s of
      (None, s') \<Rightarrow> s' = s \<and> queued (node_queues s ! n) = []
    | (Some t, s') \<Rightarrow> is_front (thr s) (node_queues s ! n) t \<and> queues_inv s' \<and> (filed s \<longrightarrow> filed s') \<and>
        set (all_queued s) = insert t (set (all_queued s')) \<and> t \<notin> set (all_queued s') \<and>
        thr s' = (thr s)(t := (thr s t)\<lparr>tstate := Running\<rparr>) \<and> current s' = current s \<and>
        pick_count s' = pick_count s \<and> ctx_switch_count s' = ctx_switch_count s"
proof -
  have n8: "n < MAX_NODES" by (simp add: n MAX_NODES_def)
  have len: "length (node_queues s) = MAX_NODES" using inv by (simp add: queues_inv_def)
  have ok: "rq_ok (thr s) (node_queues s ! n)" using inv n8 by (simp add: queues_inv_def)
  note P = pick_next_eevdf_ok [OF ok]
  obtain r th rq where e: "pick_next_eevdf (thr s) (node_queues s ! n) = (r, th, rq)"
    by (metis prod_cases3)
  define s' where "s' = s\<lparr>thr := th, node_queues := (node_queues s)[n := rq]\<rparr>"
  have pn: "pick_next node s = (r, s')" 
    unfolding pick_next_def Let_def n [symmetric] e by (simp add: s'_def)
  show ?thesis
  proof (cases r)
    case None
    with P e have "queued (node_queues s ! n) = []" "th = thr s" "rq = node_queues s ! n" by auto
    then have "s' = s" by (simp add: s'_def)
    with None pn \<open>queued _ = []\<close> show ?thesis by simp
  next
    case (Some t)
    with P e have p: "is_front (thr s) (node_queues s ! n) t" "th = (thr s)(t := (thr s t)\<lparr>tstate := Running\<rparr>)"
      "mset (queued (node_queues s ! n)) = add_mset t (mset (queued rq))" "rq_ok th rq"
      "rq_filed (thr s) (node_queues s ! n) \<Longrightarrow> rq_filed th rq" by auto
    have f: "thr s' = th" "node_queues s' = (node_queues s)[n := rq]" by (simp_all add: s'_def)
    have m: "mset (all_queued s) = add_mset t (mset (all_queued s'))"
      using all_queued_update [of n "node_queues s" rq] n8 len p(3) unfolding all_queued_def f(2) by simp
    have "mset (all_queued s) = mset (t # all_queued s')" using m by simp
    then have "distinct (t # all_queued s')"
      using inv mset_eq_imp_distinct_iff unfolding queues_inv_def by blast
    then have nt: "t \<notin> set (all_queued s')" "distinct (all_queued s')" by simp_all
    have set_eq: "set (all_queued s) = insert t (set (all_queued s'))"
      by (metis m set_mset_add_mset_insert set_mset_mset)
    have "filed s'" if "filed s"
      unfolding filed_def
    proof (intro allI impI)
      fix k assume k: "k < MAX_NODES"
      have "rq_filed th (node_queues s ! k)" using that k by (auto simp: filed_def rq_filed_def p(2))
      with p(5) that k n8 len show "rq_filed (thr s') (node_queues s' ! k)"
        by (cases "k = n") (simp_all add: f filed_def)
    qed
    moreover have "queues_inv s'"
    proof (rule queues_inv_update [OF inv n8 f(2) _ nt(2)])
      show "rq_ok (thr s') rq" using p(4) f by simp
      show "deadline (thr s' u) = deadline (thr s u)" for u by (simp add: f p(2))
      fix k assume k: "k < MAX_NODES" "k \<noteq> n"
      have "k < length (node_queues s')" "node_queues s' ! k = node_queues s ! k" using k len f by auto
      then show "set (queued (node_queues s ! k)) \<subseteq> set (all_queued s')"
        using queued_all_queued [of k s'] by auto
    next
      fix u assume u: "u \<in> set (all_queued s')"
      with nt(1) set_eq inv show "tstate (thr s' u) = Ready" by (auto simp: f p(2) queues_inv_def)
    qed
    ultimately show ?thesis using Some pn p set_eq nt(1) f by (simp add: s'_def)
  qed
qed


subsection \<open>Scheduling\<close>

lemma requeue_current_inv:
  assumes inv: "sched_inv s" and pri: "prio_ok (thr s)"
  shows "queues_inv (requeue_current s)" and "set (all_queued (requeue_current s)) = runnable s"
    and "prio_ok (thr (requeue_current s))" and "current (requeue_current s) = current s"
    and "pick_count (requeue_current s) = pick_count s"
    and "\<And>t. t \<notin> runnable s \<Longrightarrow> thr (requeue_current s) t = thr s t"
    and "filed s \<Longrightarrow> filed (requeue_current s)"
proof -
  have q: "queues_inv s" using inv by (simp add: sched_inv_def)
  have "queues_inv (requeue_current s) \<and> set (all_queued (requeue_current s)) = runnable s \<and>
    prio_ok (thr (requeue_current s)) \<and> current (requeue_current s) = current s \<and>
    pick_count (requeue_current s) = pick_count s \<and>
    (\<forall>t. t \<notin> runnable s \<longrightarrow> thr (requeue_current s) t = thr s t) \<and> (filed s \<longrightarrow> filed (requeue_current s))"
  proof (cases "\<exists>c. current s = Some c \<and> tstate (thr s c) = Running")
    case True
    then obtain c where c: "current s = Some c" "tstate (thr s c) = Running" by blast
    have "c \<notin> set (all_queued s)" using inv c by (simp add: sched_inv_def)
    moreover have "unat (effective_priority (thr s c)) < NUM_PRIORITIES" using pri by (simp add: prio_ok_def)
    moreover have "requeue_current s = enqueue_thread c s" using c by (simp add: requeue_current_def)
    ultimately show ?thesis
      using enqueue_thread_inv [OF q, of c] c pri by (auto simp: runnable_def prio_ok_def)
  next
    case False
    then have "requeue_current s = s" by (auto simp: requeue_current_def split: option.splits)
    with False q pri show ?thesis by (auto simp: runnable_def)
  qed
  then show "queues_inv (requeue_current s)" and "set (all_queued (requeue_current s)) = runnable s"
    and "prio_ok (thr (requeue_current s))" and "current (requeue_current s) = current s"
    and "pick_count (requeue_current s) = pick_count s"
    and "\<And>t. t \<notin> runnable s \<Longrightarrow> thr (requeue_current s) t = thr s t"
    and "filed s \<Longrightarrow> filed (requeue_current s)" by simp_all
qed

lemma queues_inv_cong:
  assumes "queues_inv s" and "node_queues s' = node_queues s"
    and "\<And>t. deadline (thr s' t) = deadline (thr s t)" and "\<And>t. t \<in> set (all_queued s) \<Longrightarrow> tstate (thr s' t) = tstate (thr s t)"
  shows "queues_inv s'"
proof -
  have "all_queued s' = all_queued s" by (simp add: all_queued_def assms(2))
  moreover have "rq_ok (thr s') (node_queues s ! n)" if "n < MAX_NODES" for n
    using assms(1,3) that by (intro rq_ok_cong [of _ "thr s'" "thr s"]) (auto simp: queues_inv_def)
  ultimately show ?thesis using assms by (simp add: queues_inv_def)
qed

lemma schedule_spec:
  assumes inv: "sched_inv s" and pri: "prio_ok (thr s)" and hart: "hart < 4"
    and s1: "s1 = requeue_current s" and n: "n = min (unat (hart_to_node hart s1)) (MAX_NODES - 1)"
  shows "\<exists>nxt s'. schedule_locked hart s = Ret (nxt, s') \<and> sched_inv s' \<and> prio_ok (thr s') \<and>
    runnable s' = runnable s \<and> (filed s \<longrightarrow> filed s') \<and> current s' = nxt \<and>
    (\<forall>t. t \<notin> runnable s \<longrightarrow> thr s' t = thr s t) \<and>
    (case nxt of
       None \<Rightarrow> queued (node_queues s1 ! n) = []
     | Some t \<Rightarrow> is_front (thr s1) (node_queues s1 ! n) t \<and> tstate (thr s' t) = Running \<and>
         last_cpu (thr s' t) = of_nat hart)"
proof -
  note R = requeue_current_inv [OF inv pri, folded s1]
  have pc: "length (pick_count s) = 4" using inv by (simp add: sched_inv_def)
  note P = pick_next_inv [OF R(1) n]
  obtain r s2 where e: "pick_next (hart_to_node hart s1) s1 = (r, s2)" by (cases "pick_next (hart_to_node hart s1) s1")
  show ?thesis
  proof (cases r)
    case None
    with P e have "s2 = s1" "queued (node_queues s1 ! n) = []" by auto
    moreover have "schedule_locked hart s = Ret (None, s1\<lparr>current := None\<rparr>)"
      using None e \<open>s2 = s1\<close>
      by (simp add: schedule_locked_def dequeue_highest_def pick_next_for_hart_def s1 [symmetric])
    moreover have "all_queued (s1\<lparr>current := None\<rparr>) = all_queued s1" by (simp add: all_queued_def)
    ultimately show ?thesis
      using R pc by (auto simp: sched_inv_def runnable_def queues_inv_def filed_def)
  next
    case (Some t)
    with P e have p: "is_front (thr s1) (node_queues s1 ! n) t" "queues_inv s2"
      "set (all_queued s1) = insert t (set (all_queued s2))" "t \<notin> set (all_queued s2)"
      "thr s2 = (thr s1)(t := (thr s1 t)\<lparr>tstate := Running\<rparr>)" "pick_count s2 = pick_count s1"
      "filed s1 \<Longrightarrow> filed s2" by auto
    define s4 where "s4 = (upd_thread t (\<lambda>x. x\<lparr>last_cpu := of_nat hart\<rparr>)
      (s2\<lparr>pick_count := (pick_count s2)[hart := pick_count s2 ! hart + 1]\<rparr>))\<lparr>current := Some t\<rparr>"
    have f: "thr s4 = (thr s2)(t := (thr s2 t)\<lparr>last_cpu := of_nat hart\<rparr>)" "node_queues s4 = node_queues s2"
      "current s4 = Some t" "length (pick_count s4) = 4"
      using p(6) R(5) pc by (simp_all add: s4_def upd_thread_def)
    have aq: "all_queued s4 = all_queued s2" by (simp add: all_queued_def f(2))
    have "schedule_locked hart s = Ret (Some t, s4)"
      using Some e hart p(6) R(5) pc
      by (simp add: schedule_locked_def dequeue_highest_def pick_next_for_hart_def s1 [symmetric] s4_def)
    moreover have "queues_inv s4"
      using p(2) by (rule queues_inv_cong) (auto simp: f)
    moreover have "runnable s4 = runnable s"
      using p(3) R(2) aq by (auto simp: runnable_def f p(5))
    moreover have "prio_ok (thr s4)" using R(3) by (auto simp: prio_ok_def f p(5))
    moreover have "filed s4" if "filed s"
      using p(7) R(7) [OF that] by (auto simp: filed_def rq_filed_def f)
    moreover have "thr s4 u = thr s u" if "u \<notin> runnable s" for u
      using that R(2) R(6) [OF that] p(3) by (auto simp: f p(5))
    ultimately show ?thesis
      using p f aq by (auto simp: sched_inv_def)
  qed
qed


subsection \<open>Balancing\<close>

lemma scan_load_step:
  "scan_load s i (b, d, mx, mn) =
     (if load s i > mx then i else b, if load s i < mn then i else d, max mx (load s i), min mn (load s i))"
  by (auto simp: Let_def load_def max_def min_def not_less)

lemma balance_nodes_spec:
  assumes "balance_nodes s = (b, d, mx, mn)" and "2 \<le> numa_node_count s" and "numa_node_count s \<le> MAX_NODES"
  shows "b < MAX_NODES" and "d < MAX_NODES" and "mx = load s b" and "mn = load s d"
proof -
  have "fst r < max 1 k \<and> fst (snd r) < max 1 k \<and>
      (fst (snd (snd r)) = load s (fst r) \<or> fst (snd (snd r)) = 0 \<and> fst r = 0) \<and>
      (snd (snd (snd r)) = load s (fst (snd r)) \<or> snd (snd (snd r)) = - 1 \<and> fst (snd r) = 0) \<and>
      (\<forall>i<k. load s i \<le> fst (snd (snd r)) \<and> snd (snd (snd r)) \<le> load s i)"
    if "r = fold (scan_load s) [0..<k] (0, 0, 0, - 1)" for k r
    using that
  proof (induction k arbitrary: r)
    case 0
    then show ?case by simp
  next
    case (Suc k)
    define q where "q = fold (scan_load s) [0..<k] (0, 0, 0, - 1)"
    obtain b d mx mn where q: "q = (b, d, mx, mn)" by (metis prod_cases4)
    from Suc.prems have "r = scan_load s k q" by (simp add: q_def)
    then have r: "r = (if load s k > mx then k else b, if load s k < mn then k else d,
        max mx (load s k), min mn (load s k))" by (simp only: q scan_load_step)
    have I: "b < max 1 k" "d < max 1 k" "mx = load s b \<or> mx = 0 \<and> b = 0" "mn = load s d \<or> mn = - 1 \<and> d = 0"
      "\<And>i. i < k \<Longrightarrow> load s i \<le> mx" "\<And>i. i < k \<Longrightarrow> mn \<le> load s i"
      using Suc.IH [OF q_def] by (simp_all add: q)
    show ?case
      unfolding r fst_conv snd_conv
    proof (intro conjI allI impI)
      show "(if load s k > mx then k else b) < max 1 (Suc k)" "(if load s k < mn then k else d) < max 1 (Suc k)"
        using I(1,2) by auto
      show "max mx (load s k) = load s (if load s k > mx then k else b) \<or>
          max mx (load s k) = 0 \<and> (if load s k > mx then k else b) = 0"
        using I(3) by (auto simp: max_def)
      show "min mn (load s k) = load s (if load s k < mn then k else d) \<or>
          min mn (load s k) = - 1 \<and> (if load s k < mn then k else d) = 0"
        using I(4) by (auto simp: min_def)
      fix i assume "i < Suc k"
      then show "load s i \<le> max mx (load s k)" "min mn (load s k) \<le> load s i"
        using I(5,6) [of i] by (auto simp: less_Suc_eq le_max_iff_disj min_le_iff_disj)
    qed
  qed
  from this [OF assms(1) [unfolded balance_nodes_def, symmetric]]
  have *: "b < numa_node_count s" "d < numa_node_count s"
    "mx = load s b \<or> mx = 0 \<and> b = 0" "mn = load s d \<or> mn = - 1 \<and> d = 0"
    "load s 0 \<le> mx" "mn \<le> load s 0" using assms(2) by auto
  then show "b < MAX_NODES" "d < MAX_NODES" using assms(3) by simp_all
  show "mx = load s b" using *(3,5) by auto
  show "mn = load s d" using *(4,6) by (auto simp: word_order.extremum_unique)
qed

lemma migrate_one_place:
  assumes "b < MAX_NODES" and "d < MAX_NODES" and "b \<noteq> d" and "length (node_queues s) = MAX_NODES"
  shows "migrate_one b d s =
    (case pick_next (of_nat b) s of
       (None, s1) \<Rightarrow> s1
     | (Some t, s1) \<Rightarrow> place t (\<lambda>x. x\<lparr>node_id := of_nat d, tstate := Ready\<rparr>) d s1)"
proof -
  have "min (unat (of_nat b :: u8)) (MAX_NODES - 1) = b"
    using assms(1) by (simp add: MAX_NODES_def unat_of_nat)
  moreover obtain r th rq where "pick_next_eevdf (thr s) (node_queues s ! b) = (r, th, rq)" by (metis prod_cases3)
  ultimately show ?thesis
    using assms by (auto simp: migrate_one_def pick_next_def Let_def place_def upd_thread_def split: option.splits)
qed

lemma migrate_one_inv:
  assumes inv: "sched_inv s" and pri: "prio_ok (thr s)" and bd: "b < MAX_NODES" "d < MAX_NODES" "b \<noteq> d"
  shows "sched_inv (migrate_one b d s) \<and> set (all_queued (migrate_one b d s)) = set (all_queued s)"
proof -
  have q: "queues_inv s" using inv by (simp add: sched_inv_def)
  then have len: "length (node_queues s) = MAX_NODES" by (simp add: queues_inv_def)
  note P = pick_next_inv [OF q refl, of "of_nat b"]
  obtain r s1 where e: "pick_next (of_nat b) s = (r, s1)" by (cases "pick_next (of_nat b) s")
  show ?thesis
  proof (cases r)
    case None
    with P e inv show ?thesis by (simp add: migrate_one_place [OF bd len])
  next
    case (Some t)
    let ?f = "\<lambda>x. x\<lparr>node_id := of_nat d, tstate := Ready\<rparr>"
    from Some P e have p: "queues_inv s1" "set (all_queued s) = insert t (set (all_queued s1))"
      "t \<notin> set (all_queued s1)" "thr s1 = (thr s)(t := (thr s t)\<lparr>tstate := Running\<rparr>)"
      "current s1 = current s" "pick_count s1 = pick_count s" by auto
    have "unat (effective_priority (?f (thr s1 t))) < NUM_PRIORITIES"
      using pri by (simp add: prio_ok_def p(4))
    note pl = place_inv [OF p(1) bd(2) p(3), of ?f, OF this]
    from Some e have "migrate_one b d s = place t ?f d s1" by (simp add: migrate_one_place [OF bd len])
    with pl p inv show ?thesis by (simp add: sched_inv_def)
  qed
qed

lemma try_balance_spec:
  assumes inv: "sched_inv s" and pri: "prio_ok (thr s)" and cnt: "numa_node_count s \<le> MAX_NODES"
  shows "\<exists>s'. try_balance s = Ret s' \<and> sched_inv s' \<and> set (all_queued s') = set (all_queued s)"
proof -
  define s1 where "s1 = s\<lparr>balance_tick := usize_add (balance_tick s) 1\<rparr>"
  have aq: "all_queued s1 = all_queued s" by (simp add: s1_def all_queued_def)
  have inv1: "sched_inv s1" "prio_ok (thr s1)" "numa_node_count s1 = numa_node_count s"
    using inv pri aq by (simp_all add: s1_def sched_inv_def queues_inv_def)
  obtain b d mx mn where bn: "balance_nodes s1 = (b, d, mx, mn)" by (metis prod_cases4)
  have t: "try_balance s =
      (if balance_tick s mod BALANCE_INTERVAL \<noteq> 0 \<or> numa_node_count s < 2 then Ret s1
       else if (mx - mn) * 100 \<le> mx * BALANCE_THRESHOLD then Ret s1
       else if b = d then Hang else Ret (migrate_one b d s1))"
    using bn by (simp add: try_balance_def Let_def s1_def)
  show ?thesis
  proof (cases "balance_tick s mod BALANCE_INTERVAL \<noteq> 0 \<or> numa_node_count s < 2 \<or>
      (mx - mn) * 100 \<le> mx * BALANCE_THRESHOLD")
    case True
    with t inv1 aq show ?thesis by auto
  next
    case False
    then have "2 \<le> numa_node_count s1" using inv1(3) by simp
    note S = balance_nodes_spec [OF bn this] 
    have "b \<noteq> d" using False S(3,4) cnt inv1(3) by auto
    with migrate_one_inv [OF inv1(1,2), of b d] S(1,2) cnt inv1(3) t False aq show ?thesis by simp
  qed
qed

subsection \<open>Placement\<close>

lemma cas_nonexistent:
  assumes busy: "\<And>h. h < 4 \<Longrightarrow> \<not> cpu_is_idle (thr s) pc h"
  shows "\<exists>c. cas_wake_select pc cpu0 CacheTopology_discover s = Ret c \<and> 4 \<le> unat c"
proof (cases "unat cpu0 < 4")
  case False
  then have "cpu_is_idle (thr s) pc (unat cpu0)" by (simp add: cpu_is_idle_def)
  with False show ?thesis by (simp add: cas_wake_select_def)
next
  case True
  have nb: "\<not> cpu_is_idle (thr s) pc 0" "\<not> cpu_is_idle (thr s) pc (Suc 0)" "\<not> cpu_is_idle (thr s) pc 2"
    "\<not> cpu_is_idle (thr s) pc 3" using busy [of 0] busy [of 1] busy [of 2] busy [of 3] by simp_all
  have id: "cpu_is_idle (thr s) pc 4" by (simp add: cpu_is_idle_def)
  have "unat cpu0 = 0 \<or> unat cpu0 = 1 \<or> unat cpu0 = 2 \<or> unat cpu0 = 3" using True by linarith
  then have "cpu0 = 0 \<or> cpu0 = 1 \<or> cpu0 = 2 \<or> cpu0 = 3" by (simp add: word_unat_eq_iff)
  moreover have "[0..<8] = [0, 1, 2, 3, 4, 5, 6, 7::nat]" by code_simp
  ultimately show ?thesis
    using nb id
    by (elim disjE) (simp_all add: cas_wake_select_def find_idle_in_cache_domain_def CacheTopology_discover_def)
qed

subsection \<open>Boot\<close>

lemma rq_ok_new: "rq_ok th NumaReadyQueues_new" and queued_new: "queued NumaReadyQueues_new = []"
  by (auto simp: rq_ok_def NumaReadyQueues_new_def queued_def waiting_at_def tq_new_def tq_ok_def tq_iter_def
      by_deadline_def)

lemma all_queued_init: "all_queued (sched_init th) = []"
  by (simp add: all_queued_def sched_init_def queued_new)

lemma queues_inv_init: "queues_inv (sched_init th)"
  by (simp add: queues_inv_def all_queued_init) (simp add: sched_init_def rq_ok_new)

lemma sched_inv_init: "sched_inv ((sched_init th)\<lparr>current := c\<rparr>)"
proof -
  have aq: "all_queued ((sched_init th)\<lparr>current := c\<rparr>) = []" using all_queued_init by (simp add: all_queued_def)
  show ?thesis
    unfolding sched_inv_def queues_inv_def aq by (simp add: sched_init_def rq_ok_new)
qed

section \<open>Properties\<close>

text \<open>
  C15. Scheduling loses no thread and picks the right one. From a consistent state the locked
  part of \<open>schedule\<close> returns, keeps the queues consistent, keeps every queued thread in the
  queue of its effective priority, and keeps the set of runnable threads (queued or running).
  The thread it makes current is a thread of the hart's node of which no queued thread there
  has a higher effective priority, nor the same priority and an earlier deadline; \<open>schedule\<close>
  then switches to it, counting the switch. With nothing queued on that node no thread is
  current and \<open>schedule\<close> does not return: the hart stays in \<open>idle_loop\<close>.
\<close>

theorem schedule_no_loss:
  assumes "sched_inv s" and "prio_ok (thr s)" and "filed s" and "hart < 4"
  shows "let s1 = requeue_current s; rq = node_queues s1 ! min (unat (hart_to_node hart s1)) (MAX_NODES - 1) in
    \<exists>nxt s'. schedule_locked hart s = Ret (nxt, s') \<and> sched_inv s' \<and> filed s' \<and>
      runnable s' = runnable s \<and> current s' = nxt \<and>
     (case nxt of
        None \<Rightarrow> queued rq = [] \<and> schedule hart s = Hang
      | Some t \<Rightarrow> is_best (thr s1) rq t \<and> tstate (thr s' t) = Running \<and>
          schedule hart s = Ret (case current s of Some old \<Rightarrow> ContextSwitch old t | None \<Rightarrow> StartThread t,
            s'\<lparr>ctx_switch_count := ctx_switch_count s' + 1\<rparr>))"
proof -
  let ?s1 = "requeue_current s"
  let ?n = "min (unat (hart_to_node hart ?s1)) (MAX_NODES - 1)"
  let ?rq = "node_queues ?s1 ! ?n"
  from schedule_spec [OF assms(1,2,4) refl refl] obtain nxt s' where
    r: "schedule_locked hart s = Ret (nxt, s')" "sched_inv s'" "runnable s' = runnable s" "filed s'" "current s' = nxt" and
    c: "case nxt of None \<Rightarrow> queued ?rq = []
     | Some t \<Rightarrow> is_front (thr ?s1) ?rq t \<and> tstate (thr s' t) = Running \<and> last_cpu (thr s' t) = of_nat hart"
    using assms(3) by blast
  have n: "?n < MAX_NODES" by (simp add: MAX_NODES_def)
  note R = requeue_current_inv [OF assms(1,2)]
  have "is_best (thr ?s1) ?rq t" if "is_front (thr ?s1) ?rq t" for t
    using front_is_best [OF that] R(1) R(7) [OF assms(3)] n rq_okD(1) [of "thr ?s1" ?rq]
    by (simp add: filed_def queues_inv_def)
  with r c show ?thesis
    unfolding Let_def
    by (intro exI [of _ nxt] exI [of _ s']) (auto simp: schedule_def split: option.splits)
qed

text \<open>
  C16. Load balancing is safe: \<open>try_balance\<close> never locks one queue twice, and the set of
  queued threads is the same before and after, whatever thread it migrates.
\<close>

theorem try_balance_safe:
  assumes "sched_inv s" and "prio_ok (thr s)" and "numa_node_count s \<le> MAX_NODES"
  shows "\<exists>s'. try_balance s = Ret s' \<and> sched_inv s' \<and> set (all_queued s') = set (all_queued s)"
  using assms by (rule try_balance_spec)

text \<open>
  C17. The kernel's own consistency check is exact: \<open>check_node_queues\<close> leaves the flag set
  exactly when it was set before, every bit of the node's bitmap says whether the queue of
  that priority holds a thread, and every queued thread is \<open>Ready\<close>; it returns the number of
  queued threads. So it accepts every state that satisfies the scheduler's invariant.
\<close>

theorem check_node_queues_exact:
  assumes "rq = node_queues s ! min (unat node) (MAX_NODES - 1)" and "length (queues rq) = NUM_PRIORITIES"
  shows "check_node_queues node ok s =
      (ok \<and> (\<forall>p<64. bit (priority_bitmap rq) p \<longleftrightarrow> waiting_at rq p \<noteq> []) \<and>
         (\<forall>t \<in> set (queued rq). tstate (thr s t) = Ready), length (queued rq)) \<and>
    (sched_inv s \<longrightarrow> check_node_queues node ok s = (ok, length (queued rq)))"
proof -
  let ?n = "min (unat node) (MAX_NODES - 1)"
  have c: "check_node_queues node ok s =
      (ok \<and> (\<forall>p<64. bit (priority_bitmap rq) p \<longleftrightarrow> waiting_at rq p \<noteq> []) \<and>
         (\<forall>t \<in> set (queued rq). tstate (thr s t) = Ready), length (queued rq))"
    using check_queues_exact [of rq] assms by (simp add: check_node_queues_def NUM_PRIORITIES_def)
  have "check_node_queues node ok s = (ok, length (queued rq))" if "sched_inv s"
  proof -
    have q: "queues_inv s" using that by (simp add: sched_inv_def)
    then have n: "?n < length (node_queues s)" by (simp add: queues_inv_def MAX_NODES_def)
    have "rq_ok (thr s) rq" using q by (simp add: queues_inv_def MAX_NODES_def assms(1))
    moreover have "\<forall>t \<in> set (queued rq). tstate (thr s t) = Ready"
      using q queued_all_queued [OF n] by (auto simp: queues_inv_def assms(1))
    ultimately show ?thesis unfolding c using rq_okD(4) by simp
  qed
  with c show ?thesis by blast
qed

text \<open>
  A thread whose effective priority is 64 or more is lost: \<open>enqueue_thread\<close> marks it
  ready but puts it on no queue, so no hart will ever pick it.
\<close>

lemma enqueue_drops_high_priority:
  assumes "NUM_PRIORITIES \<le> unat (effective_priority (thr s t))"
  shows "node_queues (enqueue_thread t s) = node_queues s \<and> tstate (thr (enqueue_thread t s) t) = Ready"
  using assms by (simp add: enqueue_thread_def enqueue_eevdf_def upd_thread_def Let_def)

text \<open>
  A donated priority does not reach the queue: \<open>proxy_start\<close> raises the effective priority
  of the holder and moves no thread, so a holder that is queued waits on in the queue of its
  old priority.
\<close>

lemma proxy_start_keeps_queues: "node_queues (proxy_start blocker holder s) = node_queues s"
  by (simp add: proxy_start_def upd_thread_def Let_def)

text \<open>
  Placement can name a processor that does not exist: with all four harts busy,
  \<open>cas_wake_select\<close> on the discovered topology returns a CPU number of at least 4.
\<close>

lemma cas_selects_missing_cpu:
  assumes "\<forall>h<4. \<not> cpu_is_idle (thr s) pc h"
  shows "\<exists>c. cas_wake_select pc cpu0 CacheTopology_discover s = Ret c \<and> 4 \<le> unat c"
  using assms by (intro cas_nonexistent) blast

section \<open>Witnesses\<close>

definition demo_threads :: threads where
  "demo_threads t = (Thread_new (of_nat t) 1 5)\<lparr>tstate := (if t = 1 then Running else Ready)\<rparr>"

definition demo_sched :: SchedState where
  "demo_sched = (sched_init demo_threads)\<lparr>current := Some 1\<rparr>"

lemma demo_sched_ok: "sched_inv demo_sched" "prio_ok (thr demo_sched)" "numa_node_count demo_sched \<le> MAX_NODES"
  using sched_inv_init [where th = demo_threads and c = "Some 1"]
  by (simp_all add: demo_sched_def sched_init_def prio_ok_def demo_threads_def Thread_new_def NUM_PRIORITIES_def
      MAX_NODES_def)

lemma filed_init: "filed ((sched_init th)\<lparr>current := c\<rparr>)"
  by (auto simp: filed_def rq_filed_def sched_init_def NumaReadyQueues_new_def waiting_at_def tq_new_def tq_iter_def)

text \<open>Thread 1 runs, thread 2 with a higher priority is queued.\<close>

definition demo_queued :: SchedState where
  "demo_queued = enqueue_thread 2 (upd_thread 2 (\<lambda>t. t\<lparr>effective_priority := 9\<rparr>) demo_sched)"

lemma demo_queued_ok:
  "sched_inv demo_queued" "prio_ok (thr demo_queued)" "filed demo_queued" "set (all_queued demo_queued) = {2}"
  "current demo_queued = Some 1" "tstate (thr demo_queued 1) = Running"
  "effective_priority (thr demo_queued 1) = 5" "effective_priority (thr demo_queued 2) = 9"
  "node_id (thr demo_queued t) = 0"
proof -
  let ?s = "upd_thread 2 (\<lambda>t. t\<lparr>effective_priority := 9\<rparr>) demo_sched"
  have s: "?s = (sched_init (demo_threads(2 := (demo_threads 2)\<lparr>effective_priority := 9\<rparr>)))\<lparr>current := Some 1\<rparr>"
    by (simp add: demo_sched_def sched_init_def upd_thread_def)
  have inv: "sched_inv ?s" "filed ?s" unfolding s by (rule sched_inv_init, rule filed_init)
  then have q: "queues_inv ?s" by (simp add: sched_inv_def)
  have a: "all_queued ?s = []"
    using all_queued_init [of "demo_threads(2 := (demo_threads 2)\<lparr>effective_priority := 9\<rparr>)"] unfolding s
    by (simp add: all_queued_def)
  have th: "effective_priority (thr ?s 2) = 9" "thr ?s 1 = demo_threads 1" "current ?s = Some 1"
    "length (pick_count ?s) = 4" "node_id (thr ?s t) = 0" for t
    by (simp_all add: s sched_init_def demo_threads_def Thread_new_def)
  have p: "unat (effective_priority (thr ?s 2)) < NUM_PRIORITIES" unfolding th(1) by (simp add: NUM_PRIORITIES_def)
  note E = enqueue_thread_inv [OF q _ p, unfolded a, folded demo_queued_def]
  show "sched_inv demo_queued" "filed demo_queued" "set (all_queued demo_queued) = {2}"
    "current demo_queued = Some 1"
    using E th inv by (auto simp: sched_inv_def)
  show "tstate (thr demo_queued 1) = Running" "effective_priority (thr demo_queued 1) = 5"
    "effective_priority (thr demo_queued 2) = 9" "node_id (thr demo_queued t) = 0"
    using E(3) th by (auto simp: demo_threads_def Thread_new_def)
  show "prio_ok (thr demo_queued)"
    using E(3) by (auto simp: prio_ok_def s sched_init_def demo_threads_def Thread_new_def NUM_PRIORITIES_def)
qed

theorem schedule_no_loss_witness:
  "\<exists>nxt s'. schedule_locked 0 demo_queued = Ret (nxt, s') \<and> sched_inv s' \<and> filed s' \<and> runnable s' = {1, 2}"
proof -
  have "runnable demo_queued = {1, 2}"
    using demo_queued_ok by (auto simp: runnable_def)
  then show ?thesis using schedule_no_loss [OF demo_queued_ok(1-3), of 0] by (auto simp: Let_def)
qed

theorem try_balance_safe_witness:
  "\<exists>s'. try_balance demo_sched = Ret s' \<and> sched_inv s' \<and> set (all_queued s') = {}"
proof -
  have "all_queued demo_sched = []"
    using all_queued_init [of demo_threads] by (simp add: demo_sched_def all_queued_def)
  then show ?thesis using try_balance_safe [OF demo_sched_ok] by simp
qed

theorem check_node_queues_exact_witness:
  "check_node_queues 0 True demo_queued = (True, 1) \<and>
   fst (check_node_queues 0 True (upd_thread 2 (\<lambda>t. t\<lparr>tstate := Waiting\<rparr>) demo_queued)) = False"
proof -
  let ?rq = "node_queues demo_queued ! 0"
  let ?bad = "upd_thread 2 (\<lambda>t. t\<lparr>tstate := Waiting\<rparr>) demo_queued"
  have q: "queues_inv demo_queued" using demo_queued_ok(1) by (simp add: sched_inv_def)
  then have len: "length (queues ?rq) = NUM_PRIORITIES"
    using rq_okD(1) [of "thr demo_queued" ?rq] by (simp add: queues_inv_def MAX_NODES_def NUM_PRIORITIES_def)
  have "?rq = enqueue_eevdf (thr demo_queued) 2 NumaReadyQueues_new"
    by (simp add: demo_queued_def enqueue_thread_def demo_sched_def sched_init_def upd_thread_def Let_def
        MAX_NODES_def demo_threads_def Thread_new_def)
  moreover have "unat (effective_priority (thr demo_queued 2)) < 64" unfolding demo_queued_ok(8) by simp
  ultimately have "mset (queued ?rq) = {#2#}"
    using enqueue_eevdf_ok(2) [OF rq_ok_new, of "thr demo_queued" 2] by (simp add: queued_new)
  then have "queued ?rq = [2]" by simp
  moreover have "check_node_queues 0 True demo_queued = (True, length (queued ?rq))"
    by (rule mp [OF conjunct2 [OF check_node_queues_exact] demo_queued_ok(1)]) (simp, rule len)
  moreover have "fst (check_node_queues 0 True ?bad) = False"
    using check_node_queues_exact [of ?rq ?bad 0 True, OF _ len] \<open>queued ?rq = [2]\<close> by (simp add: upd_thread_def)
  ultimately show ?thesis by simp
qed

lemma enqueue_drops_high_priority_example:
  "node_queues (enqueue_thread 2 (upd_thread 2 (\<lambda>t. t\<lparr>effective_priority := 200\<rparr>) demo_sched)) =
   node_queues (upd_thread 2 (\<lambda>t. t\<lparr>effective_priority := 200\<rparr>) demo_sched)"
  using enqueue_drops_high_priority [of "upd_thread 2 (\<lambda>t. t\<lparr>effective_priority := 200\<rparr>) demo_sched" 2]
  by (simp add: upd_thread_def NUM_PRIORITIES_def)

lemma cas_selects_missing_cpu_example:
  "\<exists>c. cas_wake_select [Some 1, Some 2, Some 3, Some 4] 2 CacheTopology_discover demo_sched = Ret c \<and> 4 \<le> unat c"
proof (rule cas_selects_missing_cpu)
  have t: "tid (thr demo_sched t) = of_nat t" for t
    by (simp add: demo_sched_def sched_init_def demo_threads_def Thread_new_def)
  show "\<forall>h<4. \<not> cpu_is_idle (thr demo_sched) [Some 1, Some 2, Some 3, Some 4] h"
  proof (intro allI impI)
    fix h :: nat assume "h < 4"
    then have "h = 0 \<or> h = 1 \<or> h = 2 \<or> h = 3" by linarith
    then show "\<not> cpu_is_idle (thr demo_sched) [Some 1, Some 2, Some 3, Some 4] h"
      by (elim disjE) (simp_all add: cpu_is_idle_def t)
  qed
qed

end
