(* ===== verification/Ipc.thy ===== *)
theory Ipc
  imports Scheduler Capabilities
begin

unbundle bit_operations_syntax

text \<open>
  Inter-process communication: kernel/src/ipc/message.rs, ipc/endpoint.rs, ipc/mod.rs and
  the system calls of syscall/ipc.rs, over the scheduler. Endpoints hold a FIFO of pending
  messages and at most one waiting receiver; \<open>send\<close> wakes it with priority inheritance.

  The calls that leave the component are traces: \<open>hook_calls\<close> for the extension hook and
  \<open>msip\<close> for the inter-processor interrupts. User memory is a function from addresses to
  bytes.
\<close>

section \<open>Definitions\<close>

subsection \<open>Messages and queues\<close>

definition MAX_PAYLOAD :: usize where "MAX_PAYLOAD = 64"
definition MAX_CAP_TRANSFER :: usize where "MAX_CAP_TRANSFER = 4"

datatype TransferMode = Copy | Move

record CapTransfer =
  src_slot :: u32
  dst_slot :: u32
  transfer_mode :: TransferMode

record Message =
  sender_pid :: u32
  opcode :: u16
  payload :: "u8 list"
  payload_len :: usize
  cap_transfers :: "CapTransfer option list"

definition Message_new :: "u32 \<Rightarrow> u16 \<Rightarrow> Message" where
  "Message_new pid opc =
     \<lparr>sender_pid = pid, opcode = opc, payload = replicate MAX_PAYLOAD 0, payload_len = 0,
      cap_transfers = replicate MAX_CAP_TRANSFER None\<rparr>"

record MessageQueue =
  mq_items :: "(u32 \<times> Message) list"
  mq_head :: usize

definition mq_new :: MessageQueue where
  "mq_new = \<lparr>mq_items = [], mq_head = 0\<rparr>"

definition mq_push_back :: "u32 \<times> Message \<Rightarrow> MessageQueue \<Rightarrow> MessageQueue" where
  "mq_push_back m q = q\<lparr>mq_items := mq_items q @ [m]\<rparr>"

definition mq_pop_front :: "MessageQueue \<Rightarrow> ((u32 \<times> Message) \<times> MessageQueue) option" where
  "mq_pop_front q =
     (if mq_head q \<ge> length (mq_items q) then None
      else
        (let item = mq_items q ! mq_head q;
             hd = mq_head q + 1
         in Some (item,
              if hd > 64 \<and> hd \<ge> length (mq_items q) div 2
              then \<lparr>mq_items = drop hd (mq_items q), mq_head = 0\<rparr>
              else q\<lparr>mq_head := hd\<rparr>)))"

definition mq_is_empty :: "MessageQueue \<Rightarrow> bool" where
  "mq_is_empty q \<longleftrightarrow> mq_head q \<ge> length (mq_items q)"

subsection \<open>Endpoints\<close>

record Endpoint =
  ep_ident :: usize
  pending_senders :: MessageQueue
  waiting_receiver :: "tptr option"

definition Endpoint_new :: "usize \<Rightarrow> Endpoint" where
  "Endpoint_new i = \<lparr>ep_ident = i, pending_senders = mq_new, waiting_receiver = None\<rparr>"

record IpcState =
  sched :: SchedState
  endpoints :: "Endpoint option list"
  next_ep_id :: usize
  send_count :: u64
  recv_count :: u64
  hook_calls :: "(usize \<times> u32) list"
  msip :: "usize list"

definition ep_at :: "IpcState \<Rightarrow> usize \<Rightarrow> Endpoint option" where
  "ep_at k e = (if e < length (endpoints k) then endpoints k ! e else None)"

definition set_ep :: "usize \<Rightarrow> Endpoint \<Rightarrow> IpcState \<Rightarrow> IpcState" where
  "set_ep e ep k = k\<lparr>endpoints := (endpoints k)[e := Some ep]\<rparr>"

definition create_endpoint :: "IpcState \<Rightarrow> usize \<times> IpcState" where
  "create_endpoint k =
     (let i = next_ep_id k;
          padded = endpoints k @ replicate (Suc i - length (endpoints k)) None
      in (i, k\<lparr>next_ep_id := i + 1, endpoints := padded[i := Some (Endpoint_new i)]\<rparr>))"

definition ipc_init :: "SchedState \<Rightarrow> IpcState" where
  "ipc_init s =
     ((\<lambda>k. snd (create_endpoint k)) ^^ 8)
       \<lparr>sched = s, endpoints = [None], next_ep_id = 1, send_count = 0, recv_count = 0,
        hook_calls = [], msip = []\<rparr>"

text \<open>Waking a receiver: inherit the sender's priority when higher, mark ready, enqueue.\<close>

definition wake_receiver :: "u8 \<Rightarrow> tptr \<Rightarrow> SchedState \<Rightarrow> SchedState" where
  "wake_receiver sender_prio receiver s =
     (let s1 = (if sender_prio > effective_priority (thr s receiver)
                then upd_thread receiver (\<lambda>t. t\<lparr>effective_priority := sender_prio\<rparr>) s else s);
          s2 = upd_thread receiver (\<lambda>t. t\<lparr>tstate := Ready\<rparr>) s1
      in enqueue_thread receiver s2)"

definition current_prio :: "SchedState \<Rightarrow> u8" where
  "current_prio s = (case current s of Some t \<Rightarrow> effective_priority (thr s t) | None \<Rightarrow> 0)"

definition send :: "usize \<Rightarrow> usize \<Rightarrow> u32 \<Rightarrow> Message \<Rightarrow> IpcState \<Rightarrow> unit result \<times> IpcState" where
  "send hart e pid msg k =
     (case ep_at k e of
        None \<Rightarrow> (Inl ''invalid ep'', k)
      | Some ep \<Rightarrow>
          (let q = mq_push_back (pid, msg) (pending_senders ep);
               k1 = (set_ep e (ep\<lparr>pending_senders := q, waiting_receiver := None\<rparr>) k)
                      \<lparr>send_count := send_count k + 1, hook_calls := hook_calls k @ [(e, pid)]\<rparr>
           in (Inr (),
               case waiting_receiver ep of
                 None \<Rightarrow> k1
               | Some receiver \<Rightarrow>
                   k1\<lparr>sched := wake_receiver (current_prio (sched k)) receiver (sched k1),
                      msip := msip k1 @ filter (\<lambda>h. h \<noteq> hart) [0..<4]\<rparr>)))"

definition recv :: "usize \<Rightarrow> IpcState \<Rightarrow> Message result \<times> IpcState" where
  "recv e k =
     (case ep_at k e of
        None \<Rightarrow> (Inl ''invalid ep'', k)
      | Some ep \<Rightarrow>
          (case mq_pop_front (pending_senders ep) of
             Some ((_, msg), q) \<Rightarrow>
               (let k1 = set_ep e (ep\<lparr>pending_senders := q\<rparr>) k in
                case current (sched k1) of
                  None \<Rightarrow> (Inl ''no thread'', k1)
                | Some c \<Rightarrow>
                    (Inr msg,
                     k1\<lparr>sched := upd_thread c (\<lambda>t. t\<lparr>effective_priority := base_priority t\<rparr>) (sched k1),
                        recv_count := recv_count k1 + 1\<rparr>))
           | None \<Rightarrow>
               (case current (sched k) of
                  None \<Rightarrow> (Inl ''no current thread'', k)
                | Some c \<Rightarrow>
                    (Inl ''would block'',
                     (set_ep e (ep\<lparr>waiting_receiver := Some c\<rparr>) k)
                       \<lparr>sched := upd_thread c (\<lambda>t. t\<lparr>tstate := Waiting, wait_target := Some (Endpoint e)\<rparr>)
                                  (sched k)\<rparr>))))"

subsection \<open>System calls\<close>

definition check_ep_cap :: "usize \<Rightarrow> rights \<Rightarrow> bool" where
  "check_ep_cap e required_rights = True"

definition ep_slot :: "usize \<Rightarrow> Slot" where
  "ep_slot res_id = \<lparr>cap_type = CapEP, slot_rights = RIGHT_SEND OR RIGHT_RECV, resource_id = res_id\<rparr>"

fun fill_null_slot :: "Slot \<Rightarrow> Slot list \<Rightarrow> Slot list" where
  "fill_null_slot sl [] = [sl]"
| "fill_null_slot sl (x # xs) = (if cap_type x = CapNull then sl # xs else x # fill_null_slot sl xs)"

definition store_ep_cap :: "u32 option \<Rightarrow> usize \<Rightarrow> CapSys \<Rightarrow> bool \<times> CapSys" where
  "store_ep_cap cur res_id k =
     (case caller_cnode cur k of
        Inl _ \<Rightarrow> (False, k)
      | Inr cnode \<Rightarrow>
          (case get_resource (caps k) cnode of
             None \<Rightarrow> (False, k)
           | Some res \<Rightarrow>
               (case rdata res of
                  RCNode ss \<Rightarrow>
                    (True, k\<lparr>caps := set_res cnode (Some (res\<lparr>rdata := RCNode (fill_null_slot (ep_slot res_id) ss)\<rparr>))
                                 (caps k)\<rparr>)
                | _ \<Rightarrow> (False, k))))"

definition sys_ep_create ::
  "unit outcome \<Rightarrow> u32 option \<Rightarrow> IpcState \<times> CapSys \<Rightarrow> (usize \<times> IpcState \<times> CapSys) outcome" where
  "sys_ep_create relock cur = (\<lambda>(k, c).
     (let (e, k1) = create_endpoint k in
      obind (alloc_resource relock False CapEP (REP e) (caps c)) (\<lambda>(res_id, cs).
        Ret (e, k1, snd (store_ep_cap cur res_id (c\<lparr>caps := cs\<rparr>))))))"

definition load_payload :: "(usize \<Rightarrow> u8) \<Rightarrow> usize \<Rightarrow> usize \<Rightarrow> Message \<Rightarrow> Message" where
  "load_payload umem ptr len msg =
     (if ptr \<noteq> 0 \<and> len > 0 then
        (let n = min len MAX_PAYLOAD
         in msg\<lparr>payload := map (\<lambda>i. umem (ptr + i)) [0..<n] @ drop n (payload msg), payload_len := n\<rparr>)
      else msg)"

definition current_owner :: "SchedState \<Rightarrow> u32" where
  "current_owner s = (case current s of Some t \<Rightarrow> owner (thr s t) | None \<Rightarrow> 0)"

definition sys_send ::
  "usize \<Rightarrow> (usize \<Rightarrow> u8) \<Rightarrow> usize \<Rightarrow> u16 \<Rightarrow> usize \<Rightarrow> usize \<Rightarrow> IpcState \<Rightarrow> usize result \<times> IpcState" where
  "sys_send hart umem e opc payload_ptr len k =
     (if \<not> check_ep_cap e RIGHT_SEND then (Inl ''no send cap'', k)
      else
        (let pid = current_owner (sched k);
             msg = load_payload umem payload_ptr len (Message_new pid opc);
             (r, k1) = send hart e pid msg k
         in (map_sum id (\<lambda>_. 0) r, k1)))"

definition store_payload :: "Message \<Rightarrow> usize \<Rightarrow> usize \<Rightarrow> (usize \<Rightarrow> u8) \<Rightarrow> (usize \<Rightarrow> u8)" where
  "store_payload msg buf_ptr buf_len umem =
     (let len = min (payload_len msg) buf_len in
      if len > 0 \<and> buf_ptr \<noteq> 0
      then (\<lambda>a. if buf_ptr \<le> a \<and> a < buf_ptr + len then payload msg ! (a - buf_ptr) else umem a)
      else umem)"

definition recv_value :: "Message \<Rightarrow> u64" where
  "recv_value msg = push_bit 24 (ucast (opcode msg)) OR (ucast (sender_pid msg) AND 0x00FFFFFF)"

text \<open>
  The receive loop. Each time \<open>recv\<close> fails the thread yields; the next element of \<open>env\<close> is
  what the rest of the system does until the thread runs again. \<open>None\<close>: still in the loop.
\<close>

fun sys_recv ::
  "(IpcState \<Rightarrow> IpcState) list \<Rightarrow> usize \<Rightarrow> usize \<Rightarrow> usize \<Rightarrow> (usize \<Rightarrow> u8) \<Rightarrow> IpcState
    \<Rightarrow> (u64 result \<times> (usize \<Rightarrow> u8) \<times> IpcState) option" where
  "sys_recv env e buf_ptr buf_len umem k =
     (if \<not> check_ep_cap e RIGHT_RECV then Some (Inl ''no recv cap'', umem, k)
      else case recv e k of
        (Inr msg, k1) \<Rightarrow> Some (Inr (recv_value msg), store_payload msg buf_ptr buf_len umem, k1)
      | (Inl _, k1) \<Rightarrow>
          (case env of
             [] \<Rightarrow> None
           | f # fs \<Rightarrow> sys_recv fs e buf_ptr buf_len umem (f k1)))"

declare sys_recv.simps [simp del]

section \<open>Invariant and runs\<close>

definition mq_ok :: "MessageQueue \<Rightarrow> bool" where
  "mq_ok q \<longleftrightarrow> mq_head q \<le> length (mq_items q)"

definition mq_contents :: "MessageQueue \<Rightarrow> (u32 \<times> Message) list" where
  "mq_contents q = drop (mq_head q) (mq_items q)"

definition pending :: "IpcState \<Rightarrow> usize \<Rightarrow> (u32 \<times> Message) list" where
  "pending k e = (case ep_at k e of Some ep \<Rightarrow> mq_contents (pending_senders ep) | None \<Rightarrow> [])"

text \<open>
  A registered receiver really waits for that endpoint, and no message is pending there:
  no wake-up is lost.
\<close>

definition ep_inv :: "IpcState \<Rightarrow> bool" where
  "ep_inv k \<longleftrightarrow>
     (\<forall>e ep. ep_at k e = Some ep \<longrightarrow> mq_ok (pending_senders ep) \<and>
        (\<forall>r. waiting_receiver ep = Some r \<longrightarrow>
           mq_contents (pending_senders ep) = [] \<and>
           tstate (thr (sched k) r) = Waiting \<and> wait_target (thr (sched k) r) = Some (Endpoint e)))"

definition ipc_inv :: "IpcState \<Rightarrow> bool" where
  "ipc_inv k \<longleftrightarrow>
     sched_inv (sched k) \<and> prio_ok (thr (sched k)) \<and> length (endpoints k) = next_ep_id k \<and> ep_inv k"

definition caller_running :: "IpcState \<Rightarrow> bool" where
  "caller_running k \<longleftrightarrow> (\<exists>c. current (sched k) = Some c \<and> tstate (thr (sched k) c) = Running)"

datatype ipc_op =
    OpCreate | OpSend usize usize u32 Message | OpRecv usize | OpSchedule usize
  | OpProxyStart tptr tptr | OpProxyEnd tptr | OpSlice

text \<open>
  One operation, with the message a receive returned; the calling thread must be running
  for an IPC call. The second component is \<open>None\<close> when nothing was received. A hart that
  finds no thread stays in \<open>idle_loop\<close> and leaves the state behind for the others.
\<close>

inductive ipc_step :: "IpcState \<Rightarrow> ipc_op \<Rightarrow> Message option \<Rightarrow> IpcState \<Rightarrow> bool" where
  create: "create_endpoint k = (e, k') \<Longrightarrow> ipc_step k OpCreate None k'"
| send: "caller_running k \<Longrightarrow> send hart e pid msg k = (r, k') \<Longrightarrow>
    ipc_step k (OpSend hart e pid msg) None k'"
| recv_msg: "caller_running k \<Longrightarrow> recv e k = (Inr msg, k') \<Longrightarrow> ipc_step k (OpRecv e) (Some msg) k'"
| recv_block: "caller_running k \<Longrightarrow> recv e k = (Inl err, k') \<Longrightarrow> ipc_step k (OpRecv e) None k'"
| schedule: "hart < 4 \<Longrightarrow> schedule hart (sched k) = Ret (a, s') \<Longrightarrow>
    ipc_step k (OpSchedule hart) None (k\<lparr>sched := s'\<rparr>)"
| idle: "hart < 4 \<Longrightarrow> schedule_locked hart (sched k) = Ret (None, s') \<Longrightarrow>
    ipc_step k (OpSchedule hart) None (k\<lparr>sched := s'\<rparr>)"
| proxy_start: "ipc_step k (OpProxyStart b h) None (k\<lparr>sched := proxy_start b h (sched k)\<rparr>)"
| proxy_end: "ipc_step k (OpProxyEnd h) None (k\<lparr>sched := proxy_end h (sched k)\<rparr>)"
| slice: "ipc_step k OpSlice None (k\<lparr>sched := request_slice_extension (sched k)\<rparr>)"

text \<open>Runs, with the log of what was sent to and received from each endpoint.\<close>

inductive ipc_run ::
  "IpcState \<Rightarrow> (usize \<Rightarrow> Message list) \<Rightarrow> (usize \<Rightarrow> Message list) \<Rightarrow> IpcState \<Rightarrow> bool" for k0 where
  run_init: "ipc_run k0 (\<lambda>_. []) (\<lambda>_. []) k0"
| run_send: "ipc_run k0 sent got k \<Longrightarrow> ipc_step k (OpSend hart e pid msg) None k' \<Longrightarrow> ep_at k e \<noteq> None \<Longrightarrow>
    ipc_run k0 (sent(e := sent e @ [msg])) got k'"
| run_send_invalid: "ipc_run k0 sent got k \<Longrightarrow> ipc_step k (OpSend hart e pid msg) None k' \<Longrightarrow>
    ep_at k e = None \<Longrightarrow> ipc_run k0 sent got k'"
| run_recv: "ipc_run k0 sent got k \<Longrightarrow> ipc_step k (OpRecv e) (Some msg) k' \<Longrightarrow>
    ipc_run k0 sent (got(e := got e @ [msg])) k'"
| run_other: "ipc_run k0 sent got k \<Longrightarrow> ipc_step k op None k' \<Longrightarrow>
    (\<forall>hart e pid msg. op \<noteq> OpSend hart e pid msg) \<Longrightarrow> ipc_run k0 sent got k'"

inductive_cases ipc_send_cases: "ipc_step k (OpSend hart e pid msg) r k'"
inductive_cases ipc_recv_cases: "ipc_step k (OpRecv e) r k'"

section \<open>Lemmas\<close>

subsection \<open>The message queue is a FIFO\<close>

interpretation mq: fifo mq_new mq_push_back mq_pop_front mq_is_empty mq_contents mq_ok
proof
  show "mq_ok q \<Longrightarrow> mq_contents (mq_push_back x q) = mq_contents q @ [x]" for q x
    by (simp add: mq_contents_def mq_push_back_def mq_ok_def)
  show "mq_ok q \<Longrightarrow> mq_pop_front q = None \<longleftrightarrow> mq_contents q = []" for q
    by (auto simp: mq_pop_front_def mq_contents_def Let_def)
  show "mq_ok q \<Longrightarrow> mq_pop_front q = Some (x, q') \<Longrightarrow> mq_contents q = x # mq_contents q' \<and> mq_ok q'" for q x q'
    by (auto simp: mq_pop_front_def mq_contents_def mq_ok_def Let_def Cons_nth_drop_Suc [symmetric] split: if_splits)
qed (auto simp: mq_new_def mq_ok_def mq_contents_def mq_push_back_def mq_is_empty_def)

subsection \<open>Waking a receiver\<close>

lemma all_queued_upd_thread [simp]: "all_queued (upd_thread t f s) = all_queued s"
  by (simp add: all_queued_def upd_thread_def)

lemma upd_thread_fields [simp]:
  "thr (upd_thread t f s) = (thr s)(t := f (thr s t))" "node_queues (upd_thread t f s) = node_queues s"
  "current (upd_thread t f s) = current s" "pick_count (upd_thread t f s) = pick_count s"
  by (simp_all add: upd_thread_def)

lemma queues_inv_upd_thread:
  assumes "queues_inv s" and "deadline (f (thr s t)) = deadline (thr s t)"
    and "t \<in> set (all_queued s) \<Longrightarrow> tstate (f (thr s t)) = tstate (thr s t)"
  shows "queues_inv (upd_thread t f s)"
  using assms by (intro queues_inv_cong [OF assms(1)]) auto

lemma sched_inv_upd_thread:
  assumes "sched_inv s" and "deadline (f (thr s t)) = deadline (thr s t)"
    and "t \<in> set (all_queued s) \<Longrightarrow> tstate (f (thr s t)) = tstate (thr s t)"
  shows "sched_inv (upd_thread t f s)"
  using assms by (simp add: sched_inv_def queues_inv_upd_thread)

lemma waiting_not_queued: "sched_inv s \<Longrightarrow> tstate (thr s t) = Waiting \<Longrightarrow> t \<notin> set (all_queued s) \<and> t \<notin> runnable s"
  by (auto simp: sched_inv_def queues_inv_def runnable_def)

lemma wake_receiver_spec:
  assumes inv: "sched_inv s" and pri: "prio_ok (thr s)" and w: "tstate (thr s r) = Waiting"
    and cur: "current s \<noteq> Some r" and sp: "unat p < NUM_PRIORITIES"
  shows "sched_inv (wake_receiver p r s)" and "prio_ok (thr (wake_receiver p r s))"
    and "set (all_queued (wake_receiver p r s)) = insert r (set (all_queued s))"
    and "tstate (thr (wake_receiver p r s) r) = Ready"
    and "effective_priority (thr (wake_receiver p r s) r) = max p (effective_priority (thr s r))"
    and "\<And>t. t \<noteq> r \<Longrightarrow> thr (wake_receiver p r s) t = thr s t"
    and "current (wake_receiver p r s) = current s"
proof -
  define s1 where "s1 = (if p > effective_priority (thr s r)
                then upd_thread r (\<lambda>t. t\<lparr>effective_priority := p\<rparr>) s else s)"
  define s2 where "s2 = upd_thread r (\<lambda>t. t\<lparr>tstate := Ready\<rparr>) s1"
  have nq: "r \<notin> set (all_queued s)" using waiting_not_queued [OF inv w] by simp
  have i2: "sched_inv s2" "all_queued s2 = all_queued s" "current s2 = current s"
    using inv nq by (auto simp: s2_def s1_def intro!: sched_inv_upd_thread)
  have t2: "thr s2 = (thr s)(r := (thr s r)\<lparr>effective_priority := max p (effective_priority (thr s r)), tstate := Ready\<rparr>)"
    by (auto simp: s2_def s1_def max_def not_less fun_eq_iff intro: antisym)
  have p2: "prio_ok (thr s2)" using pri sp by (auto simp: prio_ok_def t2 max_def)
  have e: "wake_receiver p r s = enqueue_thread r s2" by (simp add: wake_receiver_def s2_def s1_def Let_def)
  have q2: "queues_inv s2" using i2(1) by (simp add: sched_inv_def)
  have "unat (effective_priority (thr s2 r)) < NUM_PRIORITIES" using p2 by (simp add: prio_ok_def)
  note E = enqueue_thread_inv [OF q2 _ this]
  have nq2: "r \<notin> set (all_queued s2)" using nq i2 by simp
  note E = E [OF nq2]
  show "sched_inv (wake_receiver p r s)"
    unfolding e using E i2 cur by (auto simp: sched_inv_def)
  show "prio_ok (thr (wake_receiver p r s))"
    unfolding e using p2 by (auto simp: prio_ok_def E(3))
  show "set (all_queued (wake_receiver p r s)) = insert r (set (all_queued s))"
    unfolding e using E(2) i2(2) by simp
  show "tstate (thr (wake_receiver p r s) r) = Ready"
    "effective_priority (thr (wake_receiver p r s) r) = max p (effective_priority (thr s r))"
    "\<And>t. t \<noteq> r \<Longrightarrow> thr (wake_receiver p r s) t = thr s t" "current (wake_receiver p r s) = current s"
    unfolding e by (simp_all add: E(3,4) t2 i2(3))
qed

subsection \<open>Steps keep the invariant\<close>

lemma ep_at_set_ep: "ep_at (set_ep e ep k) d = (if d = e \<and> e < length (endpoints k) then Some ep else ep_at k d)"
  by (auto simp: ep_at_def set_ep_def)

lemma ep_at_bound: "ep_at k e = Some ep \<Longrightarrow> e < length (endpoints k)"
  by (simp add: ep_at_def split: if_splits)

lemma set_ep_fields [simp]:
  "sched (set_ep e ep k) = sched k" "next_ep_id (set_ep e ep k) = next_ep_id k"
  "length (endpoints (set_ep e ep k)) = length (endpoints k)" "recv_count (set_ep e ep k) = recv_count k"
  "send_count (set_ep e ep k) = send_count k" "msip (set_ep e ep k) = msip k"
  by (simp_all add: set_ep_def)

lemma ep_at_other [simp]:
  "ep_at (k\<lparr>sched := s\<rparr>) e = ep_at k e" "ep_at (k\<lparr>send_count := n\<rparr>) e = ep_at k e"
  "ep_at (k\<lparr>recv_count := n\<rparr>) e = ep_at k e" "ep_at (k\<lparr>hook_calls := h\<rparr>) e = ep_at k e"
  "ep_at (k\<lparr>msip := i\<rparr>) e = ep_at k e"
  by (simp_all add: ep_at_def)

lemma ep_invD:
  assumes "ep_inv k" and "ep_at k e = Some ep"
  shows "mq_ok (pending_senders ep)"
    and "waiting_receiver ep = Some r \<Longrightarrow> mq_contents (pending_senders ep) = []"
    and "waiting_receiver ep = Some r \<Longrightarrow> tstate (thr (sched k) r) = Waiting"
    and "waiting_receiver ep = Some r \<Longrightarrow> wait_target (thr (sched k) r) = Some (Endpoint e)"
  using assms by (auto simp: ep_inv_def)

lemma ipc_inv_sched:
  assumes "ipc_inv k" and "sched_inv s'" and "prio_ok (thr s')"
    and "\<And>t. tstate (thr (sched k) t) = Waiting \<Longrightarrow>
      tstate (thr s' t) = Waiting \<and> wait_target (thr s' t) = wait_target (thr (sched k) t)"
  shows "ipc_inv (k\<lparr>sched := s'\<rparr>)"
  using assms unfolding ipc_inv_def ep_inv_def by simp

lemma create_endpoint_inv:
  assumes inv: "ipc_inv k" and c: "create_endpoint k = (e, k')"
  shows "ipc_inv k'" and "ep_at k e = None" and "pending k' d = pending k d"
proof -
  have len: "length (endpoints k) = next_ep_id k" using inv by (simp add: ipc_inv_def)
  have k': "e = next_ep_id k" "k' = k\<lparr>next_ep_id := e + 1, endpoints := endpoints k @ [Some (Endpoint_new e)]\<rparr>"
    using c len by (auto simp: create_endpoint_def Let_def)
  have at: "ep_at k' d = (if d = e then Some (Endpoint_new e) else ep_at k d)" for d
    using len by (auto simp: k' ep_at_def nth_append)
  show "ep_at k e = None" using len by (simp add: ep_at_def k')
  then show "pending k' d = pending k d"
    by (simp add: pending_def at Endpoint_new_def mq_new_def mq_contents_def)
  have sc: "sched k' = sched k" by (simp add: k')
  have "ep_inv k'"
    using inv by (auto simp: ep_inv_def ipc_inv_def at sc Endpoint_new_def mq.invar_new split: if_splits)
  with inv len show "ipc_inv k'" by (simp add: ipc_inv_def k')
qed

lemma current_prio_bound: "prio_ok (thr s) \<Longrightarrow> unat (current_prio s) < NUM_PRIORITIES"
  by (auto simp: current_prio_def prio_ok_def NUM_PRIORITIES_def split: option.splits)

lemma send_spec:
  assumes inv: "ipc_inv k" and run: "caller_running k" and ep: "ep_at k e = Some ep"
    and s: "send hart e pid msg k = (res, k')"
  shows "res = Inr ()" and "ipc_inv k'" and "pending k' d = (if d = e then pending k e @ [(pid, msg)] else pending k d)"
    and "waiting_receiver ep = Some r \<Longrightarrow>
      r \<in> set (all_queued (sched k')) \<and> tstate (thr (sched k') r) = Ready \<and>
      effective_priority (thr (sched k') r) =
        max (current_prio (sched k)) (effective_priority (thr (sched k) r)) \<and>
      ep_at k' e = Some (ep\<lparr>pending_senders := mq_push_back (pid, msg) (pending_senders ep), waiting_receiver := None\<rparr>)"
proof -
  let ?q = "mq_push_back (pid, msg) (pending_senders ep)"
  let ?ep = "ep\<lparr>pending_senders := ?q, waiting_receiver := None\<rparr>"
  define k1 where "k1 = (set_ep e ?ep k)\<lparr>send_count := send_count k + 1, hook_calls := hook_calls k @ [(e, pid)]\<rparr>"
  have k1: "sched k1 = sched k" "next_ep_id k1 = next_ep_id k" "length (endpoints k1) = length (endpoints k)"
    "ep_at k1 d = (if d = e then Some ?ep else ep_at k d)" for d
    using ep_at_bound [OF ep] by (auto simp: k1_def ep_at_set_ep)
  have k': "res = Inr ()" "k' = (case waiting_receiver ep of None \<Rightarrow> k1
      | Some rc \<Rightarrow> k1\<lparr>sched := wake_receiver (current_prio (sched k)) rc (sched k),
                      msip := msip k1 @ filter (\<lambda>h. h \<noteq> hart) [0..<4]\<rparr>)"
    using s ep by (auto simp: send_def k1_def Let_def split: option.splits)
  show "res = Inr ()" by (rule k'(1))
  have at: "ep_at k' d = (if d = e then Some ?ep else ep_at k d)" for d
    using k1 by (simp add: k'(2) split: option.splits)
  note D = ep_invD [OF _ ep] and ei = inv [unfolded ipc_inv_def]
  have ok: "mq_ok (pending_senders ep)" using D(1) ei by simp
  show "pending k' d = (if d = e then pending k e @ [(pid, msg)] else pending k d)"
    using ep ok by (simp add: pending_def at mq.contents_push)
  have W: "sched_inv (sched k') \<and> prio_ok (thr (sched k')) \<and>
      (\<forall>t. waiting_receiver ep \<noteq> Some t \<longrightarrow> thr (sched k') t = thr (sched k) t) \<and>
      (\<forall>r. waiting_receiver ep = Some r \<longrightarrow> r \<in> set (all_queued (sched k')) \<and> tstate (thr (sched k') r) = Ready \<and>
        effective_priority (thr (sched k') r) = max (current_prio (sched k)) (effective_priority (thr (sched k) r)))"
  proof (cases "waiting_receiver ep")
    case None
    with ei k' k1(1) show ?thesis by simp
  next
    case (Some rc)
    have w: "tstate (thr (sched k) rc) = Waiting" using D(3) ei Some by simp
    moreover have "current (sched k) \<noteq> Some rc" using run w by (auto simp: caller_running_def)
    ultimately show ?thesis
      using wake_receiver_spec [of "sched k" rc "current_prio (sched k)"] ei Some
        current_prio_bound [of "sched k"] by (auto simp: k'(2))
  qed
  then show "waiting_receiver ep = Some r \<Longrightarrow>
      r \<in> set (all_queued (sched k')) \<and> tstate (thr (sched k') r) = Ready \<and>
      effective_priority (thr (sched k') r) = max (current_prio (sched k)) (effective_priority (thr (sched k) r)) \<and>
      ep_at k' e = Some ?ep" using at by simp
  have "ep_inv k'"
    unfolding ep_inv_def
  proof (intro allI impI conjI)
    fix d ep' assume d: "ep_at k' d = Some ep'"
    show "mq_ok (pending_senders ep')"
      using d at ok ei ep_invD(1) [of k d ep'] mq.invar_push by (auto split: if_splits)
    fix rc assume rc: "waiting_receiver ep' = Some rc"
    with d at have "d \<noteq> e" and dk: "ep_at k d = Some ep'" by (auto split: if_splits)
    note D' = ep_invD [OF _ dk]
    have "waiting_receiver ep \<noteq> Some rc"
      using D(4) [where r = rc] D'(4) [OF _ rc] ei \<open>d \<noteq> e\<close> by auto
    with W have "thr (sched k') rc = thr (sched k) rc" by blast
    with D'(2-4) [OF _ rc] ei show "mq_contents (pending_senders ep') = []"
      "tstate (thr (sched k') rc) = Waiting" "wait_target (thr (sched k') rc) = Some (Endpoint d)" by simp_all
  qed
  moreover have "length (endpoints k') = next_ep_id k'"
    using ei k1 by (simp add: k'(2) split: option.splits)
  ultimately show "ipc_inv k'" using W by (simp add: ipc_inv_def)
qed

lemma recv_pop_spec:
  assumes inv: "ipc_inv k" and run: "caller_running k" and s: "recv e k = (Inr msg, k')"
  shows "ipc_inv k'" and "\<exists>pid. pending k e = (pid, msg) # pending k' e" and "d \<noteq> e \<Longrightarrow> pending k' d = pending k d"
proof -
  obtain c where c: "current (sched k) = Some c" and cr: "tstate (thr (sched k) c) = Running"
    using run by (auto simp: caller_running_def)
  note ei = inv [unfolded ipc_inv_def]
  obtain ep pid q where ep: "ep_at k e = Some ep" and pop: "mq_pop_front (pending_senders ep) = Some ((pid, msg), q)"
    and k': "k' = (set_ep e (ep\<lparr>pending_senders := q\<rparr>) k)
      \<lparr>sched := upd_thread c (\<lambda>t. t\<lparr>effective_priority := base_priority t\<rparr>) (sched k), recv_count := recv_count k + 1\<rparr>"
    using s c by (auto simp: recv_def Let_def split: option.splits prod.splits)
  have at: "ep_at k' d = (if d = e then Some (ep\<lparr>pending_senders := q\<rparr>) else ep_at k d)" for d
    using ep_at_bound [OF ep] by (simp add: k' ep_at_set_ep)
  have P: "mq_contents (pending_senders ep) = (pid, msg) # mq_contents q" "mq_ok q"
    using mq.pop_Some [OF ep_invD(1) [OF _ ep] pop] ei by auto
  show "\<exists>pid. pending k e = (pid, msg) # pending k' e" "d \<noteq> e \<Longrightarrow> pending k' d = pending k d"
    using P ep by (auto simp: pending_def at)
  have nw: "waiting_receiver ep = None"
    using ep_invD(2) [OF _ ep] P(1) ei by (cases "waiting_receiver ep") auto
  have other: "tstate (thr (sched k') t) = tstate (thr (sched k) t)"
    "wait_target (thr (sched k') t) = wait_target (thr (sched k) t)" for t
    by (simp_all add: k')
  have "ep_inv k'"
    using ei P(2) nw unfolding ep_inv_def at other by auto
  moreover have "prio_ok (thr (sched k'))" using ei by (auto simp: k' prio_ok_def)
  moreover have "sched_inv (sched k')"
    using ei by (simp add: k') (auto intro!: sched_inv_upd_thread)
  ultimately show "ipc_inv k'" using ei by (simp add: ipc_inv_def) (simp add: k')
qed

lemma recv_block_spec:
  assumes inv: "ipc_inv k" and run: "caller_running k" and s: "recv e k = (Inl err, k')"
  shows "ipc_inv k'" and "pending k' d = pending k d"
    and "ep_at k e = Some ep \<Longrightarrow> pending k e = []"
    and "ep_at k e = Some ep \<Longrightarrow> current (sched k) = Some c \<Longrightarrow>
      err = ''would block'' \<and> ep_at k' e = Some (ep\<lparr>waiting_receiver := Some c\<rparr>)"
proof -
  obtain c where c: "current (sched k) = Some c" and cr: "tstate (thr (sched k) c) = Running"
    using run by (auto simp: caller_running_def)
  note ei = inv [unfolded ipc_inv_def]
  have "ipc_inv k' \<and> pending k' d = pending k d \<and> (\<forall>ep. ep_at k e = Some ep \<longrightarrow> pending k e = []) \<and>
     (\<forall>ep. ep_at k e = Some ep \<longrightarrow>
        err = ''would block'' \<and> ep_at k' e = Some (ep\<lparr>waiting_receiver := Some c\<rparr>))"
  proof (cases "ep_at k e")
    case None
    then show ?thesis using s inv by (simp add: recv_def)
  next
    case (Some ep)
    then have k': "mq_pop_front (pending_senders ep) = None" "err = ''would block''"
      "k' = (set_ep e (ep\<lparr>waiting_receiver := Some c\<rparr>) k)
         \<lparr>sched := upd_thread c (\<lambda>t. t\<lparr>tstate := Waiting, wait_target := Some (Endpoint e)\<rparr>) (sched k)\<rparr>"
      using s c by (auto simp: recv_def Let_def split: option.splits prod.splits)
    have at: "ep_at k' d = (if d = e then Some (ep\<lparr>waiting_receiver := Some c\<rparr>) else ep_at k d)" for d
      using ep_at_bound [OF Some] by (simp add: k' ep_at_set_ep)
    have nq: "c \<notin> set (all_queued (sched k))" using ei c by (simp add: sched_inv_def)
    have ok: "mq_ok (pending_senders ep)" using ep_invD(1) [OF _ Some] ei by simp
    then have emp: "mq_contents (pending_senders ep) = []" using mq.pop_None [OF ok] k'(1) by simp
    have thr: "thr (sched k') = (thr (sched k))(c := (thr (sched k) c)\<lparr>tstate := Waiting, wait_target := Some (Endpoint e)\<rparr>)"
      by (simp add: k')
    have "ep_inv k'"
      unfolding ep_inv_def
    proof (intro allI impI conjI)
      fix d ep' assume d: "ep_at k' d = Some ep'"
      show "mq_ok (pending_senders ep')"
        using d at ok ei ep_invD(1) [of k d ep'] by (auto split: if_splits)
      fix r assume r: "waiting_receiver ep' = Some r"
      have "mq_contents (pending_senders ep') = [] \<and> tstate (thr (sched k') r) = Waiting \<and>
          wait_target (thr (sched k') r) = Some (Endpoint d)"
      proof (cases "d = e")
        case True
        then show ?thesis using d at r emp thr by auto
      next
        case False
        then have dk: "ep_at k d = Some ep'" using d at by simp
        note D = ep_invD(2-4) [OF _ dk r]
        have "r \<noteq> c" using D(2) ei cr by auto
        then show ?thesis using D ei thr by simp
      qed
      then show "mq_contents (pending_senders ep') = []" "tstate (thr (sched k') r) = Waiting"
        "wait_target (thr (sched k') r) = Some (Endpoint d)" by auto
    qed
    moreover have "prio_ok (thr (sched k'))" using ei by (auto simp: thr prio_ok_def)
    moreover have "sched_inv (sched k')"
      using ei nq by (simp add: k') (auto intro!: sched_inv_upd_thread)
    moreover have "length (endpoints k') = next_ep_id k'" using ei by (simp add: k')
    ultimately show ?thesis using Some emp at by (auto simp: ipc_inv_def pending_def k'(2))
  qed
  then show "ipc_inv k'" "pending k' d = pending k d" "ep_at k e = Some ep \<Longrightarrow> pending k e = []"
    "ep_at k e = Some ep \<Longrightarrow> current (sched k) = Some c' \<Longrightarrow>
      err = ''would block'' \<and> ep_at k' e = Some (ep\<lparr>waiting_receiver := Some c'\<rparr>)" for c'
    using c by auto
qed

lemma proxy_fields:
  assumes pri: "prio_ok (thr s)"
  shows "sched_inv s \<Longrightarrow> sched_inv (proxy_start b h s)" and "prio_ok (thr (proxy_start b h s))"
    and "tstate (thr (proxy_start b h s) t) = tstate (thr s t)"
    and "wait_target (thr (proxy_start b h s) t) = wait_target (thr s t)"
    and "sched_inv s \<Longrightarrow> sched_inv (proxy_end h s)" and "prio_ok (thr (proxy_end h s))"
    and "tstate (thr (proxy_end h s) t) = tstate (thr s t)"
    and "wait_target (thr (proxy_end h s) t) = wait_target (thr s t)"
    and "sched_inv s \<Longrightarrow> sched_inv (request_slice_extension s)" and "prio_ok (thr (request_slice_extension s))"
    and "tstate (thr (request_slice_extension s) t) = tstate (thr s t)"
    and "wait_target (thr (request_slice_extension s) t) = wait_target (thr s t)"
  using pri
  by (auto simp: proxy_start_def proxy_end_def request_slice_extension_def Let_def prio_ok_def
      intro!: sched_inv_upd_thread split: option.splits)

lemma ipc_inv_same_states:
  assumes "ipc_inv k" and "sched_inv s'" and "prio_ok (thr s')"
    and "\<And>t. tstate (thr s' t) = tstate (thr (sched k) t)"
    and "\<And>t. wait_target (thr s' t) = wait_target (thr (sched k) t)"
  shows "ipc_inv (k\<lparr>sched := s'\<rparr>)"
  using assms by (intro ipc_inv_sched) auto

lemma pending_sched [simp]: "pending (k\<lparr>sched := s\<rparr>) e = pending k e"
  by (simp add: pending_def)

lemma schedule_locked_step_inv:
  assumes inv: "ipc_inv k" and h: "hart < 4" and s: "schedule_locked hart (sched k) = Ret (nxt, s')"
  shows "ipc_inv (k\<lparr>sched := s'\<rparr>)" and "ipc_inv (k\<lparr>sched := s'\<lparr>ctx_switch_count := c\<rparr>\<rparr>)"
proof -
  have i: "sched_inv (sched k)" "prio_ok (thr (sched k))" using inv by (auto simp: ipc_inv_def)
  note S = schedule_spec [OF i h refl refl]
  have s': "sched_inv s'" "prio_ok (thr s')" "\<forall>t. t \<notin> runnable (sched k) \<longrightarrow> thr s' t = thr (sched k) t"
    using S s by auto
  with inv waiting_not_queued [OF i(1)] show "ipc_inv (k\<lparr>sched := s'\<rparr>)"
    by (intro ipc_inv_sched) auto
  have "all_queued (s'\<lparr>ctx_switch_count := c\<rparr>) = all_queued s'" by (simp add: all_queued_def)
  then have "sched_inv (s'\<lparr>ctx_switch_count := c\<rparr>)"
    using s'(1) by (simp add: sched_inv_def queues_inv_def)
  with s' inv waiting_not_queued [OF i(1)] show "ipc_inv (k\<lparr>sched := s'\<lparr>ctx_switch_count := c\<rparr>\<rparr>)"
    by (intro ipc_inv_sched) auto
qed

lemma schedule_step_inv:
  assumes inv: "ipc_inv k" and h: "hart < 4" and s: "schedule hart (sched k) = Ret (a, s')"
  shows "ipc_inv (k\<lparr>sched := s'\<rparr>)"
proof -
  obtain nxt s1 where "schedule_locked hart (sched k) = Ret (nxt, s1)"
    "s' = s1\<lparr>ctx_switch_count := ctx_switch_count s1 + 1\<rparr>"
    using s by (auto simp: schedule_def split: option.splits)
  with schedule_locked_step_inv(2) [OF inv h] show ?thesis by blast
qed

lemma ipc_step_inv: "ipc_step k op r k' \<Longrightarrow> ipc_inv k \<Longrightarrow> ipc_inv k'"
proof (induction rule: ipc_step.induct)
  case (create k e k')
  then show ?case using create_endpoint_inv(1) by blast
next
  case (send k hart e pid msg r k')
  then show ?case
    using send_spec(2) [of k e _ hart pid msg r k'] by (cases "ep_at k e") (auto simp: send_def)
next
  case (recv_msg k e msg k')
  then show ?case using recv_pop_spec(1) by blast
next
  case (recv_block k e err k')
  then show ?case using recv_block_spec(1) by blast
next
  case (schedule hart k a s')
  then show ?case using schedule_step_inv by blast
next
  case (idle hart k s')
  then show ?case using schedule_locked_step_inv(1) by blast
next
  case (proxy_start k b h)
  then have "prio_ok (thr (sched k))" "sched_inv (sched k)" by (auto simp: ipc_inv_def)
  with proxy_start show ?case by (intro ipc_inv_same_states) (auto simp: proxy_fields)
next
  case (proxy_end k h)
  then have "prio_ok (thr (sched k))" "sched_inv (sched k)" by (auto simp: ipc_inv_def)
  with proxy_end show ?case by (intro ipc_inv_same_states) (auto simp: proxy_fields)
next
  case (slice k)
  then have "prio_ok (thr (sched k))" "sched_inv (sched k)" by (auto simp: ipc_inv_def)
  with slice show ?case by (intro ipc_inv_same_states) (auto simp: proxy_fields)
qed

lemma ipc_run_inv: "ipc_run k0 sent got k \<Longrightarrow> ipc_inv k0 \<Longrightarrow> ipc_inv k"
  by (induction rule: ipc_run.induct) (auto intro: ipc_step_inv)

lemma ipc_step_other_pending:
  assumes "ipc_inv k" and "ipc_step k op None k'" and "\<forall>hart e pid msg. op \<noteq> OpSend hart e pid msg"
  shows "pending k' d = pending k d"
  using assms(2,1,3)
  by (induction k op "None :: Message option" k' rule: ipc_step.induct)
    (auto simp: create_endpoint_inv(3) recv_block_spec(2))

lemma ipc_run_log:
  "ipc_run k0 sent got k \<Longrightarrow> ipc_inv k0 \<Longrightarrow> (\<And>e. pending k0 e = []) \<Longrightarrow>
   sent d = got d @ map snd (pending k d)"
proof (induction rule: ipc_run.induct)
  case run_init
  then show ?case by simp
next
  case (run_send sent got k hart e pid msg k')
  obtain ep r where ep: "ep_at k e = Some ep" and s: "caller_running k" "send hart e pid msg k = (r, k')"
    using run_send by (auto elim: ipc_send_cases)
  note i = ipc_run_inv [OF run_send.hyps(1) run_send.prems(1)]
  show ?case using run_send.IH [OF run_send.prems] send_spec(3) [OF i s(1) ep s(2), of d] by auto
next
  case (run_send_invalid sent got k hart e pid msg k')
  then have "k' = k" by (auto elim!: ipc_send_cases simp: send_def)
  with run_send_invalid show ?case by simp
next
  case (run_recv sent got k e msg k')
  have s: "caller_running k" "recv e k = (Inr msg, k')"
    using run_recv.hyps by (auto elim: ipc_recv_cases)
  note i = ipc_run_inv [OF run_recv.hyps(1) run_recv.prems(1)]
  show ?case
    using run_recv.IH [OF run_recv.prems] recv_pop_spec(2) [OF i s] recv_pop_spec(3) [OF i s, of d] by auto
next
  case (run_other sent got k op k')
  note i = ipc_run_inv [OF run_other.hyps(1) run_other.prems(1)]
  show ?case using run_other.IH [OF run_other.prems] ipc_step_other_pending [OF i run_other.hyps(2,3)] by simp
qed

lemma ipc_init_inv:
  assumes "sched_inv s" and "prio_ok (thr s)"
  shows "ipc_inv (ipc_init s)" and "pending (ipc_init s) e = []"
proof -
  let ?k = "\<lparr>sched = s, endpoints = [None], next_ep_id = 1, send_count = 0, recv_count = 0, hook_calls = [], msip = []\<rparr>"
  have "ipc_inv (((\<lambda>k. snd (create_endpoint k)) ^^ n) ?k) \<and> pending (((\<lambda>k. snd (create_endpoint k)) ^^ n) ?k) e = []" for n
  proof (induction n)
    case 0
    have "ep_at ?k d = None" for d by (simp add: ep_at_def nth_Cons split: nat.splits)
    then show ?case using assms by (simp add: ipc_inv_def ep_inv_def pending_def)
  next
    case (Suc n)
    then show ?case
      using create_endpoint_inv [OF conjunct1 [OF Suc] prod.collapse [symmetric]] by simp
  qed
  then show "ipc_inv (ipc_init s)" "pending (ipc_init s) e = []" by (simp_all add: ipc_init_def)
qed

lemma ipc_init_fields [simp]:
  "endpoints (ipc_init s) = None # map (\<lambda>i. Some (Endpoint_new i)) [1..<9]" "sched (ipc_init s) = s"
proof -
  let ?k = "\<lparr>sched = s, endpoints = [None], next_ep_id = 1, send_count = 0, recv_count = 0, hook_calls = [], msip = []\<rparr>"
  define f where "f n = ((\<lambda>k. snd (create_endpoint k)) ^^ n) ?k" for n
  have "endpoints (f n) = None # map (\<lambda>i. Some (Endpoint_new i)) [1..<Suc n] \<and> sched (f n) = s \<and>
      next_ep_id (f n) = Suc n" for n
    by (induction n) (auto simp: f_def create_endpoint_def Let_def list_update_append)
  from this [of 8] show "endpoints (ipc_init s) = None # map (\<lambda>i. Some (Endpoint_new i)) [1..<9]"
    "sched (ipc_init s) = s" by (simp_all add: ipc_init_def f_def)
qed

lemma recv_value_fields:
  "drop_bit 24 (recv_value msg) = ucast (opcode msg)"
  "recv_value msg AND 0x00FFFFFF = ucast (sender_pid msg) AND 0x00FFFFFF"
proof -
  have m: "(0x00FFFFFF :: u64) = mask 24" by (simp add: mask_eq_exp_minus_1)
  have v: "recv_value msg = push_bit 24 (ucast (opcode msg)) OR take_bit 24 (ucast (sender_pid msg))"
    by (simp only: recv_value_def m take_bit_eq_mask)
  show "drop_bit 24 (recv_value msg) = ucast (opcode msg)"
    unfolding v by (rule bit_word_eqI) (auto simp: bit_simps dest: bit_imp_le_length)
  show "recv_value msg AND 0x00FFFFFF = ucast (sender_pid msg) AND 0x00FFFFFF"
    unfolding v m take_bit_eq_mask [symmetric] by (rule bit_word_eqI) (auto simp: bit_simps)
qed

lemma load_payload_read:
  assumes "ptr \<noteq> 0" and "0 < len" and "len \<le> MAX_PAYLOAD"
  shows "take len (payload (load_payload umem ptr len (Message_new pid opc))) = map umem [ptr..<ptr + len]"
    and "payload_len (load_payload umem ptr len (Message_new pid opc)) = len"
proof -
  have "map (\<lambda>i. umem (ptr + i)) [0..<len] = map umem [ptr..<ptr + len]"
    by (simp add: list_eq_iff_nth_eq)
  then show "take len (payload (load_payload umem ptr len (Message_new pid opc))) = map umem [ptr..<ptr + len]"
    using assms by (simp add: load_payload_def Let_def)
  show "payload_len (load_payload umem ptr len (Message_new pid opc)) = len"
    using assms by (simp add: load_payload_def Let_def)
qed

lemma store_payload_read:
  assumes "buf \<noteq> 0" and "0 < payload_len msg" and "payload_len msg \<le> blen" and "payload_len msg \<le> length (payload msg)"
  shows "map (store_payload msg buf blen umem) [buf..<buf + payload_len msg] = take (payload_len msg) (payload msg)"
  using assms by (auto simp: store_payload_def Let_def list_eq_iff_nth_eq)

lemma load_payload_fields:
  "opcode (load_payload umem ptr len msg) = opcode msg" "sender_pid (load_payload umem ptr len msg) = sender_pid msg"
  "length (payload (load_payload umem ptr len (Message_new pid opc))) = MAX_PAYLOAD"
  by (auto simp: load_payload_def Let_def Message_new_def)

lemma sys_recv_stuck:
  assumes "\<And>f k. f \<in> set env \<Longrightarrow> ep_at k e = None \<Longrightarrow> ep_at (f k) e = None" and "ep_at k e = None"
  shows "sys_recv env e buf blen umem k = None"
  using assms
proof (induction env arbitrary: k)
  case Nil
  then show ?case by (simp add: sys_recv.simps recv_def check_ep_cap_def)
next
  case (Cons f fs)
  then show ?case by (simp add: sys_recv.simps [of "f # fs"] recv_def check_ep_cap_def)
qed

lemma recv_front:
  assumes inv: "ipc_inv k" and run: "caller_running k" and p: "pending k e = (pid, msg) # ms"
  shows "\<exists>k'. recv e k = (Inr msg, k') \<and> pending k' e = ms"
proof (cases "recv e k")
  case (Pair r k')
  have "ep_at k e \<noteq> None" using p by (auto simp: pending_def split: option.splits)
  then show ?thesis
    using Pair recv_block_spec(3) [OF inv run] recv_pop_spec(2) [OF inv run] p by (cases r) fastforce+
qed

section \<open>Properties\<close>

text \<open>
  C20. Messages are neither lost, duplicated nor reordered: in every run from a consistent
  state with empty queues, under any interleaving of IPC calls, scheduling and proxy
  execution, what was sent to an endpoint is what was received from it followed by what is
  still pending there.
\<close>

theorem ipc_fifo:
  assumes "ipc_inv k0" and "\<And>d. pending k0 d = []" and "ipc_run k0 sent got k"
  shows "sent e = got e @ map snd (pending k e)"
  using ipc_run_log [OF assms(3,1,2)] .

text \<open>
  C21. No wake-up is lost: in every run the scheduler state stays consistent, and a thread
  registered as the receiver of an endpoint is blocked on that very endpoint while no
  message is pending there.
\<close>

theorem ipc_no_lost_wakeup:
  assumes "ipc_inv k0" and "ipc_run k0 sent got k" and "ep_at k e = Some ep" and "waiting_receiver ep = Some r"
  shows "sched_inv (sched k) \<and> pending k e = [] \<and> tstate (thr (sched k) r) = Waiting \<and>
    wait_target (thr (sched k) r) = Some (Endpoint e) \<and> r \<notin> runnable (sched k)"
proof -
  have i: "sched_inv (sched k)" "ep_inv k" using ipc_run_inv [OF assms(2,1)] by (auto simp: ipc_inv_def)
  note D = ep_invD(2-4) [OF i(2) assms(3,4)]
  show ?thesis using i D waiting_not_queued [OF i(1) D(2)] assms(3) by (simp add: pending_def)
qed

text \<open>
  C22. A send to an endpoint with a blocked receiver appends the message, wakes exactly that
  receiver (ready and on a run queue) with the higher of the two effective priorities, and
  raises the software interrupt of every other hart; the other threads are untouched.
\<close>

theorem send_wakes_receiver:
  assumes "ipc_inv k" and "caller_running k" and "ep_at k e = Some ep" and "waiting_receiver ep = Some r"
  shows "\<exists>k'. send hart e pid msg k = (Inr (), k') \<and> ipc_inv k' \<and> pending k' e = [(pid, msg)] \<and>
    set (all_queued (sched k')) = insert r (set (all_queued (sched k))) \<and>
    tstate (thr (sched k') r) = Ready \<and>
    effective_priority (thr (sched k') r) =
      max (current_prio (sched k)) (effective_priority (thr (sched k) r)) \<and>
    thr (sched k') = (thr (sched k))(r := thr (sched k') r) \<and>
    msip k' = msip k @ filter (\<lambda>h. h \<noteq> hart) [0..<4]"
proof -
  obtain res k' where s: "send hart e pid msg k = (res, k')" by (cases "send hart e pid msg k")
  note S = send_spec [OF assms(1-3) s]
  have i: "sched_inv (sched k)" "prio_ok (thr (sched k))" "ep_inv k" using assms(1) by (auto simp: ipc_inv_def)
  note D = ep_invD(2,3) [OF i(3) assms(3,4)]
  have cur: "current (sched k) \<noteq> Some r" using assms(2) D(2) by (auto simp: caller_running_def)
  note W = wake_receiver_spec [OF i(1,2) D(2) cur current_prio_bound [OF i(2)]]
  have k': "sched k' = wake_receiver (current_prio (sched k)) r (sched k)"
    "msip k' = msip k @ filter (\<lambda>h. h \<noteq> hart) [0..<4]"
    using s assms(3,4) by (auto simp: send_def Let_def)
  have "pending k e = []" using D(1) assms(3) by (simp add: pending_def)
  moreover have "thr (sched k') = (thr (sched k))(r := thr (sched k') r)"
    using W(6) by (auto simp: k' fun_eq_iff)
  ultimately show ?thesis
    using s S(1,2) S(3) [of e] W(3-5) k' by simp
qed

text \<open>
  C23. Payload round trip: what \<open>sys_send\<close> read from the sender's memory (up to the 64 bytes
  a message holds) is what the \<open>sys_recv\<close> that dequeues the message writes to the receiver's
  buffer, and its return value carries the operation code and the low 24 bits of the sender's pid.
\<close>

theorem sys_ipc_roundtrip:
  assumes "ipc_inv k" and "caller_running k" and "ep_at k e \<noteq> None" and "pending k e = []"
    and "ptr \<noteq> 0" and "0 < len" and "len \<le> MAX_PAYLOAD" and "buf \<noteq> 0" and "len \<le> blen"
    and "sys_send hart umem e opc ptr len k = (res, k1)"
    and "ipc_inv k2" and "caller_running k2" and "pending k2 e = pending k1 e @ ms"
  shows "res = Inr 0 \<and> (\<exists>v umem2' k3. sys_recv env e buf blen umem2 k2 = Some (Inr v, umem2', k3) \<and>
    drop_bit 24 v = ucast opc \<and> v AND 0x00FFFFFF = ucast (current_owner (sched k)) AND 0x00FFFFFF \<and>
    map umem2' [buf..<buf + len] = map umem [ptr..<ptr + len] \<and> pending k3 e = ms)"
proof -
  let ?pid = "current_owner (sched k)"
  let ?msg = "load_payload umem ptr len (Message_new ?pid opc)"
  obtain ep where ep: "ep_at k e = Some ep" using assms(3) by auto
  obtain r k' where s: "send hart e ?pid ?msg k = (r, k')" by (cases "send hart e ?pid ?msg k")
  note S = send_spec [OF assms(1,2) ep s]
  have k1: "k1 = k'" "res = Inr 0" using assms(10) s S(1) by (auto simp: sys_send_def Let_def check_ep_cap_def)
  have "pending k2 e = (?pid, ?msg) # ms" using assms(4,13) S(3) [of e] k1 by simp
  from recv_front [OF assms(11,12) this] obtain k3 where
    rv: "recv e k2 = (Inr ?msg, k3)" "pending k3 e = ms" by blast
  note L = load_payload_read [OF assms(5-7)]
  have "map (store_payload ?msg buf blen umem2) [buf..<buf + len] = map umem [ptr..<ptr + len]"
    using store_payload_read [of buf ?msg blen umem2] L assms by (simp add: load_payload_fields)
  moreover have "sys_recv env e buf blen umem2 k2 =
      Some (Inr (recv_value ?msg), store_payload ?msg buf blen umem2, k3)"
    using rv by (simp add: sys_recv.simps check_ep_cap_def)
  ultimately show ?thesis
    using rv k1 recv_value_fields [of ?msg] by (simp add: load_payload_fields) (simp add: Message_new_def)
qed

text \<open>
  C24. Receiving from an endpoint that does not exist never returns, however often the
  thread is rescheduled, as long as nobody creates that endpoint: \<open>sys_recv\<close> retries on
  every error, including the one for an invalid endpoint.
\<close>

theorem sys_recv_invalid_never_returns:
  assumes "ep_at k e = None" and "\<And>f s. f \<in> set env \<Longrightarrow> ep_at s e = None \<Longrightarrow> ep_at (f s) e = None"
  shows "sys_recv env e buf blen umem k = None"
  by (rule sys_recv_stuck) (use assms in blast)+

section \<open>Witnesses\<close>

definition demo_ipc :: IpcState where
  "demo_ipc = ipc_init demo_sched"

definition demo_wait :: IpcState where
  "demo_wait = (let k = snd (recv 1 demo_ipc)
     in k\<lparr>sched := (upd_thread 2 (\<lambda>t. t\<lparr>tstate := Running\<rparr>) (sched k))\<lparr>current := Some 2\<rparr>\<rparr>)"

lemma demo_ipc_ok: "ipc_inv demo_ipc" "pending demo_ipc e = []" "caller_running demo_ipc"
  "ep_at demo_ipc 1 = Some (Endpoint_new 1)"
  using ipc_init_inv [OF demo_sched_ok(1,2)]
  by (simp_all add: demo_ipc_def caller_running_def demo_sched_def demo_threads_def sched_init_def ep_at_def)

lemma demo_wait_ok: "ipc_inv demo_wait" "caller_running demo_wait"
  "ep_at demo_wait 1 = Some ((Endpoint_new 1)\<lparr>waiting_receiver := Some 1\<rparr>)"
proof -
  define k where "k = snd (recv 1 demo_ipc)"
  have r: "recv 1 demo_ipc = (Inl ''would block'', k)" and k: "sched k = upd_thread 1
      (\<lambda>t. t\<lparr>tstate := Waiting, wait_target := Some (Endpoint 1)\<rparr>) demo_sched"
    using demo_ipc_ok(4)
    by (auto simp: recv_def k_def demo_ipc_def demo_sched_def Endpoint_new_def mq_new_def mq_pop_front_def)
  have w: "demo_wait = k\<lparr>sched := (upd_thread 2 (\<lambda>t. t\<lparr>tstate := Running\<rparr>) (sched k))\<lparr>current := Some 2\<rparr>\<rparr>"
    by (simp add: demo_wait_def k_def Let_def)
  have i: "ipc_inv k" using recv_block_spec(1) [OF demo_ipc_ok(1,3) r] .
  have s: "(upd_thread 2 (\<lambda>t. t\<lparr>tstate := Running\<rparr>) (sched k))\<lparr>current := Some 2\<rparr> =
      (sched_init ((thr (sched k))(2 := (thr (sched k) 2)\<lparr>tstate := Running\<rparr>)))\<lparr>current := Some 2\<rparr>"
    by (simp add: k upd_thread_def demo_sched_def sched_init_def)
  show "ipc_inv demo_wait"
    unfolding w
  proof (rule ipc_inv_sched [OF i])
    show "sched_inv ((upd_thread 2 (\<lambda>t. t\<lparr>tstate := Running\<rparr>) (sched k))\<lparr>current := Some 2\<rparr>)"
      unfolding s by (rule sched_inv_init)
    show "prio_ok (thr ((upd_thread 2 (\<lambda>t. t\<lparr>tstate := Running\<rparr>) (sched k))\<lparr>current := Some 2\<rparr>))"
      using i by (auto simp: ipc_inv_def prio_ok_def)
  qed (auto simp: k demo_sched_def sched_init_def demo_threads_def split: if_splits)
  show "caller_running demo_wait" by (simp add: w caller_running_def)
  show "ep_at demo_wait 1 = Some ((Endpoint_new 1)\<lparr>waiting_receiver := Some 1\<rparr>)"
    using recv_block_spec(4) [OF demo_ipc_ok(1,3) r demo_ipc_ok(4)]
    by (simp add: w demo_ipc_def demo_sched_def)
qed

theorem ipc_fifo_witness:
  "\<exists>k. ipc_run demo_ipc ((\<lambda>_. [])(1 := [Message_new 1 7])) (\<lambda>_. []) k \<and>
     map snd (pending k 1) = [Message_new 1 7]"
proof -
  obtain r k where s: "send 0 1 1 (Message_new 1 7) demo_ipc = (r, k)" by (cases "send 0 1 1 (Message_new 1 7) demo_ipc")
  have "ipc_step demo_ipc (OpSend 0 1 1 (Message_new 1 7)) None k"
    by (rule ipc_step.send [OF demo_ipc_ok(3) s])
  then have run: "ipc_run demo_ipc ((\<lambda>_. [])(1 := [Message_new 1 7])) (\<lambda>_. []) k"
    using ipc_run.run_send [OF ipc_run.run_init, of demo_ipc 0 1 1 "Message_new 1 7" k] demo_ipc_ok(4) by simp
  then show ?thesis using ipc_fifo [OF demo_ipc_ok(1,2) run, of 1] by auto
qed

theorem ipc_no_lost_wakeup_witness:
  "sched_inv (sched demo_wait) \<and> pending demo_wait 1 = [] \<and> 1 \<notin> runnable (sched demo_wait)"
  using ipc_no_lost_wakeup [OF demo_wait_ok(1) ipc_run.run_init demo_wait_ok(3)] by simp

theorem send_wakes_receiver_witness:
  "\<exists>k'. send 0 1 3 (Message_new 3 7) demo_wait = (Inr (), k') \<and> 1 \<in> set (all_queued (sched k')) \<and>
     tstate (thr (sched k') 1) = Ready"
  using send_wakes_receiver [OF demo_wait_ok, of 1 0 3 "Message_new 3 7"] by auto

theorem sys_ipc_roundtrip_witness:
  "\<exists>v m k3. sys_recv [] 1 100 64 (\<lambda>_. 0) (snd (sys_send 0 of_nat 1 7 8 3 demo_ipc)) = Some (Inr v, m, k3) \<and>
     drop_bit 24 v = ucast (7 :: u16) \<and> map m [100..<103] = [8, 9, 10]"
proof -
  obtain r k where s: "sys_send 0 of_nat 1 7 8 3 demo_ipc = (r, k)" by (cases "sys_send 0 of_nat 1 7 8 3 demo_ipc")
  then have "send 0 1 (current_owner (sched demo_ipc)) (load_payload of_nat 8 3
      (Message_new (current_owner (sched demo_ipc)) 7)) demo_ipc = (Inr (), k)"
    using demo_ipc_ok(4) by (auto simp: sys_send_def Let_def check_ep_cap_def send_def)
  note S = send_spec(2) [OF demo_ipc_ok(1,3,4) this]
  have "caller_running k"
    using s demo_ipc_ok(3,4)
    by (auto simp: sys_send_def send_def Let_def check_ep_cap_def Endpoint_new_def caller_running_def)
  from sys_ipc_roundtrip [OF demo_ipc_ok(1,3) _ demo_ipc_ok(2) _ _ _ _ _ s S this, of 100 64 "[]" "[]" "\<lambda>_. 0"]
  show ?thesis using demo_ipc_ok(4) s by (auto simp: MAX_PAYLOAD_def upt_rec)
qed

theorem sys_recv_invalid_never_returns_witness:
  "sys_recv [\<lambda>s. s, \<lambda>s. s] 77 100 64 (\<lambda>_. 0) demo_ipc = None"
  by (rule sys_recv_invalid_never_returns) (auto simp: demo_ipc_def ep_at_def)

end
