(* ===== verification/Extension.thy ===== *)
theory Extension
  imports Kernel_Prelude
begin

unbundle bit_operations_syntax

text \<open>
  Kernel extensions, kernel/src/extension/mod.rs and extension/examples.rs: the bytecode
  verifier (a depth-first search with an explicit stack), the sandboxed interpreter, the
  extension table with its hooks, and the example programs. A Rust array access out of
  range is the outcome \<open>Panic\<close>.
\<close>

section \<open>Definitions\<close>

definition MAX_EXTENSIONS :: usize where "MAX_EXTENSIONS = 8"
definition MAX_BYTECODE :: usize where "MAX_BYTECODE = 512"
definition SCRATCH_SIZE :: usize where "SCRATCH_SIZE = 256"
definition CYCLE_BUDGET :: usize where "CYCLE_BUDGET = 1000"
definition REG_COUNT :: usize where "REG_COUNT = 32"
definition STACK_DEPTH :: usize where "STACK_DEPTH = 32"

definition OP_MOV :: u8 where "OP_MOV = 0x01"
definition OP_ADD :: u8 where "OP_ADD = 0x02"
definition OP_SUB :: u8 where "OP_SUB = 0x03"
definition OP_CMP :: u8 where "OP_CMP = 0x04"
definition OP_JMP :: u8 where "OP_JMP = 0x05"
definition OP_JE :: u8 where "OP_JE = 0x06"
definition OP_JNE :: u8 where "OP_JNE = 0x07"
definition OP_LOAD :: u8 where "OP_LOAD = 0x08"
definition OP_STORE :: u8 where "OP_STORE = 0x09"
definition OP_PUSH :: u8 where "OP_PUSH = 0x0A"
definition OP_POP :: u8 where "OP_POP = 0x0B"
definition OP_RET :: u8 where "OP_RET = 0x0C"

lemmas opcode_defs = OP_MOV_def OP_ADD_def OP_SUB_def OP_CMP_def OP_JMP_def OP_JE_def OP_JNE_def
  OP_LOAD_def OP_STORE_def OP_PUSH_def OP_POP_def OP_RET_def

definition HOOK_SYSCALL_ENTER :: u8 where "HOOK_SYSCALL_ENTER = 1"
definition HOOK_SYSCALL_EXIT :: u8 where "HOOK_SYSCALL_EXIT = 2"
definition HOOK_TIMER :: u8 where "HOOK_TIMER = 3"
definition HOOK_IPC_SEND :: u8 where "HOOK_IPC_SEND = 4"

datatype ExecResult = ExecOk | Timeout | ExecError string

record Extension =
  ext_name :: "u8 list"
  ext_pid :: u32
  bytecode :: "u8 list"
  bc_len :: usize
  hook_type :: u8
  active :: bool
  scratch :: "u8 list"

definition empty_extension :: Extension where
  "empty_extension =
     \<lparr>ext_name = replicate 16 0, ext_pid = 0, bytecode = replicate MAX_BYTECODE 0, bc_len = 0,
      hook_type = 0, active = False, scratch = replicate SCRATCH_SIZE 0\<rparr>"

record ExtState =
  extensions :: "Extension list"
  ext_count :: usize

definition ext_init :: ExtState where
  "ext_init = \<lparr>extensions = replicate MAX_EXTENSIONS empty_extension, ext_count = 0\<rparr>"

subsection \<open>Instruction fields\<close>

definition imm_at :: "u8 list \<Rightarrow> usize \<Rightarrow> u32" where
  "imm_at bc pc = of_nat (from_le [bc ! (pc + 4), bc ! (pc + 5), bc ! (pc + 6), bc ! (pc + 7)])"

subsection \<open>The verifier\<close>

text \<open>
  What the verifier checks of one instruction, and the addresses it goes on to, in the order
  it pushes them (those already visited are dropped when pushing).
\<close>

definition fall_through :: "u8 list \<Rightarrow> usize \<Rightarrow> usize list" where
  "fall_through bc pc = (if pc div 8 + 1 < length bc div 8 then [pc + 8] else [])"

definition check_jump :: "string \<Rightarrow> u8 list \<Rightarrow> usize \<Rightarrow> usize result" where
  "check_jump name bc pc =
     (let offset = sint (imm_at bc pc);
          target = nat (int pc + offset)
      in if offset \<le> 0 then Inl (name @ '': back-edge (non-positive offset)'')
         else if target mod 8 \<noteq> 0 then Inl (name @ '': misaligned target'')
         else if target \<ge> length bc then Inl (name @ '': target out of bounds'')
         else Inr target)"

definition check_instr :: "u8 list \<Rightarrow> usize \<Rightarrow> usize list result" where
  "check_instr bc pc =
     (let op = bc ! pc; r1 = bc ! (pc + 1); r2 = bc ! (pc + 2); r3 = bc ! (pc + 3);
          offset = unat (imm_at bc pc)
      in if op = OP_RET then Inr []
         else if op = OP_JMP then
           (case check_jump ''JMP'' bc pc of Inl e \<Rightarrow> Inl e | Inr target \<Rightarrow> Inr [target])
         else if op = OP_JE \<or> op = OP_JNE then
           (case check_jump ''conditional jump'' bc pc of
              Inl e \<Rightarrow> Inl e | Inr target \<Rightarrow> Inr (fall_through bc pc @ [target]))
         else if op = OP_MOV then
           (if r1 \<ge> 32 then Inl ''MOV: invalid dst register'' else Inr (fall_through bc pc))
         else if op = OP_ADD \<or> op = OP_SUB then
           (if r1 \<ge> 32 then Inl ''ADD/SUB: invalid dst register''
            else if r2 \<ge> 32 then Inl ''ADD/SUB: invalid src1 register''
            else if r3 \<ge> 32 then Inl ''ADD/SUB: invalid src2 register''
            else Inr (fall_through bc pc))
         else if op = OP_CMP then
           (if r2 \<ge> 32 then Inl ''CMP: invalid src1 register''
            else if r3 \<ge> 32 then Inl ''CMP: invalid src2 register''
            else Inr (fall_through bc pc))
         else if op = OP_LOAD then
           (if r1 \<ge> 32 then Inl ''LOAD: invalid dst register''
            else if offset + 8 > SCRATCH_SIZE then Inl ''LOAD: scratch access out of bounds''
            else Inr (fall_through bc pc))
         else if op = OP_STORE then
           (if r2 \<ge> 32 then Inl ''STORE: invalid src register''
            else if offset + 8 > SCRATCH_SIZE then Inl ''STORE: scratch access out of bounds''
            else Inr (fall_through bc pc))
         else if op = OP_PUSH then
           (if r2 \<ge> 32 then Inl ''PUSH: invalid src register'' else Inr (fall_through bc pc))
         else if op = OP_POP then
           (if r1 \<ge> 32 then Inl ''POP: invalid dst register'' else Inr (fall_through bc pc))
         else Inl ''unknown opcode'')"

text \<open>The 64-entry stack of the search, top first; a push beyond it is out of range.\<close>

fun push_all :: "usize list \<Rightarrow> usize list \<Rightarrow> usize list outcome" where
  "push_all [] stk = Ret stk"
| "push_all (p # ps) stk = (if length stk < 64 then push_all ps (p # stk) else Panic)"

function verify_loop :: "u8 list \<Rightarrow> bool list \<Rightarrow> usize list \<Rightarrow> unit result outcome" where
  "verify_loop bc visited [] = Ret (Inr ())"
| "verify_loop bc visited (pc # stk) =
     (let idx = pc div 8 in
      if idx \<ge> length bc div 8 then Ret (Inl ''pc out of bounds'')
      else if idx \<ge> length visited then Panic
      else if visited ! idx then Ret (Inl ''back-edge detected (potential infinite loop)'')
      else if pc + 7 \<ge> length bc then Panic
      else
        (case check_instr bc pc of
           Inl e \<Rightarrow> Ret (Inl e)
         | Inr ps \<Rightarrow>
             (case push_all (filter (\<lambda>p. \<not> visited[idx := True] ! (p div 8)) ps) stk of
                Ret stk' \<Rightarrow>
                  (if length stk' \<ge> 64 then Ret (Inl ''control flow too complex for verifier'')
                   else verify_loop bc (visited[idx := True]) stk')
              | Panic \<Rightarrow> Panic
              | Hang \<Rightarrow> Hang)))"
  by pat_completeness auto

termination
  by (relation "measure (\<lambda>(bc, visited, stk). length (filter Not visited))") (auto simp: length_filter_visit)

definition verify_bytecode :: "u8 list \<Rightarrow> unit result outcome" where
  "verify_bytecode bc =
     (if bc = [] then Ret (Inl ''empty bytecode'')
      else if length bc < 8 then Ret (Inl ''bytecode too short (min 8 bytes)'')
      else if length bc > MAX_BYTECODE then Ret (Inl ''bytecode exceeds maximum length'')
      else if length bc mod 8 \<noteq> 0 then Ret (Inl ''bytecode length not multiple of 8'')
      else
        obind (verify_loop bc (replicate 64 False) [0]) (\<lambda>r.
          case r of
            Inl e \<Rightarrow> Ret (Inl e)
          | Inr _ \<Rightarrow>
              if bc ! (length bc - 8) \<noteq> OP_RET then Ret (Inl ''bytecode must end with RET instruction'')
              else Ret (Inr ())))"

subsection \<open>The interpreter\<close>

record Vm =
  regs :: "u64 list"
  vstack :: "u64 list"
  vsp :: usize
  vpc :: usize
  eq_flag :: bool
  vscratch :: "u8 list"

datatype ExecStep = Next Vm | Stop ExecResult Vm

definition reg_get :: "u8 \<Rightarrow> Vm \<Rightarrow> u64 outcome" where
  "reg_get r vm = (if unat r < length (regs vm) then Ret (regs vm ! unat r) else Panic)"

definition reg_set :: "u8 \<Rightarrow> u64 \<Rightarrow> Vm \<Rightarrow> Vm outcome" where
  "reg_set r v vm = (if unat r < length (regs vm) then Ret (vm\<lparr>regs := (regs vm)[unat r := v]\<rparr>) else Panic)"

text \<open>The 32-entry stack and the scratch buffer, with the panic of an index out of range.\<close>

definition stack_get :: "usize \<Rightarrow> Vm \<Rightarrow> u64 outcome" where
  "stack_get i vm = (if i < length (vstack vm) then Ret (vstack vm ! i) else Panic)"

definition stack_set :: "usize \<Rightarrow> u64 \<Rightarrow> Vm \<Rightarrow> Vm outcome" where
  "stack_set i v vm = (if i < length (vstack vm) then Ret (vm\<lparr>vstack := (vstack vm)[i := v]\<rparr>) else Panic)"

definition scratch_get :: "usize \<Rightarrow> Vm \<Rightarrow> u64 outcome" where
  "scratch_get off vm =
     (if off + 8 \<le> length (vscratch vm) then Ret (of_nat (from_le (take 8 (drop off (vscratch vm))))) else Panic)"

definition scratch_set :: "usize \<Rightarrow> u64 \<Rightarrow> Vm \<Rightarrow> Vm outcome" where
  "scratch_set off v vm =
     (if off + 8 \<le> length (vscratch vm)
      then Ret (vm\<lparr>vscratch := overwrite off (to_le 8 v) (vscratch vm)\<rparr>) else Panic)"

definition advance :: "Vm \<Rightarrow> Vm" where
  "advance vm = vm\<lparr>vpc := vpc vm + 8\<rparr>"

definition vm_jump :: "string \<Rightarrow> u8 list \<Rightarrow> Vm \<Rightarrow> ExecStep" where
  "vm_jump name bc vm =
     (let target = int (vpc vm) + sint (imm_at bc (vpc vm))
      in if target < 0 \<or> nat target \<ge> length bc \<or> nat target mod 8 \<noteq> 0
         then Stop (ExecError (name @ '': invalid target at runtime'')) vm
         else Next (vm\<lparr>vpc := nat target\<rparr>))"

definition exec_instr :: "u8 list \<Rightarrow> Vm \<Rightarrow> ExecStep outcome" where
  "exec_instr bc vm =
     (let pc = vpc vm; op = bc ! pc; r1 = bc ! (pc + 1); r2 = bc ! (pc + 2); r3 = bc ! (pc + 3);
          imm = imm_at bc pc; offset = unat imm
      in if pc + 7 \<ge> length bc then Panic
         else if op = OP_MOV then obind (reg_set r1 (ucast imm) vm) (\<lambda>vm1. Ret (Next (advance vm1)))
         else if op = OP_ADD then
           obind (reg_get r2 vm) (\<lambda>a. obind (reg_get r3 vm) (\<lambda>b.
             obind (reg_set r1 (a + b) vm) (\<lambda>vm1. Ret (Next (advance vm1)))))
         else if op = OP_SUB then
           obind (reg_get r2 vm) (\<lambda>a. obind (reg_get r3 vm) (\<lambda>b.
             obind (reg_set r1 (a - b) vm) (\<lambda>vm1. Ret (Next (advance vm1)))))
         else if op = OP_CMP then
           obind (reg_get r2 vm) (\<lambda>a. obind (reg_get r3 vm) (\<lambda>b.
             Ret (Next (advance (vm\<lparr>eq_flag := (a = b)\<rparr>)))))
         else if op = OP_JMP then Ret (vm_jump ''JMP'' bc vm)
         else if op = OP_JE then Ret (if eq_flag vm then vm_jump ''JE'' bc vm else Next (advance vm))
         else if op = OP_JNE then Ret (if \<not> eq_flag vm then vm_jump ''JNE'' bc vm else Next (advance vm))
         else if op = OP_LOAD then
           (if offset + 8 > SCRATCH_SIZE then Ret (Stop (ExecError ''LOAD: scratch out of bounds at runtime'') vm)
            else obind (scratch_get offset vm) (\<lambda>v. obind (reg_set r1 v vm) (\<lambda>vm1. Ret (Next (advance vm1)))))
         else if op = OP_STORE then
           (if offset + 8 > SCRATCH_SIZE then Ret (Stop (ExecError ''STORE: scratch out of bounds at runtime'') vm)
            else obind (reg_get r2 vm) (\<lambda>v. obind (scratch_set offset v vm) (\<lambda>vm1. Ret (Next (advance vm1)))))
         else if op = OP_PUSH then
           (if vsp vm \<ge> STACK_DEPTH then Ret (Stop (ExecError ''execution stack overflow'') vm)
            else obind (reg_get r2 vm) (\<lambda>v. obind (stack_set (vsp vm) v vm) (\<lambda>vm1.
              Ret (Next (advance (vm1\<lparr>vsp := usize_add (vsp vm1) 1\<rparr>))))))
         else if op = OP_POP then
           (if vsp vm = 0 then Ret (Stop (ExecError ''execution stack underflow'') vm)
            else
              (let sp = usize_sub (vsp vm) 1 in
               obind (stack_get sp vm) (\<lambda>v. obind (reg_set r1 v (vm\<lparr>vsp := sp\<rparr>)) (\<lambda>vm1. Ret (Next (advance vm1))))))
         else if op = OP_RET then Ret (Stop ExecOk vm)
         else Ret (Stop (ExecError ''unknown opcode at runtime'') vm))"

function exec_loop :: "u8 list \<Rightarrow> usize \<Rightarrow> Vm \<Rightarrow> (ExecResult \<times> Vm) outcome" where
  "exec_loop bc cycles vm =
     (if cycles \<ge> CYCLE_BUDGET then Ret (Timeout, vm)
      else if vpc vm + 8 > length bc then Ret (ExecError ''pc out of bounds at runtime'', vm)
      else
        (case exec_instr bc vm of
           Ret (Next vm1) \<Rightarrow> exec_loop bc (cycles + 1) vm1
         | Ret (Stop res vm1) \<Rightarrow> Ret (res, vm1)
         | Panic \<Rightarrow> Panic
         | Hang \<Rightarrow> Hang))"
  by pat_completeness auto

termination
  by (relation "measure (\<lambda>(bc, cycles, vm). CYCLE_BUDGET - cycles)") auto

declare exec_loop.simps [simp del]

definition execute_extension :: "Extension \<Rightarrow> u8 \<Rightarrow> u64 \<Rightarrow> u64 \<Rightarrow> (ExecResult \<times> Extension) outcome" where
  "execute_extension ext hook context0 context1 =
     (let sc = overwrite 8 (to_le 8 context1) (overwrite 0 (to_le 8 context0) (scratch ext));
          vm = \<lparr>regs = (replicate REG_COUNT 0)[30 := ucast hook, 31 := context0],
                vstack = replicate STACK_DEPTH 0, vsp = 0, vpc = 0, eq_flag = False, vscratch = sc\<rparr>
      in if bc_len ext > length (bytecode ext) then Panic
         else obind (exec_loop (take (bc_len ext) (bytecode ext)) 0 vm) (\<lambda>(res, vm1).
           Ret (res, ext\<lparr>scratch := vscratch vm1\<rparr>)))"

subsection \<open>The extension table\<close>

definition register :: "u32 \<Rightarrow> u8 \<Rightarrow> u8 list \<Rightarrow> u8 list \<Rightarrow> ExtState \<Rightarrow> (usize option \<times> ExtState) outcome" where
  "register pid hook bc name st =
     obind (verify_bytecode bc) (\<lambda>r.
       case r of
         Inl _ \<Rightarrow> Ret (None, st)
       | Inr _ \<Rightarrow>
           if ext_count st \<ge> MAX_EXTENSIONS then Ret (None, st)
           else
             (let i = ext_count st; old = extensions st ! i;
                  len = min (length bc) MAX_BYTECODE; name_len = min (length name) 15;
                  ext = \<lparr>ext_name = (overwrite 0 (take name_len name) (ext_name old))[name_len := 0],
                         ext_pid = pid, bytecode = overwrite 0 (take len bc) (bytecode old), bc_len = len,
                         hook_type = hook, active = True, scratch = replicate SCRATCH_SIZE 0\<rparr>
              in Ret (Some i, st\<lparr>extensions := (extensions st)[i := ext], ext_count := i + 1\<rparr>)))"

definition unregister :: "usize \<Rightarrow> ExtState \<Rightarrow> bool \<times> ExtState" where
  "unregister i st =
     (if i < ext_count st \<and> active (extensions st ! i)
      then (True, st\<lparr>extensions := (extensions st)[i := (extensions st ! i)\<lparr>active := False\<rparr>]\<rparr>)
      else (False, st))"

definition list_entry :: "Extension \<Rightarrow> u8 list" where
  "list_entry ext =
     take 16 (ext_name ext) @ [hook_type ext, of_nat (bc_len ext), of_nat (bc_len ext div 256)] @
     to_le 8 (of_nat (from_le (take 8 (drop 128 (scratch ext)))) :: u64)"

fun list_from :: "Extension list \<Rightarrow> usize \<Rightarrow> u8 list \<Rightarrow> usize \<times> u8 list" where
  "list_from [] pos buf = (pos, buf)"
| "list_from (e # es) pos buf =
     (if \<not> active e then list_from es pos buf
      else if pos + 27 > length buf then (pos, buf)
      else list_from es (pos + 27) (overwrite pos (list_entry e) buf))"

definition list_extensions :: "ExtState \<Rightarrow> u8 list \<Rightarrow> usize \<times> u8 list" where
  "list_extensions st buf = list_from (take (ext_count st) (extensions st)) 0 buf"

subsection \<open>Hooks\<close>

text \<open>What a hook prints, by extension number.\<close>

datatype ExtLog = LogValues usize u8 u64 u64 | LogTimeout usize | LogError usize string

definition scratch_u64 :: "Extension \<Rightarrow> usize \<Rightarrow> u64" where
  "scratch_u64 e off = of_nat (from_le (take 8 (drop off (scratch e))))"

definition run_one :: "u8 \<Rightarrow> u64 \<Rightarrow> u64 \<Rightarrow> usize \<Rightarrow> ExtState \<Rightarrow> (ExtLog list \<times> ExtState) outcome" where
  "run_one hook context0 context1 i st =
     (let ext = extensions st ! i in
      if \<not> active ext \<or> hook_type ext \<noteq> hook then Ret ([], st)
      else obind (execute_extension ext hook context0 context1) (\<lambda>(res, ext1).
        Ret (case res of
            ExecOk \<Rightarrow>
              (if scratch ext1 ! 250 = 1
               then [LogValues i hook (scratch_u64 ext1 240) (scratch_u64 ext1 248)] else [],
               st\<lparr>extensions := (extensions st)[i := ext1]\<rparr>)
          | Timeout \<Rightarrow>
              ([LogTimeout i], st\<lparr>extensions := (extensions st)[i := ext1\<lparr>active := False\<rparr>]\<rparr>)
          | ExecError e \<Rightarrow>
              ([LogError i e], st\<lparr>extensions := (extensions st)[i := ext1\<lparr>active := False\<rparr>]\<rparr>))))"

fun run_hooks :: "u8 \<Rightarrow> u64 \<Rightarrow> u64 \<Rightarrow> usize list \<Rightarrow> ExtState \<Rightarrow> (ExtLog list \<times> ExtState) outcome" where
  "run_hooks hook context0 context1 [] st = Ret ([], st)"
| "run_hooks hook context0 context1 (i # is) st =
     obind (run_one hook context0 context1 i st) (\<lambda>(l1, st1).
       obind (run_hooks hook context0 context1 is st1) (\<lambda>(l2, st2). Ret (l1 @ l2, st2)))"

definition run_hook :: "u8 \<Rightarrow> u64 \<Rightarrow> u64 \<Rightarrow> ExtState \<Rightarrow> (ExtLog list \<times> ExtState) outcome" where
  "run_hook hook context0 context1 st = run_hooks hook context0 context1 [0..<ext_count st] st"

definition execute_single :: "usize \<Rightarrow> u8 \<Rightarrow> u64 \<Rightarrow> u64 \<Rightarrow> ExtState \<Rightarrow> (bool \<times> ExtState) outcome" where
  "execute_single i hook context0 context1 st =
     (if i \<ge> ext_count st \<or> \<not> active (extensions st ! i) then Ret (False, st)
      else obind (execute_extension (extensions st ! i) hook context0 context1) (\<lambda>(res, ext1).
        Ret (if res = ExecOk then (True, st\<lparr>extensions := (extensions st)[i := ext1]\<rparr>)
             else (False, st\<lparr>extensions := (extensions st)[i := ext1\<lparr>active := False\<rparr>]\<rparr>))))"

definition read_scratch :: "usize \<Rightarrow> usize \<Rightarrow> ExtState \<Rightarrow> u8" where
  "read_scratch i off st =
     (if i < ext_count st \<and> off < SCRATCH_SIZE then scratch (extensions st ! i) ! off else 0)"

definition read_scratch_u32 :: "usize \<Rightarrow> usize \<Rightarrow> ExtState \<Rightarrow> u32" where
  "read_scratch_u32 i off st =
     (if i < ext_count st \<and> off + 4 \<le> SCRATCH_SIZE
      then of_nat (from_le (take 4 (drop off (scratch (extensions st ! i))))) else 0)"

subsection \<open>The example programs\<close>

definition enc :: "u8 \<Rightarrow> u8 \<Rightarrow> u8 \<Rightarrow> u8 \<Rightarrow> u32 \<Rightarrow> u8 list" where
  "enc op r1 r2 r3 imm = [op, r1, r2, r3] @ to_le 4 imm"

definition i_mov :: "u8 \<Rightarrow> u32 \<Rightarrow> u8 list" where "i_mov dst imm = enc 0x01 dst 0 0 imm"
definition i_add :: "u8 \<Rightarrow> u8 \<Rightarrow> u8 \<Rightarrow> u8 list" where "i_add dst s1 s2 = enc 0x02 dst s1 s2 0"
definition i_sub :: "u8 \<Rightarrow> u8 \<Rightarrow> u8 \<Rightarrow> u8 list" where "i_sub dst s1 s2 = enc 0x03 dst s1 s2 0"
definition i_cmp :: "u8 \<Rightarrow> u8 \<Rightarrow> u8 list" where "i_cmp s1 s2 = enc 0x04 0 s1 s2 0"
definition i_jmp :: "u32 \<Rightarrow> u8 list" where "i_jmp off = enc 0x05 0 0 0 off"
definition i_je :: "u32 \<Rightarrow> u8 list" where "i_je off = enc 0x06 0 0 0 off"
definition i_jne :: "u32 \<Rightarrow> u8 list" where "i_jne off = enc 0x07 0 0 0 off"
definition i_load :: "u8 \<Rightarrow> u32 \<Rightarrow> u8 list" where "i_load dst off = enc 0x08 dst 0 0 off"
definition i_store :: "u8 \<Rightarrow> u32 \<Rightarrow> u8 list" where "i_store src off = enc 0x09 0 src 0 off"
definition i_push :: "u8 \<Rightarrow> u8 list" where "i_push src = enc 0x0A 0 src 0 0"
definition i_pop :: "u8 \<Rightarrow> u8 list" where "i_pop dst = enc 0x0B dst 0 0 0"
definition i_ret :: "u8 list" where "i_ret = enc 0x0C 0 0 0 0"

definition SYSCALL_TRACER_BYTECODE :: "u8 list" where
  "SYSCALL_TRACER_BYTECODE =
     concat [i_load 1 0, i_load 2 8, i_store 1 240, i_store 2 248, i_mov 0 1, i_store 0 250, i_ret]"

definition PACKET_COUNTER_BYTECODE :: "u8 list" where
  "PACKET_COUNTER_BYTECODE =
     concat [i_load 0 128, i_mov 1 1, i_add 0 0 1, i_store 0 128, i_store 0 248, i_mov 1 1, i_store 1 250, i_ret]"

definition PERF_MONITOR_BYTECODE :: "u8 list" where
  "PERF_MONITOR_BYTECODE =
     concat [i_load 0 0, i_load 1 136, i_sub 0 0 1, i_store 0 240, i_load 0 0, i_store 0 136, i_mov 1 1,
       i_store 1 250, i_ret]"

definition register_syscall_tracer :: "u32 \<Rightarrow> ExtState \<Rightarrow> (usize option \<times> ExtState) outcome" where
  "register_syscall_tracer pid =
     register pid HOOK_SYSCALL_ENTER SYSCALL_TRACER_BYTECODE [0x73, 0x74, 0x72, 0x61, 0x63, 0x65]"

definition register_packet_counter :: "u32 \<Rightarrow> ExtState \<Rightarrow> (usize option \<times> ExtState) outcome" where
  "register_packet_counter pid =
     register pid HOOK_IPC_SEND PACKET_COUNTER_BYTECODE [0x70, 0x6B, 0x74, 0x63, 0x6E, 0x74]"

definition register_perf_monitor :: "u32 \<Rightarrow> ExtState \<Rightarrow> (usize option \<times> ExtState) outcome" where
  "register_perf_monitor pid =
     register pid HOOK_TIMER PERF_MONITOR_BYTECODE [0x70, 0x65, 0x72, 0x66, 0x6D, 0x6F, 0x6E]"

section \<open>The verifier\<close>

text \<open>Every visited instruction has been checked, and its successors are visited or on the stack.\<close>

definition covers :: "u8 list \<Rightarrow> bool list \<Rightarrow> usize list \<Rightarrow> bool" where
  "covers bc V stk \<longleftrightarrow>
     (\<forall>i < length V. V ! i \<longrightarrow> i < length bc div 8 \<and>
        (\<exists>ps. check_instr bc (8 * i) = Inr ps \<and> (\<forall>p \<in> set ps. V ! (p div 8) \<or> p \<in> set stk)))"

definition aligned :: "u8 list \<Rightarrow> usize \<Rightarrow> bool" where
  "aligned bc p \<longleftrightarrow> p mod 8 = 0 \<and> p < length bc"

lemma alignedD: "aligned bc p \<Longrightarrow> 8 * (p div 8) = p" "aligned bc p \<Longrightarrow> p < length bc"
  by (auto simp: aligned_def)

lemma aligned_room:
  assumes "aligned bc p" and "length bc mod 8 = 0"
  shows "p + 7 < length bc" and "p div 8 < length bc div 8"
proof -
  obtain n where n: "length bc = 8 * n" using assms(2) by (metis mod_0_imp_dvd dvd_def)
  obtain k where k: "p = 8 * k" using assms(1) by (metis aligned_def mod_0_imp_dvd dvd_def)
  show "p + 7 < length bc" "p div 8 < length bc div 8"
    using assms(1) n k by (auto simp: aligned_def)
qed

lemma fall_through_aligned: "aligned bc p \<Longrightarrow> q \<in> set (fall_through bc p) \<Longrightarrow> aligned bc q \<and> p < q"
  by (auto simp: fall_through_def aligned_def split: if_splits)

lemma check_jump_aligned: "check_jump name bc p = Inr q \<Longrightarrow> aligned bc q \<and> p < q"
  by (auto simp: check_jump_def Let_def aligned_def split: if_splits)

lemma check_instr_successors:
  assumes "check_instr bc p = Inr ps" and "aligned bc p" and "q \<in> set ps"
  shows "aligned bc q \<and> p < q" and "length ps \<le> 2"
proof -
  have "set ps \<subseteq> set (fall_through bc p) \<union> {q. \<exists>name. check_jump name bc p = Inr q}"
    using assms(1) by (auto simp: check_instr_def Let_def split: if_splits sum.splits)
  then show "aligned bc q \<and> p < q"
    using assms fall_through_aligned check_jump_aligned by blast
  show "length ps \<le> 2"
    using assms(1) by (auto simp: check_instr_def fall_through_def Let_def split: if_splits sum.splits)
qed

lemma check_instr_length: "check_instr bc p = Inr ps \<Longrightarrow> length ps \<le> 2"
  by (auto simp: check_instr_def fall_through_def Let_def split: if_splits sum.splits)

lemma push_all_set: "push_all ps stk = Ret stk' \<Longrightarrow> set stk' = set ps \<union> set stk"
  by (induction ps stk rule: push_all.induct) (auto split: if_splits)

lemma push_all_total: "length ps + length stk \<le> 64 \<Longrightarrow> \<exists>stk'. push_all ps stk = Ret stk'"
  by (induction ps stk rule: push_all.induct) auto

lemma verify_loop_total:
  assumes "length bc mod 8 = 0" and "length bc \<le> MAX_BYTECODE"
  shows "length V = 64 \<Longrightarrow> length stk < 64 \<Longrightarrow> \<forall>p \<in> set stk. aligned bc p \<Longrightarrow> \<exists>r. verify_loop bc V stk = Ret r"
  using assms
proof (induction bc V stk rule: verify_loop.induct)
  case (1 bc visited)
  then show ?case by simp
next
  case (2 bc visited pc stk)
  have a: "aligned bc pc" using 2 by simp
  note room = aligned_room [OF a \<open>length bc mod 8 = 0\<close>]
  have n: "length bc div 8 \<le> 64" using \<open>length bc \<le> MAX_BYTECODE\<close> by (simp add: MAX_BYTECODE_def)
  show ?case
  proof (cases "visited ! (pc div 8)")
    case True
    then show ?thesis using room n 2 by simp
  next
    case unvisited: False
    show ?thesis
    proof (cases "check_instr bc pc")
      case (Inl e)
      then show ?thesis using room n 2 unvisited by simp
    next
      case (Inr ps)
      let ?ps = "filter (\<lambda>p. \<not> visited[pc div 8 := True] ! (p div 8)) ps"
      have "length ?ps \<le> 2"
        using check_instr_length [OF Inr] length_filter_le le_trans by blast
      then have "length ?ps + length stk \<le> 64" using 2(3) by simp
      then obtain stk' where p: "push_all ?ps stk = Ret stk'" using push_all_total by blast
      have al: "\<forall>p \<in> set stk'. aligned bc p"
        using push_all_set [OF p] check_instr_successors(1) [OF Inr a] 2 by auto
      have "\<exists>r. verify_loop bc (visited[pc div 8 := True]) stk' = Ret r" if "length stk' < 64"
        by (rule 2(1) [OF refl _ _ unvisited _ Inr p]) (use room n 2(2,5,6) al that in auto)
      then show ?thesis using room n 2(2) unvisited Inr p by (auto simp: not_le)
    qed
  qed
qed

lemma verify_loop_sound:
  assumes "length bc mod 8 = 0" and "length bc \<le> MAX_BYTECODE"
  shows "verify_loop bc V stk = Ret (Inr ()) \<Longrightarrow> length V = 64 \<Longrightarrow> \<forall>p \<in> set stk. aligned bc p \<Longrightarrow>
    covers bc V stk \<Longrightarrow>
    \<exists>V'. length V' = 64 \<and> covers bc V' [] \<and> (\<forall>i < 64. V ! i \<longrightarrow> V' ! i) \<and> (\<forall>p \<in> set stk. V' ! (p div 8))"
  using assms
proof (induction bc V stk rule: verify_loop.induct)
  case (1 bc visited)
  then show ?case by auto
next
  case (2 bc visited pc stk)
  let ?V = "visited[pc div 8 := True]"
  have a: "aligned bc pc" using 2 by simp
  note room = aligned_room [OF a \<open>length bc mod 8 = 0\<close>]
  have n: "length bc div 8 \<le> 64" using \<open>length bc \<le> MAX_BYTECODE\<close> by (simp add: MAX_BYTECODE_def)
  have unvisited: "\<not> visited ! (pc div 8)"
    using 2(2,3) room n by (auto simp: Let_def split: if_splits)
  then obtain ps stk' where Inr: "check_instr bc pc = Inr ps"
    and p: "push_all (filter (\<lambda>p. \<not> ?V ! (p div 8)) ps) stk = Ret stk'"
    and l: "length stk' < 64" and v: "verify_loop bc ?V stk' = Ret (Inr ())"
    using 2(2,3) room n by (auto simp: Let_def not_le split: if_splits sum.splits outcome.splits)
  have al: "\<forall>p \<in> set stk'. aligned bc p"
    using push_all_set [OF p] check_instr_successors(1) [OF Inr a] 2(4) by auto
  have cov: "covers bc ?V stk'"
    unfolding covers_def
  proof (intro allI impI)
    fix i assume i: "i < length ?V" and vi: "?V ! i"
    show "i < length bc div 8 \<and> (\<exists>ps. check_instr bc (8 * i) = Inr ps \<and> (\<forall>p \<in> set ps. ?V ! (p div 8) \<or> p \<in> set stk'))"
    proof (cases "i = pc div 8")
      case True
      then show ?thesis using room Inr alignedD(1) [OF a] push_all_set [OF p] by auto
    next
      case False
      then have "visited ! i" using vi by simp
      then obtain qs where q: "i < length bc div 8" "check_instr bc (8 * i) = Inr qs"
        "\<forall>p \<in> set qs. visited ! (p div 8) \<or> p \<in> set (pc # stk)"
        using 2(5) i unfolding covers_def by auto
      have "?V ! (q' div 8) \<or> q' \<in> set stk'" if "q' \<in> set qs" for q'
        using q(3) that push_all_set [OF p] room n 2(3) by (cases "q' div 8 = pc div 8") (auto simp: nth_list_update)
      then show ?thesis using q by blast
    qed
  qed
  have "\<exists>V'. length V' = 64 \<and> covers bc V' [] \<and> (\<forall>i < 64. ?V ! i \<longrightarrow> V' ! i) \<and> (\<forall>p \<in> set stk'. V' ! (p div 8))"
    by (rule 2(1) [OF refl _ _ unvisited _ Inr p]) (use room n 2(3,6,7) l v al cov in auto)
  then obtain V' where V': "length V' = 64" "covers bc V' []" "\<forall>i < 64. ?V ! i \<longrightarrow> V' ! i" "\<forall>p \<in> set stk'. V' ! (p div 8)"
    by blast
  have "V' ! (pc div 8)" using V'(3) room n 2(3) by simp
  moreover have "V' ! i" if "i < 64" "visited ! i" for i
    using V'(3) that 2(3) by (cases "i = pc div 8") auto
  ultimately show ?case using V' push_all_set [OF p] by (intro exI [of _ V']) auto
qed

lemma verify_bytecode_cases:
  assumes v: "verify_bytecode bc = Ret (Inr ())"
  shows "8 \<le> length bc" and "length bc \<le> MAX_BYTECODE" and "length bc mod 8 = 0"
    and "bc ! (length bc - 8) = OP_RET" and "verify_loop bc (replicate 64 False) [0] = Ret (Inr ())"
proof -
  show len: "8 \<le> length bc" "length bc \<le> MAX_BYTECODE" "length bc mod 8 = 0"
    using v by (auto simp: verify_bytecode_def split: if_splits)
  obtain r where r: "verify_loop bc (replicate 64 False) [0] = Ret r"
    using v by (auto simp: verify_bytecode_def simp del: verify_loop.simps split: if_splits)
  then show "bc ! (length bc - 8) = OP_RET" "verify_loop bc (replicate 64 False) [0] = Ret (Inr ())"
    using v len by (cases r; force simp: verify_bytecode_def simp del: verify_loop.simps split: if_splits)+
qed

lemma verified_closed:
  assumes "verify_bytecode bc = Ret (Inr ())"
  obtains V where "length V = 64" and "covers bc V []" and "V ! 0"
proof -
  note C = verify_bytecode_cases [OF assms]
  have "aligned bc 0" "covers bc (replicate 64 False) [0]" using C by (auto simp: aligned_def covers_def)
  with C verify_loop_sound [of bc "replicate 64 False" "[0]"] that show ?thesis by auto
qed

section \<open>The interpreter on verified programs\<close>

definition vm_ok :: "u8 list \<Rightarrow> bool list \<Rightarrow> Vm \<Rightarrow> bool" where
  "vm_ok bc V vm \<longleftrightarrow>
     length (regs vm) = 32 \<and> length (vstack vm) = 32 \<and> vsp vm \<le> 32 \<and> length (vscratch vm) = SCRATCH_SIZE \<and>
     aligned bc (vpc vm) \<and> V ! (vpc vm div 8)"

definition benign :: "ExecResult \<Rightarrow> bool" where
  "benign r \<longleftrightarrow> r = ExecOk \<or> r = ExecError ''execution stack overflow'' \<or> r = ExecError ''execution stack underflow''"

definition step_ok :: "u8 list \<Rightarrow> bool list \<Rightarrow> Vm \<Rightarrow> ExecStep outcome \<Rightarrow> bool" where
  "step_ok bc V vm s \<longleftrightarrow>
     (case s of
        Ret (Next vm1) \<Rightarrow> vm_ok bc V vm1 \<and> vpc vm < vpc vm1
      | Ret (Stop r vm1) \<Rightarrow> benign r \<and> length (vscratch vm1) = SCRATCH_SIZE
      | _ \<Rightarrow> False)"

lemma reg_less: "\<not> (32 :: u8) \<le> r \<Longrightarrow> unat r < 32"
  by (simp add: word_le_nat_alt)

lemma exec_instr_ok:
  assumes cov: "covers bc V []" and V: "length V = 64" and vm: "vm_ok bc V vm"
    and m: "length bc mod 8 = 0" and len: "8 \<le> length bc" "length bc \<le> MAX_BYTECODE"
    and ret: "bc ! (length bc - 8) = OP_RET"
  shows "step_ok bc V vm (exec_instr bc vm)"
proof -
  let ?pc = "vpc vm"
  have a: "aligned bc ?pc" "V ! (?pc div 8)" using vm by (auto simp: vm_ok_def)
  note room = aligned_room [OF a(1) m]
  have "?pc div 8 < length V" using room len V by (simp add: MAX_BYTECODE_def)
  then obtain ps where ps: "check_instr bc ?pc = Inr ps" and sv: "\<forall>p \<in> set ps. V ! (p div 8)"
    using cov a alignedD(1) [OF a(1)] unfolding covers_def by force
  have fall: "fall_through bc ?pc = [?pc + 8]" if "bc ! ?pc \<noteq> OP_RET"
  proof -
    have "?pc \<noteq> length bc - 8" using that ret by metis
    moreover have "8 * (length bc div 8) = length bc" using m by auto
    ultimately have "?pc div 8 + 1 < length bc div 8" using alignedD(1) [OF a(1)] room by linarith
    then show ?thesis by (simp add: fall_through_def)
  qed
  have next_ok: "aligned bc p \<and> ?pc < p \<and> V ! (p div 8)" if "p \<in> set ps" for p
    using check_instr_successors(1) [OF ps a(1) that] sv that by blast
  have adv: "step_ok bc V vm (Ret (Next (advance vm1)))"
    if "vm_ok bc V vm1" "vpc vm1 = ?pc" "?pc + 8 \<in> set ps" for vm1
    using next_ok [OF that(3)] that(1,2) by (simp add: step_ok_def vm_ok_def advance_def)
  have jump: "step_ok bc V vm (Ret (vm_jump name bc vm))" if "check_jump n bc ?pc = Inr t" "t \<in> set ps" for name n t
  proof -
    have "t = nat (int ?pc + sint (imm_at bc ?pc))" "0 < sint (imm_at bc ?pc)"
      using that(1) by (auto simp: check_jump_def Let_def split: if_splits)
    with next_ok [OF that(2)] vm show ?thesis
      by (auto simp: step_ok_def vm_jump_def vm_ok_def Let_def aligned_def)
  qed
  have upd: "vm_ok bc V (vm\<lparr>regs := (regs vm)[r := v]\<rparr>)" "vm_ok bc V (vm\<lparr>eq_flag := f\<rparr>)"
    "vsp vm < STACK_DEPTH \<Longrightarrow> vm_ok bc V (vm\<lparr>vstack := (vstack vm)[r := v], vsp := Suc (vsp vm)\<rparr>)"
    "vm_ok bc V (vm\<lparr>vsp := vsp vm - Suc 0, regs := (regs vm)[r := v]\<rparr>)"
    "r + 8 \<le> SCRATCH_SIZE \<Longrightarrow> vm_ok bc V (vm\<lparr>vscratch := overwrite r (to_le 8 v) (vscratch vm)\<rparr>)" for r v f
    using vm by (auto simp: vm_ok_def STACK_DEPTH_def)
  have stop: "step_ok bc V vm (Ret (Stop r vm1))" if "benign r" "vscratch vm1 = vscratch vm" for r vm1
    using vm that by (simp add: step_ok_def vm_ok_def)
  have rl: "length (regs vm) = 32" using vm by (simp add: vm_ok_def)
  have bc: "\<not> length bc \<le> ?pc + 7" using room by linarith
  have sp: "vsp vm \<le> 32" "length (vstack vm) = 32" "length (vscratch vm) = SCRATCH_SIZE" using vm by (auto simp: vm_ok_def)
  then have add: "usize_add (vsp vm) 1 = Suc (vsp vm)" and sub: "0 < vsp vm \<Longrightarrow> usize_sub (vsp vm) 1 = vsp vm - 1"
    using usize_add_small [of "vsp vm" 1] usize_sub_small [of 1 "vsp vm"] by auto
  show ?thesis
  proof (cases "bc ! ?pc = OP_RET")
    case True
    then show ?thesis using stop [of ExecOk vm] bc by (simp add: exec_instr_def Let_def opcode_defs benign_def)
  next
    case nret: False
    note f = fall [OF nret]
    show ?thesis
    proof (cases "bc ! ?pc \<in> {OP_JMP, OP_JE, OP_JNE}")
      case True
      show ?thesis
      proof (cases "bc ! ?pc = OP_JMP")
        case True
        then obtain t where "check_jump ''JMP'' bc ?pc = Inr t" "ps = [t]"
          using ps by (auto simp: check_instr_def Let_def opcode_defs split: sum.splits)
        with True show ?thesis using jump bc by (simp add: exec_instr_def Let_def opcode_defs)
      next
        case False
        with \<open>bc ! ?pc \<in> _\<close> have op: "bc ! ?pc = OP_JE \<or> bc ! ?pc = OP_JNE" by simp
        then obtain t where t: "check_jump ''conditional jump'' bc ?pc = Inr t" "ps = [?pc + 8, t]"
          using ps f by (auto simp: check_instr_def Let_def opcode_defs split: sum.splits)
        then show ?thesis
          using op bc jump [OF t(1)] adv [OF vm refl] by (auto simp: exec_instr_def Let_def opcode_defs)
      qed
    next
      case False
      then have "ps = fall_through bc ?pc"
        using ps nret by (auto simp: check_instr_def Let_def split: if_splits)
      then have fp: "?pc + 8 \<in> set ps" by (simp add: f)
      consider "bc ! ?pc = OP_MOV" | "bc ! ?pc = OP_ADD" | "bc ! ?pc = OP_SUB" | "bc ! ?pc = OP_CMP"
        | "bc ! ?pc = OP_LOAD" | "bc ! ?pc = OP_STORE" | "bc ! ?pc = OP_PUSH" | "bc ! ?pc = OP_POP"
        using ps nret False by (auto simp: check_instr_def Let_def split: if_splits)
      then show ?thesis
        using ps [unfolded check_instr_def Let_def] fp rl bc sp add sub
        by cases (auto simp: exec_instr_def Let_def opcode_defs reg_get_def reg_set_def reg_less benign_def not_le
            stack_get_def stack_set_def scratch_get_def scratch_set_def STACK_DEPTH_def intro!: adv upd stop
            split: if_splits)
    qed
  qed
qed

lemma unit_result_cases [elim]: "\<forall>e. r \<noteq> Inl e \<Longrightarrow> r \<noteq> Inr () \<Longrightarrow> P"
  by (cases r) auto

lemma exec_loop_ok:
  assumes cov: "covers bc V []" and V: "length V = 64" and m: "length bc mod 8 = 0"
    and len: "8 \<le> length bc" "length bc \<le> MAX_BYTECODE" and ret: "bc ! (length bc - 8) = OP_RET"
  shows "vm_ok bc V vm \<Longrightarrow> cycles \<le> vpc vm div 8 \<Longrightarrow>
    \<exists>r vm1. exec_loop bc cycles vm = Ret (r, vm1) \<and> benign r \<and> length (vscratch vm1) = SCRATCH_SIZE"
proof (induction "CYCLE_BUDGET - cycles" arbitrary: cycles vm rule: less_induct)
  case less
  have a: "aligned bc (vpc vm)" using less.prems by (simp add: vm_ok_def)
  note room = aligned_room [OF a m]
  have c: "cycles < CYCLE_BUDGET" using less.prems room len by (simp add: MAX_BYTECODE_def CYCLE_BUDGET_def)
  note step = exec_instr_ok [OF cov V less.prems(1) m len ret]
  show ?case
  proof (cases "exec_instr bc vm")
    case (Ret s)
    show ?thesis
    proof (cases s)
      case (Next vm1)
      have n: "vm_ok bc V vm1" "vpc vm < vpc vm1" using step Ret Next by (auto simp: step_ok_def)
      have a1: "aligned bc (vpc vm1)" using n by (simp add: vm_ok_def)
      have "vpc vm div 8 + 1 \<le> vpc vm1 div 8" using alignedD(1) [OF a] alignedD(1) [OF a1] n(2) by linarith
      with less.prems have "cycles + 1 \<le> vpc vm1 div 8" by simp
      moreover have "CYCLE_BUDGET - (cycles + 1) < CYCLE_BUDGET - cycles" using c by simp
      ultimately show ?thesis
        using less.hyps [OF _ n(1), of "cycles + 1"] c room Ret Next
        by (subst exec_loop.simps) simp
    next
      case (Stop r vm1)
      then show ?thesis using step Ret c room by (subst exec_loop.simps) (simp add: step_ok_def)
    qed
  qed (use step in \<open>auto simp: step_ok_def\<close>)
qed

lemma execute_extension_ok:
  assumes v: "verify_bytecode (take (bc_len e) (bytecode e)) = Ret (Inr ())" and b: "bc_len e \<le> length (bytecode e)"
    and s: "length (scratch e) = SCRATCH_SIZE"
  shows "\<exists>r sc. execute_extension e h c0 c1 = Ret (r, e\<lparr>scratch := sc\<rparr>) \<and> length sc = SCRATCH_SIZE \<and> benign r"
proof -
  let ?bc = "take (bc_len e) (bytecode e)"
  note C = verify_bytecode_cases [OF v]
  obtain V where V: "length V = 64" "covers ?bc V []" "V ! 0" using verified_closed [OF v] .
  define vm where "vm = \<lparr>regs = (replicate REG_COUNT 0)[30 := ucast h, 31 := c0], vstack = replicate STACK_DEPTH 0,
    vsp = 0, vpc = 0, eq_flag = False, vscratch = overwrite 8 (to_le 8 c1) (overwrite 0 (to_le 8 c0) (scratch e))\<rparr>"
  have "aligned ?bc 0" unfolding aligned_def using C(1) by linarith
  then have "vm_ok ?bc V vm" "0 \<le> vpc vm div 8"
    using V s by (simp_all add: vm_def vm_ok_def REG_COUNT_def STACK_DEPTH_def SCRATCH_SIZE_def)
  from exec_loop_ok [OF V(2,1) C(3,1,2,4) this] b show ?thesis
    by (auto simp: execute_extension_def Let_def vm_def not_less)
qed

section \<open>The extension table\<close>

definition ext_ok :: "Extension \<Rightarrow> bool" where
  "ext_ok e \<longleftrightarrow> length (bytecode e) = MAX_BYTECODE \<and> length (scratch e) = SCRATCH_SIZE \<and> bc_len e \<le> MAX_BYTECODE \<and>
     length (ext_name e) = 16 \<and>
     (active e \<longrightarrow> verify_bytecode (take (bc_len e) (bytecode e)) = Ret (Inr ()))"

definition exts_ok :: "ExtState \<Rightarrow> bool" where
  "exts_ok st \<longleftrightarrow> length (extensions st) = MAX_EXTENSIONS \<and> ext_count st \<le> MAX_EXTENSIONS \<and>
     list_all ext_ok (extensions st)"

text \<open>Everything the kernel does with the table, from boot on.\<close>

inductive ext_reach :: "ExtState \<Rightarrow> bool" where
  boot: "ext_reach ext_init"
| registered: "ext_reach st \<Longrightarrow> register pid hook bc name st = Ret (r, st') \<Longrightarrow> ext_reach st'"
| unregistered: "ext_reach st \<Longrightarrow> unregister i st = (r, st') \<Longrightarrow> ext_reach st'"
| hooked: "ext_reach st \<Longrightarrow> run_hook hook c0 c1 st = Ret (l, st') \<Longrightarrow> ext_reach st'"
| single: "ext_reach st \<Longrightarrow> execute_single i hook c0 c1 st = Ret (r, st') \<Longrightarrow> ext_reach st'"

text \<open>What running an extension may change: its scratch buffer, and it may be switched off.\<close>

definition same_code :: "Extension \<Rightarrow> Extension \<Rightarrow> bool" where
  "same_code e e' \<longleftrightarrow> ext_name e' = ext_name e \<and> ext_pid e' = ext_pid e \<and> bytecode e' = bytecode e \<and>
     bc_len e' = bc_len e \<and> hook_type e' = hook_type e \<and> length (scratch e') = SCRATCH_SIZE \<and>
     (active e' \<longrightarrow> active e)"

lemma same_code_refl: "ext_ok e \<Longrightarrow> same_code e e"
  by (simp add: same_code_def ext_ok_def)

lemma same_code_trans: "same_code e e1 \<Longrightarrow> same_code e1 e2 \<Longrightarrow> same_code e e2"
  by (simp add: same_code_def)

lemma same_code_ok: "ext_ok e \<Longrightarrow> same_code e e' \<Longrightarrow> ext_ok e'"
  by (simp add: same_code_def ext_ok_def)

lemma ext_ok_at: "exts_ok st \<Longrightarrow> i < ext_count st \<Longrightarrow> i < length (extensions st) \<and> ext_ok (extensions st ! i)"
  by (auto simp: exts_ok_def list_all_length)

lemma exts_ok_update: "exts_ok st \<Longrightarrow> ext_ok e \<Longrightarrow> exts_ok (st\<lparr>extensions := (extensions st)[i := e]\<rparr>)"
  by (cases "i < length (extensions st)") (auto simp: exts_ok_def list_all_length nth_list_update)

lemma ext_ok_run:
  assumes "ext_ok e" and "active e"
  shows "\<exists>r sc. execute_extension e h c0 c1 = Ret (r, e\<lparr>scratch := sc\<rparr>) \<and> length sc = SCRATCH_SIZE \<and> benign r"
  using assms by (intro execute_extension_ok) (auto simp: ext_ok_def)

lemma benign_not_Timeout [simp]: "\<not> benign Timeout"
  by (simp add: benign_def)

definition quiet :: "ExtLog list \<Rightarrow> bool" where
  "quiet l \<longleftrightarrow> list_all (\<lambda>x. case x of LogTimeout i \<Rightarrow> False | _ \<Rightarrow> True) l"

text \<open>What one or more hook executions do to the table.\<close>

definition hook_effect :: "u8 \<Rightarrow> ExtState \<Rightarrow> ExtState \<Rightarrow> bool" where
  "hook_effect h st st' \<longleftrightarrow> exts_ok st' \<and> ext_count st' = ext_count st \<and>
     (\<forall>i < MAX_EXTENSIONS. same_code (extensions st ! i) (extensions st' ! i) \<and>
        (\<not> active (extensions st ! i) \<or> hook_type (extensions st ! i) \<noteq> h \<longrightarrow>
           extensions st' ! i = extensions st ! i))"

lemma hook_effect_refl: "exts_ok st \<Longrightarrow> hook_effect h st st"
  by (auto simp: hook_effect_def exts_ok_def list_all_length intro: same_code_refl)

lemma hook_effect_trans:
  assumes "hook_effect h st st1" and "hook_effect h st1 st2"
  shows "hook_effect h st st2"
  unfolding hook_effect_def
proof (intro conjI allI impI)
  show "exts_ok st2" "ext_count st2 = ext_count st" using assms by (auto simp: hook_effect_def)
  fix i assume i: "i < MAX_EXTENSIONS"
  let ?e = "extensions st ! i" and ?e1 = "extensions st1 ! i" and ?e2 = "extensions st2 ! i"
  have s: "same_code ?e ?e1" "same_code ?e1 ?e2" using assms i by (auto simp: hook_effect_def)
  then show "same_code ?e ?e2" by (rule same_code_trans)
  assume n: "\<not> active ?e \<or> hook_type ?e \<noteq> h"
  then have "?e1 = ?e" using assms(1) i by (simp add: hook_effect_def)
  with n show "?e2 = ?e" using assms(2) i by (simp add: hook_effect_def)
qed

lemma hook_effect_update:
  assumes "exts_ok st" and "same_code (extensions st ! i) e" and "active (extensions st ! i)"
    and "hook_type (extensions st ! i) = h" and "i < ext_count st"
  shows "hook_effect h st (st\<lparr>extensions := (extensions st)[i := e]\<rparr>)"
proof -
  have i: "i < length (extensions st)" "ext_ok (extensions st ! i)" using ext_ok_at [OF assms(1,5)] by auto
  then have "exts_ok (st\<lparr>extensions := (extensions st)[i := e]\<rparr>)"
    using exts_ok_update [OF assms(1) same_code_ok [OF i(2) assms(2)]] by blast
  then show ?thesis
    using assms i by (auto simp: hook_effect_def exts_ok_def list_all_length nth_list_update intro: same_code_refl)
qed

lemma run_one_ok:
  assumes ok: "exts_ok st" and i: "i < ext_count st"
  shows "\<exists>l st'. run_one h c0 c1 i st = Ret (l, st') \<and> hook_effect h st st' \<and> quiet l"
proof (cases "active (extensions st ! i) \<and> hook_type (extensions st ! i) = h")
  case False
  then show ?thesis using hook_effect_refl [OF ok] by (auto simp: run_one_def quiet_def)
next
  case True
  let ?e = "extensions st ! i"
  have e: "ext_ok ?e" using ext_ok_at [OF ok i] by simp
  obtain r sc where x: "execute_extension ?e h c0 c1 = Ret (r, ?e\<lparr>scratch := sc\<rparr>)" "length sc = SCRATCH_SIZE" "benign r"
    using ext_ok_run [OF e] True by blast
  have "same_code ?e (?e\<lparr>scratch := sc\<rparr>)" "same_code ?e (?e\<lparr>scratch := sc, active := False\<rparr>)"
    using x(2) by (simp_all add: same_code_def)
  then have eff: "hook_effect h st (st\<lparr>extensions := (extensions st)[i := ?e\<lparr>scratch := sc\<rparr>]\<rparr>)"
    "hook_effect h st (st\<lparr>extensions := (extensions st)[i := ?e\<lparr>scratch := sc, active := False\<rparr>]\<rparr>)"
    using hook_effect_update [OF ok] True i by blast+
  define st1 where "st1 = st\<lparr>extensions := (extensions st)[i := ?e\<lparr>scratch := sc\<rparr>]\<rparr>"
  define st2 where "st2 = st\<lparr>extensions := (extensions st)[i := ?e\<lparr>scratch := sc, active := False\<rparr>]\<rparr>"
  have "run_one h c0 c1 i st = Ret (case r of
      ExecOk \<Rightarrow> (if sc ! 250 = 1 then [LogValues i h (scratch_u64 (?e\<lparr>scratch := sc\<rparr>) 240)
        (scratch_u64 (?e\<lparr>scratch := sc\<rparr>) 248)] else [], st1)
    | Timeout \<Rightarrow> ([LogTimeout i], st2) | ExecError e \<Rightarrow> ([LogError i e], st2))"
    using True by (simp add: run_one_def x(1) st1_def st2_def Let_def cong: ExecResult.case_cong)
  then show ?thesis
    using x(3) eff [folded st1_def st2_def] by (cases r) (simp_all add: quiet_def)
qed

lemma run_hooks_ok:
  "exts_ok st \<Longrightarrow> \<forall>i \<in> set is. i < ext_count st \<Longrightarrow>
   \<exists>l st'. run_hooks h c0 c1 is st = Ret (l, st') \<and> hook_effect h st st' \<and> quiet l"
proof (induction "is" arbitrary: st)
  case Nil
  then show ?case by (auto simp: quiet_def intro: hook_effect_refl)
next
  case (Cons i "is")
  obtain l1 st1 where r: "run_one h c0 c1 i st = Ret (l1, st1)" "hook_effect h st st1" "quiet l1"
    using run_one_ok [OF Cons.prems(1), of i h c0 c1] Cons.prems(2) by auto
  have st1: "exts_ok st1" "ext_count st1 = ext_count st" using r(2) by (auto simp: hook_effect_def)
  then obtain l2 st2 where "run_hooks h c0 c1 is st1 = Ret (l2, st2)" "hook_effect h st1 st2" "quiet l2"
    using Cons.IH [OF st1(1)] Cons.prems(2) by auto
  with r hook_effect_trans [OF r(2), of st2] show ?case by (simp add: quiet_def)
qed

lemma run_hook_ok:
  "exts_ok st \<Longrightarrow> \<exists>l st'. run_hook h c0 c1 st = Ret (l, st') \<and> hook_effect h st st' \<and> quiet l"
  unfolding run_hook_def by (rule run_hooks_ok) auto

lemma execute_single_ok:
  assumes ok: "exts_ok st"
  shows "\<exists>r st'. execute_single i h c0 c1 st = Ret (r, st') \<and> exts_ok st'"
proof (cases "i < ext_count st \<and> active (extensions st ! i)")
  case False
  then show ?thesis using ok by (auto simp: execute_single_def)
next
  case True
  let ?e = "extensions st ! i"
  have e: "ext_ok ?e" using ext_ok_at [OF ok] True by simp
  obtain r sc where x: "execute_extension ?e h c0 c1 = Ret (r, ?e\<lparr>scratch := sc\<rparr>)" "length sc = SCRATCH_SIZE"
    using ext_ok_run [OF e] True by blast
  have "ext_ok (?e\<lparr>scratch := sc\<rparr>)" "ext_ok (?e\<lparr>scratch := sc, active := False\<rparr>)"
    using e x(2) by (simp_all add: ext_ok_def)
  note u = this [THEN exts_ok_update [OF ok]]
  show ?thesis
    using True u by (cases "r = ExecOk") (auto simp: execute_single_def x(1))
qed

lemma verify_bytecode_returns: "\<exists>r. verify_bytecode bc = Ret r"
proof -
  have "\<exists>r. verify_loop bc (replicate 64 False) [0] = Ret r"
    if "8 \<le> length bc" "length bc \<le> MAX_BYTECODE" "length bc mod 8 = 0"
    by (rule verify_loop_total) (use that in \<open>auto simp: aligned_def\<close>)
  then show ?thesis
    by (fastforce simp: verify_bytecode_def not_less simp del: verify_loop.simps split: sum.splits)
qed

definition installed :: "u32 \<Rightarrow> u8 \<Rightarrow> u8 list \<Rightarrow> u8 list \<Rightarrow> Extension \<Rightarrow> Extension" where
  "installed pid h bc name old =
     \<lparr>ext_name = (overwrite 0 (take (min (length name) 15) name) (ext_name old))[min (length name) 15 := 0],
      ext_pid = pid, bytecode = overwrite 0 bc (bytecode old), bc_len = length bc,
      hook_type = h, active = True, scratch = replicate SCRATCH_SIZE 0\<rparr>"

lemma register_eq:
  "register pid h bc name st = Ret
     (if verify_bytecode bc = Ret (Inr ()) \<and> ext_count st < MAX_EXTENSIONS
      then (Some (ext_count st), st\<lparr>extensions := (extensions st)[ext_count st :=
              installed pid h bc name (extensions st ! ext_count st)], ext_count := ext_count st + 1\<rparr>)
      else (None, st))"
proof -
  obtain r where r: "verify_bytecode bc = Ret r" using verify_bytecode_returns by blast
  show ?thesis
  proof (cases r)
    case (Inl e)
    then show ?thesis by (simp add: register_def r)
  next
    case (Inr u)
    then have "length bc \<le> MAX_BYTECODE" using verify_bytecode_cases(2) [of bc] r by simp
    then show ?thesis
      using Inr by (simp add: register_def r Let_def min_absorb1 installed_def not_le)
  qed
qed

lemma installed_ok:
  "ext_ok old \<Longrightarrow> verify_bytecode bc = Ret (Inr ()) \<Longrightarrow> ext_ok (installed pid h bc name old)"
  using verify_bytecode_cases(2) [of bc] by (auto simp: ext_ok_def installed_def overwrite_def)

lemma register_ok:
  assumes ok: "exts_ok st" and r: "register pid h bc name st = Ret (ro, st')"
  shows "exts_ok st'"
proof (cases "verify_bytecode bc = Ret (Inr ()) \<and> ext_count st < MAX_EXTENSIONS")
  case False
  with r ok show ?thesis by (simp add: register_eq split: if_splits)
next
  case True
  have "ext_ok (extensions st ! ext_count st)"
    using ok True by (simp add: exts_ok_def list_all_length)
  then have "ext_ok (installed pid h bc name (extensions st ! ext_count st))"
    using True by (simp add: installed_ok)
  from exts_ok_update [OF ok this, of "ext_count st"] True r show ?thesis
    by (auto simp: register_eq exts_ok_def)
qed

lemma ext_reach_ok: "ext_reach st \<Longrightarrow> exts_ok st"
proof (induction rule: ext_reach.induct)
  case boot
  then show ?case
    by (simp add: exts_ok_def ext_init_def ext_ok_def empty_extension_def list_all_length)
next
  case (unregistered st i r st')
  then have "ext_ok ((extensions st ! i)\<lparr>active := False\<rparr>)" if "i < ext_count st"
    using ext_ok_at [OF unregistered.IH that] by (simp add: ext_ok_def)
  with unregistered show ?case by (auto simp: unregister_def exts_ok_update split: if_splits)
next
  case (hooked st hook c0 c1 l st')
  then show ?case using run_hook_ok [of st hook c0 c1] by (auto simp: hook_effect_def)
next
  case (single st i hook c0 c1 r st')
  then show ?case using execute_single_ok [of st i hook c0 c1] by auto
qed (auto intro: register_ok)

section \<open>Properties\<close>

text \<open>
  C25. Soundness of the verifier: a program it accepts runs to the end on every input. The
  interpreter never reads or writes outside the registers, the stack or the scratch buffer,
  never runs out of its cycle budget, never leaves the program and never meets an unknown
  instruction; it ends normally or with an overflow or underflow of its own small stack,
  and changes nothing of the extension but the contents of the scratch buffer.
\<close>

theorem verified_runs_safely:
  assumes "verify_bytecode (take (bc_len e) (bytecode e)) = Ret (Inr ())"
    and "bc_len e \<le> length (bytecode e)" and "length (scratch e) = SCRATCH_SIZE"
  shows "\<exists>r sc. execute_extension e h c0 c1 = Ret (r, e\<lparr>scratch := sc\<rparr>) \<and> length sc = SCRATCH_SIZE \<and>
    (r = ExecOk \<or> r = ExecError ''execution stack overflow'' \<or> r = ExecError ''execution stack underflow'')"
  using execute_extension_ok [OF assms, of h c0 c1] by (auto simp: benign_def)

text \<open>
  C26. The verifier itself always returns: whatever bytes a process submits, no index of the
  search leaves the 64-entry arrays or the program, and the search ends.
\<close>

theorem verify_bytecode_total: "\<exists>r. verify_bytecode bc = Ret r"
  by (rule verify_bytecode_returns)

text \<open>
  C27. Hooks are safe and confined in every state the kernel can reach by registering,
  unregistering and running extensions: a hook returns without a panic and without a
  timeout, leaves every extension of another hook or switched off exactly as it was, and
  of the others changes at most the scratch buffer and the switch.
\<close>

theorem run_hook_confined:
  assumes "ext_reach st"
  shows "\<exists>l st'. run_hook h c0 c1 st = Ret (l, st') \<and> ext_count st' = ext_count st \<and> quiet l \<and>
    (\<forall>i < MAX_EXTENSIONS. same_code (extensions st ! i) (extensions st' ! i) \<and>
      (\<not> active (extensions st ! i) \<or> hook_type (extensions st ! i) \<noteq> h \<longrightarrow>
         extensions st' ! i = extensions st ! i))"
  using run_hook_ok [OF ext_reach_ok [OF assms], of h c0 c1] by (auto simp: hook_effect_def)

text \<open>
  None of the three example extensions can be registered: each stores the log flag with
  an eight-byte store at offset 250 of the 256-byte scratch buffer, which the verifier refuses.
\<close>

lemma examples_rejected:
  "register_syscall_tracer pid st = Ret (None, st) \<and> register_packet_counter pid st = Ret (None, st) \<and>
   register_perf_monitor pid st = Ret (None, st)"
proof -
  have "verify_bytecode SYSCALL_TRACER_BYTECODE = Ret (Inl ''STORE: scratch access out of bounds'')"
    by code_simp
  moreover have "verify_bytecode PACKET_COUNTER_BYTECODE = Ret (Inl ''STORE: scratch access out of bounds'')"
    by code_simp
  moreover have "verify_bytecode PERF_MONITOR_BYTECODE = Ret (Inl ''STORE: scratch access out of bounds'')"
    by code_simp
  ultimately show ?thesis
    by (simp add: register_syscall_tracer_def register_packet_counter_def register_perf_monitor_def register_eq)
qed

text \<open>
  A forward conditional jump to the next instruction is refused as a back-edge: the search
  pushes the same address twice.
\<close>

lemma jump_to_next_rejected:
  "verify_bytecode (concat [i_je 8, i_ret]) = Ret (Inl ''back-edge detected (potential infinite loop)'')"
  by code_simp

section \<open>Witnesses\<close>

definition demo_program :: "u8 list" where
  "demo_program = concat [i_mov 0 1, i_cmp 0 0, i_je 16, i_push 0, i_store 0 128, i_ret]"

definition demo_extension :: Extension where
  "demo_extension = empty_extension\<lparr>bytecode := overwrite 0 demo_program (replicate MAX_BYTECODE 0), bc_len := 48\<rparr>"

lemma demo_program_verified: "verify_bytecode demo_program = Ret (Inr ())"
  by code_simp

theorem verified_runs_safely_witness:
  "\<exists>r sc. execute_extension demo_extension 3 7 9 = Ret (r, demo_extension\<lparr>scratch := sc\<rparr>) \<and> length sc = 256"
proof -
  have l: "length demo_program = 48" by (simp add: demo_program_def i_mov_def i_cmp_def i_je_def i_push_def i_store_def i_ret_def enc_def)
  then have "take (bc_len demo_extension) (bytecode demo_extension) = demo_program"
    by (simp add: demo_extension_def overwrite_def)
  with verified_runs_safely [of demo_extension 3 7 9] l demo_program_verified show ?thesis
    by (auto simp: demo_extension_def overwrite_def empty_extension_def MAX_BYTECODE_def SCRATCH_SIZE_def)
qed

theorem run_hook_confined_witness:
  "\<exists>st l st'. register 5 HOOK_TIMER demo_program [] ext_init = Ret (Some 0, st) \<and>
     run_hook HOOK_TIMER 7 9 st = Ret (l, st') \<and> quiet l \<and> ext_count st' = 1"
proof -
  obtain st where st: "register 5 HOOK_TIMER demo_program [] ext_init = Ret (Some 0, st)" "ext_count st = 1"
    by (simp add: register_eq demo_program_verified ext_init_def MAX_EXTENSIONS_def)
  then have "ext_reach st" using ext_reach.registered [OF ext_reach.boot] by blast
  from run_hook_confined [OF this, of HOOK_TIMER 7 9] st show ?thesis by auto
qed

end
