(* ===== verification/Page_Table.thy ===== *)
theory Page_Table
  imports Page_Allocator
begin

unbundle bit_operations_syntax

text \<open>
  Sv39 page tables, kernel/src/mem/sv39.rs, over the physical memory and the page allocator:
  page-table entries, the walk that creates missing tables, mapping and unmapping, superpages
  (split and promote), range operations and the checks of user memory. Entry \<open>i\<close> of the table
  at physical address \<open>t\<close> is the cell at \<open>t + 8 * i\<close>; the kernel reaches it through its linear
  map of DRAM. As in \<open>Page_Allocator\<close>, the result \<open>None\<close> stands for a panic or an endless free-list walk.
\<close>

section \<open>Definitions\<close>

subsection \<open>Page-table entries\<close>

type_synonym pte = u64

definition pte_empty :: pte where "pte_empty = 0"

definition is_valid :: "pte \<Rightarrow> bool" where "is_valid e \<longleftrightarrow> e AND 1 \<noteq> 0"

definition is_leaf :: "pte \<Rightarrow> bool" where "is_leaf e \<longleftrightarrow> is_valid e \<and> e AND 0b1110 \<noteq> 0"

definition is_branch :: "pte \<Rightarrow> bool" where "is_branch e \<longleftrightarrow> is_valid e \<and> e AND 0b1110 = 0"

definition ppn :: "pte \<Rightarrow> usize" where "ppn e = unat (drop_bit 10 e AND mask 44)"

definition phys_addr :: "pte \<Rightarrow> usize" where "phys_addr e = ppn e * 4096"

definition set_ppn :: "usize \<Rightarrow> pte \<Rightarrow> pte" where
  "set_ppn n e = (e AND 0x3FF) OR push_bit 10 (of_nat n AND mask 44)"

definition set_flags :: "bool \<Rightarrow> bool \<Rightarrow> bool \<Rightarrow> bool \<Rightarrow> pte \<Rightarrow> pte" where
  "set_flags r w x u e =
     (e AND NOT 0xFF) OR
     (1 OR (if r then push_bit 1 1 else 0) OR (if w then push_bit 2 1 else 0) OR
      (if x then push_bit 3 1 else 0) OR (if u then push_bit 4 1 else 0))"

definition set_bit_to :: "nat \<Rightarrow> bool \<Rightarrow> pte \<Rightarrow> pte" where
  "set_bit_to n b e = (if b then e OR push_bit n 1 else e AND NOT (push_bit n 1))"

definition is_accessed :: "pte \<Rightarrow> bool" where "is_accessed e \<longleftrightarrow> drop_bit 6 e AND 1 \<noteq> 0"
definition set_accessed :: "bool \<Rightarrow> pte \<Rightarrow> pte" where "set_accessed a = set_bit_to 6 a"
definition is_dirty :: "pte \<Rightarrow> bool" where "is_dirty e \<longleftrightarrow> drop_bit 7 e AND 1 \<noteq> 0"
definition set_dirty :: "bool \<Rightarrow> pte \<Rightarrow> pte" where "set_dirty d = set_bit_to 7 d"
definition is_cow :: "pte \<Rightarrow> bool" where "is_cow e \<longleftrightarrow> drop_bit 8 e AND 1 \<noteq> 0"
definition set_cow :: "bool \<Rightarrow> pte \<Rightarrow> pte" where "set_cow c = set_bit_to 8 c"
definition is_shared :: "pte \<Rightarrow> bool" where "is_shared e \<longleftrightarrow> drop_bit 9 e AND 1 \<noteq> 0"
definition set_shared :: "bool \<Rightarrow> pte \<Rightarrow> pte" where "set_shared s = set_bit_to 9 s"
definition is_writable :: "pte \<Rightarrow> bool" where "is_writable e \<longleftrightarrow> drop_bit 2 e AND 1 \<noteq> 0"
definition is_readable :: "pte \<Rightarrow> bool" where "is_readable e \<longleftrightarrow> drop_bit 1 e AND 1 \<noteq> 0"
definition is_executable :: "pte \<Rightarrow> bool" where "is_executable e \<longleftrightarrow> drop_bit 3 e AND 1 \<noteq> 0"
definition is_user :: "pte \<Rightarrow> bool" where "is_user e \<longleftrightarrow> drop_bit 4 e AND 1 \<noteq> 0"

text \<open>The two entries the code builds: a pointer to a table, and a leaf.\<close>

definition table_entry :: "usize \<Rightarrow> pte" where
  "table_entry page = set_flags False False False False (set_ppn (page div 4096) pte_empty)"

definition leaf_entry :: "usize \<Rightarrow> bool \<Rightarrow> bool \<Rightarrow> bool \<Rightarrow> bool \<Rightarrow> pte" where
  "leaf_entry pa r w x u = set_dirty True (set_accessed True (set_flags r w x u (set_ppn (pa div 4096) pte_empty)))"

subsection \<open>Virtual addresses\<close>

definition VPN2_SHIFT :: usize where "VPN2_SHIFT = 30"
definition VPN1_SHIFT :: usize where "VPN1_SHIFT = 21"
definition VPN0_SHIFT :: usize where "VPN0_SHIFT = 12"
definition VPN_MASK :: usize where "VPN_MASK = 0x1FF"

definition vpn2 :: "usize \<Rightarrow> usize" where "vpn2 va = drop_bit VPN2_SHIFT va AND VPN_MASK"
definition vpn1 :: "usize \<Rightarrow> usize" where "vpn1 va = drop_bit VPN1_SHIFT va AND VPN_MASK"
definition vpn0 :: "usize \<Rightarrow> usize" where "vpn0 va = drop_bit VPN0_SHIFT va AND VPN_MASK"
definition offset :: "usize \<Rightarrow> usize" where "offset va = va AND (PAGE_SIZE - 1)"
definition page_align_down :: "usize \<Rightarrow> usize" where "page_align_down va = va - va mod PAGE_SIZE"
definition page_align_up :: "usize \<Rightarrow> usize" where "page_align_up va = page_align_down (usize_add va (PAGE_SIZE - 1))"

definition KERNEL_VBASE :: usize where "KERNEL_VBASE = 0xFFFFFFC000000000"
definition DRAM_BASE :: usize where "DRAM_BASE = 0x80000000"

definition pa_to_kva :: "usize \<Rightarrow> usize" where
  "pa_to_kva pa = usize_sub (usize_add pa KERNEL_VBASE) DRAM_BASE"
definition kva_to_pa :: "usize \<Rightarrow> usize" where
  "kva_to_pa kva = usize_add (usize_sub kva KERNEL_VBASE) DRAM_BASE"

subsection \<open>Tables in memory and the walk\<close>

definition ent :: "pmem \<Rightarrow> usize \<Rightarrow> usize \<Rightarrow> pte" where "ent m t i = m (t + 8 * i)"

definition set_ent :: "usize \<Rightarrow> usize \<Rightarrow> pte \<Rightarrow> pmem \<Rightarrow> pmem" where "set_ent t i e m = m(t + 8 * i := e)"

definition init_root_pt :: "usize \<Rightarrow> PageState \<Rightarrow> (usize \<times> PageState) option" where
  "init_root_pt hart st =
     (case alloc_page hart st of
        Some (Some l2_page, st1) \<Rightarrow> Some (l2_page, st1\<lparr>phys := zero_page l2_page (phys st1)\<rparr>)
      | _ \<Rightarrow> None)"

text \<open>
  One level of the walk: the table that entry \<open>idx\<close> of table \<open>t\<close> points to, created and zeroed
  when it is missing and \<open>alloc\<close> is set. The inner \<open>None\<close> is the \<open>None\<close> of the Rust walk: a
  missing table, a superpage, or no memory.
\<close>

definition walk_level :: "usize \<Rightarrow> bool \<Rightarrow> usize \<Rightarrow> usize \<Rightarrow> PageState \<Rightarrow> (usize option \<times> PageState) option" where
  "walk_level hart alloc t idx st =
     (let e = ent (phys st) t idx in
      if \<not> is_valid e then
        (if \<not> alloc then Some (None, st)
         else case alloc_page hart st of
           None \<Rightarrow> None
         | Some (None, st1) \<Rightarrow> Some (None, st1)
         | Some (Some new_page, st1) \<Rightarrow>
             Some (Some new_page,
               st1\<lparr>phys := set_ent t idx (table_entry new_page) (zero_page new_page (phys st1))\<rparr>))
      else if is_leaf e then Some (None, st)
      else Some (Some (phys_addr e), st))"

definition walk_process_pt ::
  "usize \<Rightarrow> usize \<Rightarrow> usize \<Rightarrow> bool \<Rightarrow> PageState \<Rightarrow> ((usize \<times> usize) option \<times> PageState) option" where
  "walk_process_pt hart root_phys va alloc st =
     (case walk_level hart alloc root_phys (vpn2 va) st of
        None \<Rightarrow> None
      | Some (None, st1) \<Rightarrow> Some (None, st1)
      | Some (Some l1_phys, st1) \<Rightarrow>
          (case walk_level hart alloc l1_phys (vpn1 va) st1 of
             None \<Rightarrow> None
           | Some (None, st2) \<Rightarrow> Some (None, st2)
           | Some (Some l0_phys, st2) \<Rightarrow> Some (Some (l0_phys, vpn0 va), st2)))"

text \<open>The kernel's own table: \<open>ROOT_PT\<close> is an argument, and using it unset panics.\<close>

definition walk :: "usize option \<Rightarrow> usize \<Rightarrow> usize \<Rightarrow> bool \<Rightarrow> PageState \<Rightarrow> ((usize \<times> usize) option \<times> PageState) option" where
  "walk root_pt hart va alloc st =
     (case root_pt of None \<Rightarrow> None | Some root \<Rightarrow> walk_process_pt hart root va alloc st)"

definition map_kernel ::
  "usize option \<Rightarrow> usize \<Rightarrow> usize \<Rightarrow> usize \<Rightarrow> bool \<Rightarrow> bool \<Rightarrow> bool \<Rightarrow> bool \<Rightarrow> PageState \<Rightarrow> PageState option" where
  "map_kernel root_pt hart va pa r w x u st =
     (case walk root_pt hart va True st of
        Some (Some (l0_phys, idx), st1) \<Rightarrow>
          Some (st1\<lparr>phys := set_ent l0_phys idx (leaf_entry pa r w x u) (phys st1)\<rparr>)
      | _ \<Rightarrow> None)"

definition map_page ::
  "usize \<Rightarrow> usize \<Rightarrow> usize \<Rightarrow> usize \<Rightarrow> bool \<Rightarrow> bool \<Rightarrow> bool \<Rightarrow> bool \<Rightarrow> PageState \<Rightarrow> (unit result \<times> PageState) option" where
  "map_page hart root_phys va pa r w x u st =
     (case walk_process_pt hart root_phys va True st of
        None \<Rightarrow> None
      | Some (None, st1) \<Rightarrow> Some (Inl ''map_page: walk failed'', st1)
      | Some (Some (l0_phys, idx), st1) \<Rightarrow>
          Some (Inr (), st1\<lparr>phys := set_ent l0_phys idx (leaf_entry pa r w x u) (phys st1)\<rparr>))"

definition map_user_page ::
  "usize \<Rightarrow> usize \<Rightarrow> usize \<Rightarrow> usize \<Rightarrow> bool \<Rightarrow> bool \<Rightarrow> PageState \<Rightarrow> (unit result \<times> PageState) option" where
  "map_user_page hart root_phys va pa r w st =
     (case walk_process_pt hart root_phys va True st of
        None \<Rightarrow> None
      | Some (None, st1) \<Rightarrow> Some (Inl ''map_user_page: walk failed'', st1)
      | Some (Some (l0_phys, idx), st1) \<Rightarrow>
          Some (Inr (), st1\<lparr>phys := set_ent l0_phys idx (leaf_entry pa r w False True) (phys st1)\<rparr>))"

text \<open>
  A walk that does not allocate reads memory only; \<open>lookup\<close> is \<open>walk_process_pt\<close> with
  \<open>alloc = false\<close>, as a function of the memory.
\<close>

definition lookup_level :: "pmem \<Rightarrow> usize \<Rightarrow> usize \<Rightarrow> usize option" where
  "lookup_level m t idx =
     (let e = ent m t idx in if \<not> is_valid e then None else if is_leaf e then None else Some (phys_addr e))"

definition lookup_pt :: "pmem \<Rightarrow> usize \<Rightarrow> usize \<Rightarrow> (usize \<times> usize) option" where
  "lookup_pt m root_phys va =
     (case lookup_level m root_phys (vpn2 va) of
        None \<Rightarrow> None
      | Some l1_phys \<Rightarrow> map_option (\<lambda>l0_phys. (l0_phys, vpn0 va)) (lookup_level m l1_phys (vpn1 va)))"

definition unmap_user_page_phys :: "usize \<Rightarrow> usize \<Rightarrow> pmem \<Rightarrow> usize option \<times> pmem" where
  "unmap_user_page_phys root_phys va m =
     (case lookup_pt m root_phys va of
        None \<Rightarrow> (None, m)
      | Some (l0_phys, idx) \<Rightarrow>
          (let pte = ent m l0_phys idx in
           if is_valid pte \<and> is_leaf pte then (Some (phys_addr pte), set_ent l0_phys idx pte_empty m)
           else (None, m)))"

definition unmap_user_page :: "usize \<Rightarrow> usize \<Rightarrow> pmem \<Rightarrow> pmem" where
  "unmap_user_page root_phys va m =
     (case lookup_pt m root_phys va of
        None \<Rightarrow> m
      | Some (l0_phys, idx) \<Rightarrow> set_ent l0_phys idx pte_empty m)"

text \<open>The translation of a kernel address: always through \<open>ROOT_PT\<close>; the outer \<open>None\<close> is the panic.\<close>

definition virt_to_phys :: "usize option \<Rightarrow> usize \<Rightarrow> pmem \<Rightarrow> usize option option" where
  "virt_to_phys root_pt va m =
     (case root_pt of
        None \<Rightarrow> None
      | Some root \<Rightarrow>
          Some (case lookup_pt m root va of
             None \<Rightarrow> None
           | Some (l0_phys, idx) \<Rightarrow>
               (let pte = ent m l0_phys idx in
                if is_valid pte \<and> is_leaf pte then Some (phys_addr pte OR offset va) else None)))"

text \<open>
  The program loader (proc/elf.rs) has its own walk of a process table. Unlike the walks above
  it does not look for superpages: it takes any valid entry for a pointer to a table.
\<close>

definition walk_pt_level :: "usize \<Rightarrow> bool \<Rightarrow> usize \<Rightarrow> usize \<Rightarrow> PageState \<Rightarrow> (usize option \<times> PageState) option" where
  "walk_pt_level hart alloc t idx st =
     (let e = ent (phys st) t idx in
      if \<not> is_valid e then
        (if \<not> alloc then Some (None, st)
         else case alloc_page hart st of
           None \<Rightarrow> None
         | Some (None, st1) \<Rightarrow> Some (None, st1)
         | Some (Some new_page, st1) \<Rightarrow>
             Some (Some new_page,
               st1\<lparr>phys := set_ent t idx (table_entry new_page) (zero_page new_page (phys st1))\<rparr>))
      else Some (Some (phys_addr e), st))"

definition walk_pt ::
  "usize \<Rightarrow> usize \<Rightarrow> usize \<Rightarrow> bool \<Rightarrow> PageState \<Rightarrow> ((usize \<times> usize) option \<times> PageState) option" where
  "walk_pt hart root_pt va alloc st =
     (case walk_pt_level hart alloc root_pt (vpn2 va) st of
        None \<Rightarrow> None
      | Some (None, st1) \<Rightarrow> Some (None, st1)
      | Some (Some l1_phys, st1) \<Rightarrow>
          (case walk_pt_level hart alloc l1_phys (vpn1 va) st1 of
             None \<Rightarrow> None
           | Some (None, st2) \<Rightarrow> Some (None, st2)
           | Some (Some l0_phys, st2) \<Rightarrow> Some (Some (l0_phys, vpn0 va), st2)))"

definition map_into_pt ::
  "usize \<Rightarrow> usize \<Rightarrow> usize \<Rightarrow> usize \<Rightarrow> bool \<Rightarrow> bool \<Rightarrow> bool \<Rightarrow> bool \<Rightarrow> PageState \<Rightarrow> PageState option" where
  "map_into_pt hart root_pt va pa r w x u st =
     (case walk_pt hart root_pt va True st of
        Some (Some (l0_phys, idx), st1) \<Rightarrow>
          Some (st1\<lparr>phys := set_ent l0_phys idx (leaf_entry pa r w x u) (phys st1)\<rparr>)
      | _ \<Rightarrow> None)"

definition virt_to_phys_in_pt :: "usize \<Rightarrow> usize \<Rightarrow> usize \<Rightarrow> PageState \<Rightarrow> usize option" where
  "virt_to_phys_in_pt hart root_pt va st =
     (case walk_pt hart root_pt va False st of
        Some (Some (l0_phys, idx), st1) \<Rightarrow>
          (let pte = ent (phys st1) l0_phys idx in
           if is_valid pte \<and> is_leaf pte then Some (phys_addr pte OR (va AND (PAGE_SIZE - 1))) else None)
      | _ \<Rightarrow> None)"

definition is_user_page_present :: "usize \<Rightarrow> usize \<Rightarrow> pmem \<Rightarrow> u8" where
  "is_user_page_present pt_root va m =
     (if vpn2 va \<ge> 256 then 0
      else
        (let e2 = ent m pt_root (vpn2 va) in
         if \<not> is_valid e2 \<or> is_leaf e2 then 0
         else
           (let e1 = ent m (phys_addr e2) (vpn1 va) in
            if \<not> is_valid e1 then 0
            else if is_leaf e1 then (if is_user e1 then 1 else 0)
            else
              (let e0 = ent m (phys_addr e1) (vpn0 va) in
               if \<not> is_valid e0 \<or> \<not> is_leaf e0 then 0 else if is_user e0 then 1 else 0))))"

definition is_user_addr_valid :: "usize \<Rightarrow> usize \<Rightarrow> pmem \<Rightarrow> bool" where
  "is_user_addr_valid root_phys va m =
     (case lookup_pt m root_phys va of
        Some (l0_phys, idx) \<Rightarrow> is_valid (ent m l0_phys idx) \<and> is_user (ent m l0_phys idx)
      | None \<Rightarrow> False)"

definition usize_saturating_add :: "usize \<Rightarrow> usize \<Rightarrow> usize" where
  "usize_saturating_add a b = min (a + b) (2 ^ 64 - 1)"

text \<open>
  The loop over the pages of a range. The last page is page-aligned, so the second conjunct
  of the guard always holds; it makes the recursion well-founded for every argument.
\<close>

function user_pages_valid :: "usize \<Rightarrow> usize \<Rightarrow> usize \<Rightarrow> pmem \<Rightarrow> bool" where
  "user_pages_valid root_phys page end_page m =
     (if page \<le> end_page \<and> end_page < 2 ^ 64 - 1 then
        (if \<not> is_user_addr_valid root_phys page m then False
         else user_pages_valid root_phys (usize_saturating_add page PAGE_SIZE) end_page m)
      else True)"
  by pat_completeness auto

termination
  by (relation "measure (\<lambda>(root, page, end_page, m). Suc end_page - page)")
    (auto simp: usize_saturating_add_def PAGE_SIZE_def)

definition is_user_range_valid :: "usize \<Rightarrow> usize \<Rightarrow> usize \<Rightarrow> pmem \<Rightarrow> bool" where
  "is_user_range_valid root_phys va len m =
     (if len = 0 then True
      else user_pages_valid root_phys (page_align_down va)
             (page_align_down (usize_saturating_add va len - 1)) m)"

text \<open>The kernel's own table again: \<open>unmap\<close> on \<open>ROOT_PT\<close>.\<close>

definition root_pt_phys :: "usize option \<Rightarrow> usize option" where
  "root_pt_phys root_pt = root_pt"

definition unmap_kernel :: "usize option \<Rightarrow> usize \<Rightarrow> PageState \<Rightarrow> (usize option \<times> PageState) option" where
  "unmap_kernel root_pt va st =
     (case root_pt of
        None \<Rightarrow> None
      | Some root \<Rightarrow>
          (case lookup_pt (phys st) root va of
             None \<Rightarrow> Some (None, st)
           | Some (l0_phys, idx) \<Rightarrow>
               (let pte = ent (phys st) l0_phys idx in
                if is_valid pte \<and> is_leaf pte
                then Some (Some (phys_addr pte), st\<lparr>phys := set_ent l0_phys idx pte_empty (phys st)\<rparr>)
                else Some (None, st))))"

definition make_satp_mode :: "usize \<Rightarrow> usize \<Rightarrow> usize" where
  "make_satp_mode mode root_phys = (push_bit 60 mode) mod 2 ^ 64 OR drop_bit 12 root_phys"

definition make_satp :: "usize \<Rightarrow> usize" where
  "make_satp root_phys = push_bit 60 8 OR drop_bit 12 root_phys"

subsection \<open>Superpages\<close>

record VmState =
  pages :: PageState
  thp_promotions :: u64
  thp_splits :: u64

abbreviation mem_of :: "VmState \<Rightarrow> pmem" where
  "mem_of v \<equiv> phys (pages v)"

definition set_mem :: "pmem \<Rightarrow> VmState \<Rightarrow> VmState" where
  "set_mem m v = v\<lparr>pages := (pages v)\<lparr>phys := m\<rparr>\<rparr>"

definition zero_2m :: "usize \<Rightarrow> pmem \<Rightarrow> pmem" where
  "zero_2m pa m = (\<lambda>a. if pa \<le> a \<and> a < pa + 0x200000 then 0 else m a)"

definition free_then_false :: "usize \<Rightarrow> usize \<Rightarrow> VmState \<Rightarrow> (bool \<times> VmState) option" where
  "free_then_false hart pa v =
     (case free_page hart pa 9 (pages v) of None \<Rightarrow> None | Some st \<Rightarrow> Some (False, v\<lparr>pages := st\<rparr>))"

definition try_map_2m ::
  "usize \<Rightarrow> usize \<Rightarrow> usize \<Rightarrow> usize \<Rightarrow> u8 \<Rightarrow> VmState \<Rightarrow> (bool \<times> VmState) option" where
  "try_map_2m hart root_phys va count_4k flags v =
     (if count_4k < 512 then Some (False, v)
      else if va mod 0x200000 \<noteq> 0 then Some (False, v)
      else
        (case alloc_pages_addr 9 (pages v) of
           None \<Rightarrow> None
         | Some (None, st) \<Rightarrow> Some (False, v\<lparr>pages := st\<rparr>)
         | Some (Some pa, st) \<Rightarrow>
             (let v1 = v\<lparr>pages := st\<lparr>phys := zero_2m pa (phys st)\<rparr>\<rparr>;
                  e2 = ent (mem_of v1) root_phys (vpn2 va);
                  finish = (\<lambda>v2.
                    (let l1 = phys_addr (ent (mem_of v2) root_phys (vpn2 va)) in
                     if is_valid (ent (mem_of v2) l1 (vpn1 va)) then free_then_false hart pa v2
                     else Some (True, (set_mem (set_ent l1 (vpn1 va)
                            (leaf_entry pa (flags AND 1 \<noteq> 0) (flags AND 2 \<noteq> 0) (flags AND 4 \<noteq> 0) (flags AND 8 \<noteq> 0))
                            (mem_of v2)) v2)\<lparr>thp_promotions := thp_promotions v2 + 1\<rparr>)))
              in if \<not> is_valid e2 then
                   (case alloc_page hart (pages v1) of
                      None \<Rightarrow> None
                    | Some (None, st2) \<Rightarrow> free_then_false hart pa (v1\<lparr>pages := st2\<rparr>)
                    | Some (Some l1_page, st2) \<Rightarrow>
                        finish (v1\<lparr>pages := st2\<lparr>phys := set_ent root_phys (vpn2 va) (table_entry l1_page)
                          (zero_page l1_page (phys st2))\<rparr>\<rparr>))
                 else if is_leaf e2 then free_then_false hart pa v1
                 else finish v1)))"

definition try_map_1g :: "usize \<Rightarrow> usize \<Rightarrow> usize \<Rightarrow> u8 \<Rightarrow> bool" where
  "try_map_1g root_phys va count_4k flags = False"

text \<open>The entries of the table that replaces a 2 MB page.\<close>

definition split_entry :: "pte \<Rightarrow> usize \<Rightarrow> pte" where
  "split_entry e i =
     (let p = leaf_entry (phys_addr e + i * PAGE_SIZE) (is_readable e) (is_writable e) (is_executable e) (is_user e);
          p1 = (if is_cow e then set_cow True p else p)
      in if is_shared e then set_shared True p1 else p1)"

definition fill_table :: "usize \<Rightarrow> (usize \<Rightarrow> pte) \<Rightarrow> pmem \<Rightarrow> pmem" where
  "fill_table t f m = fold (\<lambda>i. set_ent t i (f i)) [0..<512] m"

definition split_large_page :: "usize \<Rightarrow> usize \<Rightarrow> usize \<Rightarrow> VmState \<Rightarrow> (unit result \<times> VmState) option" where
  "split_large_page hart root_phys va v =
     (let e2 = ent (mem_of v) root_phys (vpn2 va) in
      if \<not> is_valid e2 then Some (Inl ''split: L2 not valid'', v)
      else if is_leaf e2 then Some (Inl ''split: L2 leaf (1GB) not supported'', v)
      else
        (let l1_phys = phys_addr e2; e1 = ent (mem_of v) l1_phys (vpn1 va) in
         if \<not> is_leaf e1 then Some (Inl ''split: not a 2MB superpage'', v)
         else
           (case alloc_page hart (pages v) of
              None \<Rightarrow> None
            | Some (None, st) \<Rightarrow> Some (Inl ''split: OOM allocating L0 page'', v\<lparr>pages := st\<rparr>)
            | Some (Some l0_page, st) \<Rightarrow>
                Some (Inr (), v\<lparr>pages := st\<lparr>phys := set_ent l1_phys (vpn1 va) (table_entry l0_page)
                                   (fill_table l0_page (split_entry e1) (phys st))\<rparr>,
                                thp_splits := thp_splits v + 1\<rparr>))))"

definition promotable :: "pmem \<Rightarrow> usize \<Rightarrow> pte \<Rightarrow> usize \<Rightarrow> bool" where
  "promotable m l0_phys e0 i =
     (let pte = ent m l0_phys i in
      is_valid pte \<and> is_leaf pte \<and> phys_addr pte = phys_addr e0 + i * PAGE_SIZE \<and>
      is_readable pte = is_readable e0 \<and> is_writable pte = is_writable e0 \<and>
      is_executable pte = is_executable e0 \<and> is_user pte = is_user e0)"

definition try_promote :: "usize \<Rightarrow> usize \<Rightarrow> usize \<Rightarrow> VmState \<Rightarrow> (bool \<times> VmState) option" where
  "try_promote hart root_phys va v =
     (if va mod 0x200000 \<noteq> 0 then Some (False, v)
      else
        (let m = mem_of v; e2 = ent m root_phys (vpn2 va) in
         if \<not> is_valid e2 \<or> is_leaf e2 then Some (False, v)
         else
           (let l1 = phys_addr e2; e1 = ent m l1 (vpn1 va) in
            if is_leaf e1 then Some (False, v)
            else
              (let l0_phys = phys_addr e1; e0 = ent m l0_phys 0 in
               if \<not> is_valid e0 \<or> \<not> is_leaf e0 then Some (False, v)
               else if phys_addr e0 mod 0x200000 \<noteq> 0 then Some (False, v)
               else if \<not> list_all (promotable m l0_phys e0) [0..<512] then Some (False, v)
               else
                 (let m1 = set_ent l1 (vpn1 va) (leaf_entry (phys_addr e0) (is_readable e0) (is_writable e0)
                             (is_executable e0) (is_user e0)) m
                  in case free_page hart l0_phys 0 ((pages v)\<lparr>phys := m1\<rparr>) of
                       None \<Rightarrow> None
                     | Some st \<Rightarrow> Some (True, v\<lparr>pages := st, thp_promotions := thp_promotions v + 1\<rparr>))))))"

subsection \<open>Ranges\<close>

record ThpConfig =
  enable_2m :: bool
  enable_1g :: bool
  thp_2m_threshold :: usize
  thp_1g_threshold :: usize

definition THP_CONFIG :: ThpConfig where
  "THP_CONFIG = \<lparr>enable_2m = True, enable_1g = False, thp_2m_threshold = 512, thp_1g_threshold = 262144\<rparr>"

definition map_4k :: "usize \<Rightarrow> usize \<Rightarrow> usize \<Rightarrow> u8 \<Rightarrow> VmState \<Rightarrow> (unit result \<times> VmState) option" where
  "map_4k hart root page_va flags v =
     (case alloc_page hart (pages v) of
        None \<Rightarrow> None
      | Some (None, st) \<Rightarrow> Some (Inl ''PteManager map_range: OOM'', v\<lparr>pages := st\<rparr>)
      | Some (Some pa, st) \<Rightarrow>
          (case map_page hart root page_va pa (flags AND 1 \<noteq> 0) (flags AND 2 \<noteq> 0) (flags AND 4 \<noteq> 0)
                  (flags AND 8 \<noteq> 0) (st\<lparr>phys := zero_page pa (phys st)\<rparr>) of
             None \<Rightarrow> None
           | Some (r, st1) \<Rightarrow> Some (r, v\<lparr>pages := st1\<rparr>)))"

function map_range_loop ::
  "usize \<Rightarrow> usize \<Rightarrow> bool \<Rightarrow> u8 \<Rightarrow> usize \<Rightarrow> usize \<Rightarrow> VmState \<Rightarrow> (unit result \<times> VmState) option" where
  "map_range_loop hart root use_2m flags page_va e v =
     (if page_va < e then
        (let small = (\<lambda>v1.
               case map_4k hart root page_va flags v1 of
                 None \<Rightarrow> None
               | Some (Inl err, v2) \<Rightarrow> Some (Inl err, v2)
               | Some (Inr _, v2) \<Rightarrow> map_range_loop hart root use_2m flags (page_va + PAGE_SIZE) e v2)
         in if use_2m \<and> page_va mod 0x200000 = 0 \<and> e - page_va \<ge> 0x200000 then
              (case try_map_2m hart root page_va 512 flags v of
                 None \<Rightarrow> None
               | Some (True, v1) \<Rightarrow> map_range_loop hart root use_2m flags (page_va + 0x200000) e v1
               | Some (False, v1) \<Rightarrow> small v1)
            else small v)
      else Some (Inr (), v))"
  by pat_completeness auto

termination
  by (relation "measure (\<lambda>(hart, root, u, flags, page_va, e, v). e - page_va)") (auto simp: PAGE_SIZE_def)

declare map_range_loop.simps [simp del]

definition map_range ::
  "ThpConfig \<Rightarrow> usize \<Rightarrow> usize \<Rightarrow> usize \<Rightarrow> usize \<Rightarrow> u8 \<Rightarrow> VmState \<Rightarrow> (unit result \<times> VmState) option" where
  "map_range cfg hart root va len flags v =
     (let start = page_align_down va; e = page_align_up (usize_add va len);
          total = usize_sub e start div PAGE_SIZE;
          use_2m = (enable_2m cfg \<and> total \<ge> thp_2m_threshold cfg)
      in map_range_loop hart root use_2m flags start e v)"

function unmap_range_loop :: "usize \<Rightarrow> usize \<Rightarrow> usize \<Rightarrow> usize \<Rightarrow> PageState \<Rightarrow> PageState option" where
  "unmap_range_loop hart root page_va e st =
     (if page_va < e then
        (case unmap_user_page_phys root page_va (phys st) of
           (None, m) \<Rightarrow> unmap_range_loop hart root (page_va + PAGE_SIZE) e (st\<lparr>phys := m\<rparr>)
         | (Some pa, m) \<Rightarrow>
             (case free_page hart pa 0 (st\<lparr>phys := m\<rparr>) of
                None \<Rightarrow> None
              | Some st1 \<Rightarrow> unmap_range_loop hart root (page_va + PAGE_SIZE) e st1))
      else Some st)"
  by pat_completeness auto

termination
  by (relation "measure (\<lambda>(hart, root, page_va, e, st). e - page_va)") (auto simp: PAGE_SIZE_def)

declare unmap_range_loop.simps [simp del]

definition unmap_range :: "usize \<Rightarrow> usize \<Rightarrow> usize \<Rightarrow> usize \<Rightarrow> PageState \<Rightarrow> PageState option" where
  "unmap_range hart root va len st =
     unmap_range_loop hart root (page_align_down va) (page_align_up (usize_add va len)) st"

definition protect_one :: "usize \<Rightarrow> u8 \<Rightarrow> usize \<Rightarrow> pmem \<Rightarrow> pmem" where
  "protect_one root flags page_va m =
     (case lookup_pt m root page_va of
        Some (l0_phys, idx) \<Rightarrow>
          (if is_valid (ent m l0_phys idx)
           then set_ent l0_phys idx (set_flags (flags AND 1 \<noteq> 0) (flags AND 2 \<noteq> 0) (flags AND 4 \<noteq> 0)
                  (flags AND 8 \<noteq> 0) (ent m l0_phys idx)) m
           else m)
      | None \<Rightarrow> m)"

definition range_pages :: "usize \<Rightarrow> usize \<Rightarrow> usize list" where
  "range_pages start e = map (\<lambda>i. start + i * PAGE_SIZE) [0..<(e - start + PAGE_SIZE - 1) div PAGE_SIZE]"

definition protect_range :: "usize \<Rightarrow> usize \<Rightarrow> usize \<Rightarrow> u8 \<Rightarrow> pmem \<Rightarrow> pmem" where
  "protect_range root va len flags m =
     fold (protect_one root flags) (range_pages (page_align_down va) (page_align_up (usize_add va len))) m"

definition is_mapped :: "usize \<Rightarrow> pmem \<Rightarrow> usize \<Rightarrow> bool" where
  "is_mapped root m va =
     (case lookup_pt m root va of
        Some (l0_phys, idx) \<Rightarrow> is_valid (ent m l0_phys idx) \<and> is_leaf (ent m l0_phys idx)
      | None \<Rightarrow> False)"

function count_free_run :: "usize \<Rightarrow> pmem \<Rightarrow> usize \<Rightarrow> usize \<Rightarrow> usize \<Rightarrow> usize \<times> usize" where
  "count_free_run root m needed free_count page_va =
     (if free_count < needed \<and> page_va < 0x3FFFFFF000 then
        (if is_mapped root m page_va then (free_count, page_va)
         else count_free_run root m needed (free_count + 1) (page_va + PAGE_SIZE))
      else (free_count, page_va))"
  by pat_completeness auto

termination
  by (relation "measure (\<lambda>(root, m, needed, free_count, page_va). needed - free_count)") auto

declare count_free_run.simps [simp del]

lemma count_free_run_grows: "count_free_run root m needed n p = (k, q) \<Longrightarrow> p \<le> q"
proof (induction root m needed n p arbitrary: k q rule: count_free_run.induct)
  case (1 root m needed n p)
  then show ?case by (subst (asm) (2) count_free_run.simps) (fastforce split: if_splits)
qed

lemma next_page_greater: "c \<le> p \<Longrightarrow> c < Suc (p + (PAGE_SIZE - Suc 0)) div PAGE_SIZE * PAGE_SIZE"
  by (simp add: PAGE_SIZE_def)

function find_free_from :: "usize \<Rightarrow> pmem \<Rightarrow> usize \<Rightarrow> usize \<Rightarrow> usize option" where
  "find_free_from root m needed candidate =
     (if candidate < 0x3FFFFFF000 then
        (case count_free_run root m needed 0 candidate of
           (free_count, page_va) \<Rightarrow>
             (if free_count \<ge> needed then Some candidate
              else find_free_from root m needed ((page_va + 1 + (PAGE_SIZE - 1)) div PAGE_SIZE * PAGE_SIZE)))
      else None)"
  by pat_completeness auto

termination
  by (relation "measure (\<lambda>(root, m, needed, candidate). 0x3FFFFFF000 - candidate)")
    (auto dest!: sym [THEN count_free_run_grows] intro!: diff_less_mono2 next_page_greater)

declare find_free_from.simps [simp del]

definition find_free_va :: "usize \<Rightarrow> usize \<Rightarrow> pmem \<Rightarrow> usize option" where
  "find_free_va root sz m =
     (let needed = usize_sub (usize_add sz PAGE_SIZE) 1 div PAGE_SIZE in
      if needed = 0 then None else find_free_from root m needed 0x10000)"

subsection \<open>Scans of the user half\<close>

definition user_tables :: "pmem \<Rightarrow> usize \<Rightarrow> usize list" where
  "user_tables m root =
     map (\<lambda>i. phys_addr (ent m root i)) (filter (\<lambda>i. is_valid (ent m root i) \<and> \<not> is_leaf (ent m root i)) [0..<256])"

definition count_l0 :: "(pte \<Rightarrow> bool) \<Rightarrow> pmem \<Rightarrow> usize \<Rightarrow> usize" where
  "count_l0 P m l0 = length (filter (\<lambda>i. is_valid (ent m l0 i) \<and> P (ent m l0 i)) [0..<512])"

definition count_l1 :: "(pte \<Rightarrow> bool) \<Rightarrow> (pte \<Rightarrow> bool) \<Rightarrow> pmem \<Rightarrow> usize \<Rightarrow> usize" where
  "count_l1 P1 P0 m l1 =
     sum_list (map (\<lambda>i. let e = ent m l1 i in
        if \<not> is_valid e then 0 else if is_leaf e then (if P1 e then 1 else 0)
        else count_l0 P0 m (phys_addr e)) [0..<512])"

definition count_user_pages :: "usize \<Rightarrow> pmem \<Rightarrow> usize" where
  "count_user_pages root m = sum_list (map (count_l1 is_user is_user m) (user_tables m root))"

definition count_allocated :: "usize \<Rightarrow> pmem \<Rightarrow> usize" where
  "count_allocated root m = sum_list (map (count_l1 (\<lambda>_. True) is_leaf m) (user_tables m root))"

record PteStats =
  mapped_4k :: usize
  mapped_2m :: usize
  mapped_1g :: usize
  total_bytes :: usize
  sealed_pages :: usize
  stat_promotions :: u64
  stat_splits :: u64
  stat_hits :: u64
  stat_misses :: u64

definition thp_stats :: "VmState \<Rightarrow> u64 \<times> u64" where
  "thp_stats v = (thp_promotions v, thp_splits v)"

definition count_2m :: "pmem \<Rightarrow> usize \<Rightarrow> usize" where
  "count_2m m l1 = length (filter (\<lambda>i. is_valid (ent m l1 i) \<and> is_leaf (ent m l1 i)) [0..<512])"

definition count_4k :: "pmem \<Rightarrow> usize \<Rightarrow> usize" where
  "count_4k m l1 =
     sum_list (map (\<lambda>i. let e = ent m l1 i in
        if is_valid e \<and> \<not> is_leaf e then count_l0 is_leaf m (phys_addr e) else 0) [0..<512])"

definition pte_stats :: "usize \<Rightarrow> usize \<Rightarrow> VmState \<Rightarrow> PteStats" where
  "pte_stats total_sealed_pages root v =
     (let m = mem_of v;
          n1g = length (filter (\<lambda>i. is_valid (ent m root i) \<and> is_leaf (ent m root i)) [0..<256]);
          n2m = sum_list (map (count_2m m) (user_tables m root));
          n4k = sum_list (map (count_4k m) (user_tables m root))
      in \<lparr>mapped_4k = n4k, mapped_2m = n2m, mapped_1g = n1g,
          total_bytes = n1g * 2 ^ 30 + n2m * (2 * 1024 * 1024) + n4k * PAGE_SIZE,
          sealed_pages = total_sealed_pages, stat_promotions = thp_promotions v, stat_splits = thp_splits v,
          stat_hits = cache_hits (pages v), stat_misses = cache_misses (pages v)\<rparr>)"

text \<open>\<open>force_wxorx\<close>: the number of entries fixed is carried along with the memory.\<close>

definition fix_entry :: "usize \<Rightarrow> usize \<Rightarrow> usize \<times> pmem \<Rightarrow> usize \<times> pmem" where
  "fix_entry t i = (\<lambda>(fixed, m).
     let e = ent m t i in
     if is_valid e \<and> is_user e \<and> is_writable e \<and> is_executable e
     then (fixed + 1, set_ent t i (set_flags (is_readable e) (is_writable e) False (is_user e) e) m)
     else (fixed, m))"

definition force_l1_entry :: "usize \<Rightarrow> usize \<Rightarrow> usize \<times> pmem \<Rightarrow> usize \<times> pmem" where
  "force_l1_entry l1 i = (\<lambda>(fixed, m).
     let e = ent m l1 i in
     if \<not> is_valid e then (fixed, m)
     else if is_leaf e then fix_entry l1 i (fixed, m)
     else fold (fix_entry (phys_addr e)) [0..<512] (fixed, m))"

definition force_l2_entry :: "usize \<Rightarrow> usize \<Rightarrow> usize \<times> pmem \<Rightarrow> usize \<times> pmem" where
  "force_l2_entry root i = (\<lambda>(fixed, m).
     let e = ent m root i in
     if \<not> is_valid e \<or> is_leaf e then (fixed, m)
     else fold (force_l1_entry (phys_addr e)) [0..<512] (fixed, m))"

definition force_wxorx :: "usize \<Rightarrow> pmem \<Rightarrow> usize \<times> pmem" where
  "force_wxorx root m = fold (force_l2_entry root) [0..<256] (0, m)"

definition wx_entry :: "pte \<Rightarrow> bool" where
  "wx_entry e \<longleftrightarrow> is_writable e \<and> is_executable e"

text \<open>kernel/src/security/mod.rs: the check of the whole user half, first violation first.\<close>

definition verify_l1_entry :: "pmem \<Rightarrow> usize \<Rightarrow> usize \<Rightarrow> string option" where
  "verify_l1_entry m l1 i =
     (let e = ent m l1 i in
      if \<not> is_valid e then None
      else if is_leaf e then (if wx_entry e then Some ''W^X violation at L1'' else None)
      else if list_ex (\<lambda>j. is_valid (ent m (phys_addr e) j) \<and> wx_entry (ent m (phys_addr e) j)) [0..<512]
      then Some ''W^X violation at L0'' else None)"

definition verify_wxorx :: "usize \<Rightarrow> pmem \<Rightarrow> unit result" where
  "verify_wxorx root m =
     (case List.map_filter (\<lambda>(l1, i). verify_l1_entry m l1 i)
             (concat (map (\<lambda>l1. map (\<lambda>i. (l1, i)) [0..<512]) (user_tables m root))) of
        [] \<Rightarrow> Inr ()
      | e # _ \<Rightarrow> Inl e)"

definition enforce_wxorx_pte :: "pte \<Rightarrow> pte" where
  "enforce_wxorx_pte e = (if wx_entry e then set_flags (is_readable e) True False (is_user e) e else e)"

subsection \<open>Sharing between processes and the kernel half\<close>

definition process_root :: "(u32 \<times> usize) list \<Rightarrow> u32 \<Rightarrow> usize option" where
  "process_root procs pid = map_option snd (find (\<lambda>p. fst p = pid) procs)"

definition leaf_phys :: "usize \<Rightarrow> usize \<Rightarrow> pmem \<Rightarrow> string \<Rightarrow> string \<Rightarrow> usize result" where
  "leaf_phys root va m err1 err2 =
     (case lookup_pt m root va of
        None \<Rightarrow> Inl err1
      | Some (l0_phys, idx) \<Rightarrow>
          (let pte = ent m l0_phys idx in
           if \<not> is_valid pte \<or> \<not> is_leaf pte then Inl err2 else Inr (phys_addr pte)))"

definition share_page ::
  "(u32 \<times> usize) list \<Rightarrow> usize \<Rightarrow> u32 \<Rightarrow> u32 \<Rightarrow> usize \<Rightarrow> usize \<Rightarrow> PageState \<Rightarrow> (unit result \<times> PageState) option" where
  "share_page procs hart src_pid dst_pid src_va dst_va st =
     (case process_root procs src_pid of
        None \<Rightarrow> Some (Inl ''src process not found'', st)
      | Some src_root \<Rightarrow>
          (case process_root procs dst_pid of
             None \<Rightarrow> Some (Inl ''dst process not found'', st)
           | Some dst_root \<Rightarrow>
               (case leaf_phys src_root src_va (phys st) ''src_va not mapped'' ''src_va not a valid mapped page'' of
                  Inl e \<Rightarrow> Some (Inl e, st)
                | Inr pa \<Rightarrow> map_user_page hart dst_root dst_va pa True True st)))"

text \<open>An offset that runs past the end of the address space wraps in the loop of the source; it is \<open>None\<close> here.\<close>

function splice_loop ::
  "usize \<Rightarrow> usize \<Rightarrow> usize \<Rightarrow> usize \<Rightarrow> usize \<Rightarrow> usize \<Rightarrow> usize \<Rightarrow> PageState \<Rightarrow> (unit result \<times> PageState) option" where
  "splice_loop hart src_root dst_root src_va dst_va off e st =
     (if off < e then
        (case leaf_phys src_root (page_align_down (usize_add src_va off)) (phys st) ''src page not mapped''
                ''src page not a valid leaf'' of
           Inl err \<Rightarrow> Some (Inl err, st)
         | Inr pa \<Rightarrow>
             (case map_user_page hart dst_root (page_align_down (usize_add dst_va off)) pa True True st of
                None \<Rightarrow> None
              | Some (Inl err, st1) \<Rightarrow> Some (Inl err, st1)
              | Some (Inr _, st1) \<Rightarrow>
                  (if off + PAGE_SIZE \<ge> 2 ^ 64 then None
                   else splice_loop hart src_root dst_root src_va dst_va (off + PAGE_SIZE) e st1)))
      else Some (Inr (), st))"
  by pat_completeness auto

termination
  by (relation "measure (\<lambda>(hart, src_root, dst_root, src_va, dst_va, off, e, st). e - off)") (auto simp: PAGE_SIZE_def)

declare splice_loop.simps [simp del]

definition splice_pages ::
  "(u32 \<times> usize) list \<Rightarrow> usize \<Rightarrow> u32 \<Rightarrow> u32 \<Rightarrow> usize \<Rightarrow> usize \<Rightarrow> usize \<Rightarrow> usize \<Rightarrow> PageState
    \<Rightarrow> (unit result \<times> PageState) option" where
  "splice_pages procs hart src_pid dst_pid src_va off dst_va len st =
     (case process_root procs src_pid of
        None \<Rightarrow> Some (Inl ''src process not found'', st)
      | Some src_root \<Rightarrow>
          (case process_root procs dst_pid of
             None \<Rightarrow> Some (Inl ''dst process not found'', st)
           | Some dst_root \<Rightarrow> splice_loop hart src_root dst_root src_va dst_va off (usize_add off len) st))"

definition copy_entry :: "usize \<Rightarrow> usize \<Rightarrow> usize \<Rightarrow> usize \<Rightarrow> PageState \<Rightarrow> PageState option" where
  "copy_entry hart kernel_root target_root i st =
     (let entry = ent (phys st) kernel_root i in
      if is_branch entry then
        (case alloc_page hart st of
           Some (Some new_l1, st1) \<Rightarrow>
             Some (st1\<lparr>phys := set_ent target_root i (table_entry new_l1)
                     (fill_table new_l1 (ent (phys st1) (phys_addr entry)) (phys st1))\<rparr>)
         | _ \<Rightarrow> None)
      else Some (st\<lparr>phys := set_ent target_root i entry (phys st)\<rparr>))"

fun copy_entries :: "usize \<Rightarrow> usize \<Rightarrow> usize \<Rightarrow> usize list \<Rightarrow> PageState \<Rightarrow> PageState option" where
  "copy_entries hart kernel_root target_root [] st = Some st"
| "copy_entries hart kernel_root target_root (i # is) st =
     (case copy_entry hart kernel_root target_root i st of
        None \<Rightarrow> None
      | Some st1 \<Rightarrow> copy_entries hart kernel_root target_root is st1)"

definition copy_kernel_mappings :: "usize \<Rightarrow> usize option \<Rightarrow> usize \<Rightarrow> PageState \<Rightarrow> PageState option" where
  "copy_kernel_mappings hart root_pt target_root st =
     (case root_pt of
        None \<Rightarrow> None
      | Some kernel_root \<Rightarrow> copy_entries hart kernel_root target_root [0..<512] st)"

text \<open>Kernel boot: DRAM as 64 superpages, and three superpages of device memory.\<close>

definition device_entry :: "usize \<Rightarrow> pte" where
  "device_entry pa = leaf_entry pa True True False False"

definition setup_kernel_mapping :: "usize \<Rightarrow> usize option \<Rightarrow> PageState \<Rightarrow> PageState option" where
  "setup_kernel_mapping hart root_pt st =
     (case root_pt of
        None \<Rightarrow> None
      | Some root \<Rightarrow>
          (case alloc_page hart st of
             Some (Some l1, st1) \<Rightarrow>
               (let m1 = zero_page l1 (phys st1);
                    m2 = set_ent root (vpn2 DRAM_BASE) (table_entry l1)
                           (set_ent root (vpn2 KERNEL_VBASE) (table_entry l1) m1);
                    m3 = fold (\<lambda>i. set_ent l1 i (leaf_entry (DRAM_BASE + i * 0x200000) True True True False)) [0..<64] m2
                in case alloc_page hart (st1\<lparr>phys := m3\<rparr>) of
                     Some (Some l1_mmio, st2) \<Rightarrow>
                       (let m4 = set_ent root (vpn2 0x02000000) (table_entry l1_mmio) (zero_page l1_mmio (phys st2));
                            m5 = set_ent l1_mmio (vpn1 0x02000000) (device_entry 0x02000000) m4;
                            m6 = set_ent l1_mmio (vpn1 0x10000000) (device_entry 0x10000000) m5
                        in Some (st2\<lparr>phys := set_ent l1_mmio (vpn1 0x30000000) (device_entry 0x30000000) m6\<rparr>))
                   | _ \<Rightarrow> None)
           | _ \<Rightarrow> None))"

end
