(* ===== verification/Address_Translation.thy ===== *)
theory Address_Translation
  imports Page_Table
begin

unbundle bit_operations_syntax

text \<open>
  What the page-table code of \<open>Page_Table\<close> means for the MMU. \<open>hw_walk\<close> is the table walk of the
  RISC-V privileged architecture: which entry it reaches, and at which level. It is the walk
  alone: the page faults the architecture adds for an entry that is writable but not readable,
  for a superpage whose frame number is not aligned, and for an address whose bits above 38 do
  not repeat bit 38 are not part of it, nor are the checks of the entry's rights.
  \<open>pt_shape\<close> says that the tables of all address spaces form
  trees, \<open>frame_source\<close> is the contract of the page allocator the tables rely on, interpreted
  on \<open>alloc_page\<close> and the invariant of \<open>Page_Allocator\<close>. Over these the file proves that mapping
  and unmapping refine an update of one translation, that splitting a superpage is invisible,
  that the W^X pass and the W^X check do what they claim, and what the check of a user buffer covers.
\<close>

section \<open>Entries, bit by bit\<close>

lemma mask_bits:
  "bit (255 :: u64) n \<longleftrightarrow> n < 8" "bit (1023 :: u64) n \<longleftrightarrow> n < 10" "bit (14 :: u64) n \<longleftrightarrow> 1 \<le> n \<and> n < 4"
proof -
  have "(255 :: u64) = mask 8" "(1023 :: u64) = mask 10" "(14 :: u64) = push_bit 1 (mask 3)"
    by (simp_all add: mask_eq_exp_minus_1 push_bit_eq_mult)
  then show "bit (255 :: u64) n \<longleftrightarrow> n < 8" "bit (1023 :: u64) n \<longleftrightarrow> n < 10" "bit (14 :: u64) n \<longleftrightarrow> 1 \<le> n \<and> n < 4"
    by (simp_all only: bit_mask_iff bit_push_bit_iff possible_bit_word) (auto simp: possible_bit_word)
qed

lemma flag_bits:
  "is_valid e \<longleftrightarrow> bit e 0" "is_readable e \<longleftrightarrow> bit e 1" "is_writable e \<longleftrightarrow> bit e 2" "is_executable e \<longleftrightarrow> bit e 3"
  "is_user e \<longleftrightarrow> bit e 4" "is_accessed e \<longleftrightarrow> bit e 6" "is_dirty e \<longleftrightarrow> bit e 7" "is_cow e \<longleftrightarrow> bit e 8" "is_shared e \<longleftrightarrow> bit e 9"
  by (simp_all add: is_valid_def is_readable_def is_writable_def is_executable_def is_user_def is_accessed_def
      is_dirty_def is_cow_def is_shared_def and_one_eq bit_iff_odd_drop_bit odd_iff_mod_2_eq_one)

lemma leaf_bits: "is_leaf e \<longleftrightarrow> bit e 0 \<and> (bit e 1 \<or> bit e 2 \<or> bit e 3)"
  "is_branch e \<longleftrightarrow> bit e 0 \<and> \<not> bit e 1 \<and> \<not> bit e 2 \<and> \<not> bit e 3"
proof -
  have n: "1 \<le> n \<and> n < 4 \<longleftrightarrow> n = 1 \<or> n = 2 \<or> n = 3" for n :: nat by auto
  have "e AND 14 = 0 \<longleftrightarrow> (\<forall>n < 64. \<not> (bit e n \<and> (n = 1 \<or> n = 2 \<or> n = 3)))"
    unfolding bit_eq_iff bit_and_iff mask_bits bit_0_eq n by simp
  also have "\<dots> \<longleftrightarrow> \<not> bit e 1 \<and> \<not> bit e 2 \<and> \<not> bit e 3"
    by (auto dest: spec [of _ 1] spec [of _ 2] spec [of _ 3])
  finally show "is_leaf e \<longleftrightarrow> bit e 0 \<and> (bit e 1 \<or> bit e 2 \<or> bit e 3)"
    "is_branch e \<longleftrightarrow> bit e 0 \<and> \<not> bit e 1 \<and> \<not> bit e 2 \<and> \<not> bit e 3"
    by (auto simp: is_leaf_def is_branch_def flag_bits)
qed

lemma bit_flag_if: "bit (if b then (k :: u64) else 0) n \<longleftrightarrow> b \<and> bit k n"
  by simp

lemma bit_set_flags: "bit (set_flags r w x u e) n \<longleftrightarrow>
  n < 64 \<and> (8 \<le> n \<and> bit e n \<or> n = 0 \<or> n = 1 \<and> r \<or> n = 2 \<and> w \<or> n = 3 \<and> x \<or> n = 4 \<and> u)"
  unfolding set_flags_def bit_or_iff bit_and_iff bit_not_iff bit_flag_if mask_bits bit_push_bit_iff bit_1_iff
    possible_bit_word
  by auto

lemma bit_set_ppn: "bit (set_ppn k e) n \<longleftrightarrow>
  n < 10 \<and> bit e n \<or> 10 \<le> n \<and> n < 54 \<and> bit (of_nat k :: u64) (n - 10)"
  unfolding set_ppn_def bit_or_iff bit_and_iff mask_bits bit_push_bit_iff bit_mask_iff possible_bit_word
  by auto

lemma bit_set_bit_to: "bit (set_bit_to k b e) n \<longleftrightarrow> (if n = k then n < 64 \<and> b else bit e n)"
proof -
  have "bit (push_bit k (1 :: u64)) n \<longleftrightarrow> n < 64 \<and> n = k"
    unfolding bit_push_bit_iff bit_1_iff possible_bit_word by auto
  then show ?thesis
    by (cases b) (auto simp: set_bit_to_def bit_or_iff bit_and_iff bit_not_iff simp del: push_bit_of_1 dest: bit_imp_le_length)
qed

lemmas pte_bits = flag_bits leaf_bits bit_set_flags bit_set_ppn bit_set_bit_to set_accessed_def set_dirty_def
  set_cow_def set_shared_def pte_empty_def

lemma ppn_cong:
  assumes "\<And>n. 10 \<le> n \<Longrightarrow> n < 54 \<Longrightarrow> bit e n = bit e' n"
  shows "ppn e = ppn e'"
proof -
  have "drop_bit 10 e AND mask 44 = drop_bit 10 e' AND mask 44"
  proof (rule bit_word_eqI)
    fix n
    show "bit (drop_bit 10 e AND mask 44) n = bit (drop_bit 10 e' AND mask 44) n"
      unfolding bit_and_iff bit_drop_bit_eq bit_mask_iff comp_def using assms [of "10 + n"] by auto
  qed
  then show ?thesis by (simp add: ppn_def)
qed

lemma phys_addr_cong:
  assumes "\<And>n. 10 \<le> n \<Longrightarrow> n < 54 \<Longrightarrow> bit e n = bit e' n"
  shows "phys_addr e = phys_addr e'"
  using ppn_cong [of e e', OF assms] by (simp add: phys_addr_def)

lemma phys_addr_set_ppn:
  assumes "k < 2 ^ 44"
  shows "phys_addr (set_ppn k e) = k * 4096"
proof -
  have "drop_bit 10 (set_ppn k e) AND mask 44 = take_bit 44 (of_nat k)"
    by (rule bit_word_eqI)
      (unfold bit_and_iff bit_drop_bit_eq bit_mask_iff comp_def bit_take_bit_iff bit_set_ppn possible_bit_word, auto)
  also have "take_bit 44 (of_nat k :: u64) = of_nat k"
    using assms by (simp add: take_bit_of_nat take_bit_nat_eq_self)
  finally have "ppn (set_ppn k e) = unat (of_nat k :: u64)" by (simp add: ppn_def)
  also have "\<dots> = k" using assms by (simp add: unat_of_nat)
  finally show ?thesis by (simp add: phys_addr_def)
qed

lemma phys_addr_bound: "phys_addr e < 2 ^ 56" "4096 dvd phys_addr e"
proof -
  have "unat (drop_bit 10 e AND mask 44) < 2 ^ 44"
    by (simp only: take_bit_eq_mask [symmetric] unsigned_take_bit_eq take_bit_nat_less_exp)
  then show "phys_addr e < 2 ^ 56" by (simp add: phys_addr_def ppn_def)
  show "4096 dvd phys_addr e" by (simp add: phys_addr_def)
qed

lemma table_entry_fields [simp]:
  "is_branch (table_entry p)" "\<not> is_leaf (table_entry p)" "is_valid (table_entry p)"
  by (simp_all only: table_entry_def pte_bits) simp_all

lemma phys_addr_table_entry: "4096 dvd p \<Longrightarrow> p < 2 ^ 56 \<Longrightarrow> phys_addr (table_entry p) = p"
proof -
  assume p: "4096 dvd p" "p < 2 ^ 56"
  have "phys_addr (table_entry p) = phys_addr (set_ppn (p div 4096) pte_empty)"
    by (rule phys_addr_cong) (auto simp: table_entry_def pte_bits)
  also have "\<dots> = p" using p by (subst phys_addr_set_ppn) (auto simp: dvd_def)
  finally show ?thesis .
qed

lemma leaf_entry_fields [simp]:
  "is_valid (leaf_entry pa r w x u)" "is_leaf (leaf_entry pa r w x u) \<longleftrightarrow> r \<or> w \<or> x"
  "is_branch (leaf_entry pa r w x u) \<longleftrightarrow> \<not> (r \<or> w \<or> x)"
  "is_readable (leaf_entry pa r w x u) = r" "is_writable (leaf_entry pa r w x u) = w"
  "is_executable (leaf_entry pa r w x u) = x" "is_user (leaf_entry pa r w x u) = u"
  "\<not> is_cow (leaf_entry pa r w x u)" "\<not> is_shared (leaf_entry pa r w x u)"
  by (simp_all only: leaf_entry_def pte_bits) simp_all

lemma phys_addr_leaf_entry: "pa < 2 ^ 56 \<Longrightarrow> phys_addr (leaf_entry pa r w x u) = pa div 4096 * 4096"
proof -
  assume pa: "pa < 2 ^ 56"
  have "phys_addr (leaf_entry pa r w x u) = phys_addr (set_ppn (pa div 4096) pte_empty)"
    by (rule phys_addr_cong) (auto simp: leaf_entry_def pte_bits)
  also have "\<dots> = pa div 4096 * 4096" using pa by (subst phys_addr_set_ppn) auto
  finally show ?thesis .
qed

lemma leaf_not_branch: "is_leaf e \<Longrightarrow> \<not> is_branch e" "is_valid e \<Longrightarrow> \<not> is_leaf e \<Longrightarrow> is_branch e"
  "is_branch e \<Longrightarrow> is_valid e \<and> \<not> is_leaf e" "is_leaf e \<Longrightarrow> is_valid e"
  by (auto simp: is_leaf_def is_branch_def)

lemma empty_fields [simp]: "\<not> is_valid 0" "\<not> is_leaf 0" "\<not> is_branch 0"
  by (simp_all add: pte_bits)

section \<open>Virtual page numbers\<close>

definition vpn :: "nat \<Rightarrow> usize \<Rightarrow> usize" where
  "vpn l va = (va div 2 ^ (12 + 9 * l)) mod 512"

lemma vpn_levels: "vpn2 va = vpn 2 va" "vpn1 va = vpn 1 va" "vpn0 va = vpn 0 va"
proof -
  have m: "VPN_MASK = mask 9" by (simp add: VPN_MASK_def mask_eq_exp_minus_1)
  show "vpn2 va = vpn 2 va" "vpn1 va = vpn 1 va" "vpn0 va = vpn 0 va"
    by (simp_all add: vpn2_def vpn1_def vpn0_def vpn_def m take_bit_eq_mask [symmetric] take_bit_eq_mod
        drop_bit_eq_div VPN2_SHIFT_def VPN1_SHIFT_def VPN0_SHIFT_def)
qed

lemma vpn_less [simp]: "vpn l va < 512"
  by (simp add: vpn_def)

definition same_page :: "usize \<Rightarrow> usize \<Rightarrow> bool" where
  "same_page va va' \<longleftrightarrow> vpn 2 va = vpn 2 va' \<and> vpn 1 va = vpn 1 va' \<and> vpn 0 va = vpn 0 va'"

section \<open>The translation of the MMU\<close>

text \<open>
  The walk of the privileged architecture: at each level a leaf ends it, a pointer goes one
  level down, anything else is a page fault. The result is the leaf and its level.
\<close>

fun hwalk :: "pmem \<Rightarrow> usize \<Rightarrow> nat \<Rightarrow> usize \<Rightarrow> (pte \<times> nat) option" where
  "hwalk m t 0 va = (let e = ent m t (vpn 0 va) in if is_leaf e then Some (e, 0) else None)"
| "hwalk m t (Suc l) va =
     (let e = ent m t (vpn (Suc l) va) in
      if is_leaf e then Some (e, Suc l) else if is_branch e then hwalk m (phys_addr e) l va else None)"

definition hw_walk :: "pmem \<Rightarrow> usize \<Rightarrow> usize \<Rightarrow> (pte \<times> nat) option" where
  "hw_walk m root va = hwalk m root 2 va"

text \<open>The table reached after \<open>k\<close> pointers, and the shape of a tree of tables with its levels.\<close>

fun path :: "pmem \<Rightarrow> usize \<Rightarrow> nat \<Rightarrow> usize \<Rightarrow> nat \<Rightarrow> usize option" where
  "path m t l va 0 = Some t"
| "path m t l va (Suc k) =
     (let e = ent m t (vpn l va) in if is_branch e then path m (phys_addr e) (l - 1) va k else None)"

definition pt_shape :: "pmem \<Rightarrow> (usize \<Rightarrow> nat option) \<Rightarrow> bool" where
  "pt_shape m lv \<longleftrightarrow>
     (\<forall>t l. lv t = Some l \<longrightarrow> 4096 dvd t) \<and>
     (\<forall>t l i. lv t = Some (Suc l) \<longrightarrow> i < 512 \<longrightarrow> is_branch (ent m t i) \<longrightarrow> lv (phys_addr (ent m t i)) = Some l) \<and>
     (\<forall>t t' l l' i i'. lv t = Some (Suc l) \<longrightarrow> lv t' = Some (Suc l') \<longrightarrow> i < 512 \<longrightarrow> i' < 512 \<longrightarrow>
        is_branch (ent m t i) \<longrightarrow> is_branch (ent m t' i') \<longrightarrow>
        phys_addr (ent m t i) = phys_addr (ent m t' i') \<longrightarrow> t = t' \<and> i = i')"

lemma pt_shapeD:
  assumes "pt_shape m lv"
  shows "lv t = Some l \<Longrightarrow> 4096 dvd t"
    and "lv t = Some (Suc l) \<Longrightarrow> i < 512 \<Longrightarrow> is_branch (ent m t i) \<Longrightarrow> lv (phys_addr (ent m t i)) = Some l"
    and "lv t = Some (Suc l) \<Longrightarrow> lv t' = Some (Suc l') \<Longrightarrow> i < 512 \<Longrightarrow> i' < 512 \<Longrightarrow>
      is_branch (ent m t i) \<Longrightarrow> is_branch (ent m t' i') \<Longrightarrow>
      phys_addr (ent m t i) = phys_addr (ent m t' i') \<Longrightarrow> t = t' \<and> i = i'"
  using assms unfolding pt_shape_def by blast+

lemma slot_eq:
  fixes t t' :: usize
  assumes "4096 dvd t" and "4096 dvd t'" and "i < 512" and "i' < 512"
  shows "t + 8 * i = t' + 8 * i' \<longleftrightarrow> t = t' \<and> i = i'"
proof
  assume e: "t + 8 * i = t' + 8 * i'"
  obtain a b where ab: "t = 4096 * a" "t' = 4096 * b" using assms by (auto simp: dvd_def)
  have "a = b" using e assms(3,4) unfolding ab by linarith
  then show "t = t' \<and> i = i'" using e ab by simp
qed simp

lemma ent_set_ent:
  "4096 dvd t \<Longrightarrow> 4096 dvd t0 \<Longrightarrow> i < 512 \<Longrightarrow> i0 < 512 \<Longrightarrow>
   ent (set_ent t0 i0 v m) t i = (if t = t0 \<and> i = i0 then v else ent m t i)"
  using slot_eq [of t t0 i i0] by (auto simp: ent_def set_ent_def)

lemma path_level:
  assumes s: "pt_shape m lv"
  shows "lv t = Some l \<Longrightarrow> k \<le> l \<Longrightarrow> path m t l va k = Some t' \<Longrightarrow> lv t' = Some (l - k)"
proof (induction k arbitrary: t l)
  case (Suc k)
  obtain l' where l: "l = Suc l'" using Suc.prems by (cases l) auto
  have b: "is_branch (ent m t (vpn l va))" "path m (phys_addr (ent m t (vpn l va))) l' va k = Some t'"
    using Suc.prems(3) l by (auto simp: Let_def split: if_splits)
  have "lv (phys_addr (ent m t (vpn l va))) = Some l'"
    using pt_shapeD(2) [OF s _ _ b(1)] Suc.prems(1) l by simp
  from Suc.IH [OF this _ b(2)] show ?case using l Suc.prems(2) by simp
qed simp

lemma path_inj:
  assumes s: "pt_shape m lv"
  shows "lv t = Some l \<Longrightarrow> lv u = Some l \<Longrightarrow> k \<le> l \<Longrightarrow> path m t l va k = Some t' \<Longrightarrow> path m u l va' k = Some t' \<Longrightarrow>
    t = u \<and> (\<forall>j. l - k < j \<and> j \<le> l \<longrightarrow> vpn j va = vpn j va')"
proof (induction k arbitrary: t u l)
  case 0
  then show ?case by simp
next
  case (Suc k)
  obtain l' where l: "l = Suc l'" using Suc.prems(3) by (cases l) auto
  let ?e = "ent m t (vpn l va)" and ?f = "ent m u (vpn l va')"
  have b: "is_branch ?e" "path m (phys_addr ?e) l' va k = Some t'"
    "is_branch ?f" "path m (phys_addr ?f) l' va' k = Some t'"
    using Suc.prems(4,5) l by (auto simp: Let_def split: if_splits)
  have lv: "lv (phys_addr ?e) = Some l'" "lv (phys_addr ?f) = Some l'"
    using pt_shapeD(2) [OF s _ _ b(1)] pt_shapeD(2) [OF s _ _ b(3)] Suc.prems(1,2) l by simp_all
  from Suc.IH [OF lv _ b(2,4)] Suc.prems(3) l
  have ih: "phys_addr ?e = phys_addr ?f" "\<forall>j. l' - k < j \<and> j \<le> l' \<longrightarrow> vpn j va = vpn j va'" by auto
  have tu: "t = u \<and> vpn l va = vpn l va'"
    using pt_shapeD(3) [OF s, of t l' u l' "vpn l va" "vpn l va'"] Suc.prems(1,2) l b(1,3) ih(1) vpn_less by simp
  have "vpn j va = vpn j va'" if "l - Suc k < j" "j \<le> l" for j
    using ih(2) tu l that by (cases "j = l") auto
  with tu show ?case by blast
qed

lemma path_cong: "(\<And>j. l - k < j \<Longrightarrow> j \<le> l \<Longrightarrow> vpn j va = vpn j va') \<Longrightarrow> k \<le> l \<Longrightarrow> path m t l va k = path m t l va' k"
proof (induction k arbitrary: t l)
  case (Suc k)
  have "vpn l va = vpn l va'" using Suc.prems by simp
  moreover have "path m t' (l - 1) va k = path m t' (l - 1) va' k" for t'
    using Suc.prems by (intro Suc.IH) auto
  ultimately show ?case by (simp add: Let_def)
qed simp

lemma hwalk_path: "k \<le> l \<Longrightarrow> path m t l va k = Some t' \<Longrightarrow> hwalk m t l va = hwalk m t' (l - k) va"
proof (induction k arbitrary: t l)
  case (Suc k)
  then obtain l' where l: "l = Suc l'" by (cases l) auto
  have b: "is_branch (ent m t (vpn l va))" "path m (phys_addr (ent m t (vpn l va))) l' va k = Some t'"
    using Suc.prems(2) l by (auto simp: Let_def split: if_splits)
  then have "hwalk m t l va = hwalk m (phys_addr (ent m t (vpn l va))) l' va"
    using l leaf_not_branch(3) [OF b(1)] by (simp add: Let_def)
  with Suc.IH [OF _ b(2)] Suc.prems(1) l show ?case by simp
qed simp

section \<open>Writing one entry\<close>

text \<open>A walk that does not read the written slot is unchanged.\<close>

lemma hwalk_other:
  assumes s: "pt_shape m lv" and t0: "lv t0 = Some l0" and i0: "i0 < 512"
  shows "lv t = Some l \<Longrightarrow> \<not> (l0 \<le> l \<and> path m t l va (l - l0) = Some t0 \<and> vpn l0 va = i0) \<Longrightarrow>
    hwalk (set_ent t0 i0 v m) t l va = hwalk m t l va"
proof (induction l arbitrary: t)
  case 0
  have "ent (set_ent t0 i0 v m) t (vpn 0 va) = ent m t (vpn 0 va)"
    using 0 t0 i0 pt_shapeD(1) [OF s] by (subst ent_set_ent) auto
  then show ?case by simp
next
  case (Suc l)
  let ?e = "ent m t (vpn (Suc l) va)"
  have "\<not> (t = t0 \<and> vpn (Suc l) va = i0)" using Suc.prems t0 by auto
  then have e: "ent (set_ent t0 i0 v m) t (vpn (Suc l) va) = ?e"
    using Suc.prems(1) t0 i0 pt_shapeD(1) [OF s] by (subst ent_set_ent) auto
  have "hwalk (set_ent t0 i0 v m) (phys_addr ?e) l va = hwalk m (phys_addr ?e) l va" if b: "is_branch ?e"
  proof (rule Suc.IH)
    show "lv (phys_addr ?e) = Some l" using pt_shapeD(2) [OF s Suc.prems(1) _ b] by simp
    show "\<not> (l0 \<le> l \<and> path m (phys_addr ?e) l va (l - l0) = Some t0 \<and> vpn l0 va = i0)"
      using Suc.prems(2) b by (auto simp: Suc_diff_le Let_def)
  qed
  then show ?case by (simp add: e Let_def)
qed

text \<open>The path to the written table does not read the written slot.\<close>

lemma path_write:
  assumes s: "pt_shape m lv" and t0: "lv t0 = Some l0" and i0: "i0 < 512"
  shows "lv t = Some l \<Longrightarrow> k \<le> l - l0 \<Longrightarrow> path (set_ent t0 i0 v m) t l va k = path m t l va k"
proof (induction k arbitrary: t l)
  case (Suc k)
  obtain l' where l: "l = Suc l'" using Suc.prems by (cases l) auto
  have "t \<noteq> t0" using Suc.prems t0 by auto
  then have e: "ent (set_ent t0 i0 v m) t (vpn l va) = ent m t (vpn l va)"
    using Suc.prems(1) t0 i0 pt_shapeD(1) [OF s] by (subst ent_set_ent) auto
  have "path (set_ent t0 i0 v m) (phys_addr (ent m t (vpn l va))) l' va k = path m (phys_addr (ent m t (vpn l va))) l' va k"
    if b: "is_branch (ent m t (vpn l va))"
    using Suc.IH [of "phys_addr (ent m t (vpn l va))" l'] pt_shapeD(2) [OF s _ _ b] Suc.prems l by auto
  then show ?case using e l by (simp add: Let_def)
qed simp

lemma shape_write:
  assumes s: "pt_shape m lv" and t0: "lv t0 = Some l0" and i0: "i0 < 512" and v: "\<not> is_branch v \<or> l0 = 0"
  shows "pt_shape (set_ent t0 i0 v m) lv"
proof -
  have e: "ent (set_ent t0 i0 v m) t i = (if t = t0 \<and> i = i0 then v else ent m t i)"
    if "lv t = Some l" "i < 512" for t l i
    using pt_shapeD(1) [OF s that(1)] pt_shapeD(1) [OF s t0] i0 that(2) by (intro ent_set_ent) auto
  have nb: "ent (set_ent t0 i0 v m) t i = ent m t i"
    if "lv t = Some (Suc l)" "i < 512" "is_branch (ent (set_ent t0 i0 v m) t i)" for t l i
    using e [OF that(1,2)] that v t0 by (auto split: if_splits)
  show ?thesis
    unfolding pt_shape_def
  proof (intro conjI allI impI)
    show "4096 dvd t" if "lv t = Some l" for t l by (rule pt_shapeD(1) [OF s that])
    show "lv (phys_addr (ent (set_ent t0 i0 v m) t i)) = Some l"
      if "lv t = Some (Suc l)" "i < 512" "is_branch (ent (set_ent t0 i0 v m) t i)" for t l i
      using pt_shapeD(2) [OF s that(1,2)] nb [OF that] that(3) by simp
    fix t t' l l' i i'
    assume a: "lv t = Some (Suc l)" "lv t' = Some (Suc l')" "i < 512" "i' < 512"
      "is_branch (ent (set_ent t0 i0 v m) t i)" "is_branch (ent (set_ent t0 i0 v m) t' i')"
      "phys_addr (ent (set_ent t0 i0 v m) t i) = phys_addr (ent (set_ent t0 i0 v m) t' i')"
    show "t = t'" "i = i'"
      using pt_shapeD(3) [OF s a(1-4)] nb [OF a(1,3,5)] nb [OF a(2,4,6)] a(5-7) by simp_all
  qed
qed

text \<open>Linking a new table, whose own entries point nowhere.\<close>

lemma shape_link:
  assumes s: "pt_shape m lv" and t0: "lv t0 = Some (Suc l0)" and i0: "i0 < 512"
    and u: "lv u = None" "4096 dvd u" "\<And>j. j < 512 \<Longrightarrow> \<not> is_branch (ent m u j)" and v: "phys_addr v = u"
  shows "pt_shape (set_ent t0 i0 v m) (lv(u := Some l0))"
proof -
  let ?m = "set_ent t0 i0 v m" and ?lv = "lv(u := Some l0)"
  have al: "4096 dvd t" if "?lv t = Some l" for t l
    using that u(2) pt_shapeD(1) [OF s] by (auto split: if_splits)
  have e: "ent ?m t i = (if t = t0 \<and> i = i0 then v else ent m t i)" if "?lv t = Some l" "i < 512" for t l i
    using al [OF that(1)] pt_shapeD(1) [OF s t0] i0 that(2) by (intro ent_set_ent) auto
  have br: "(t = t0 \<and> i = i0 \<and> l = l0 \<and> ent ?m t i = v) \<or> (lv t = Some (Suc l) \<and> ent ?m t i = ent m t i)"
    if "?lv t = Some (Suc l)" "i < 512" "is_branch (ent ?m t i)" for t l i
    using e [OF that(1,2)] that u t0 by (auto split: if_splits)
  show ?thesis
    unfolding pt_shape_def
  proof (intro conjI allI impI)
    show "4096 dvd t" if "?lv t = Some l" for t l by (rule al [OF that])
    show "?lv (phys_addr (ent ?m t i)) = Some l"
      if a: "?lv t = Some (Suc l)" "i < 512" "is_branch (ent ?m t i)" for t l i
      using br [OF a]
    proof (rule disjE)
      assume "lv t = Some (Suc l) \<and> ent ?m t i = ent m t i"
      then have "lv (phys_addr (ent ?m t i)) = Some l" using pt_shapeD(2) [OF s _ a(2)] a(3) by simp
      then show ?thesis using u(1) by auto
    next
      assume "t = t0 \<and> i = i0 \<and> l = l0 \<and> ent ?m t i = v"
      then have "phys_addr (ent ?m t i) = u" "l = l0" using v by auto
      then show ?thesis by simp
    qed
    fix t t' l l' i i'
    assume a: "?lv t = Some (Suc l)" "?lv t' = Some (Suc l')" "i < 512" "i' < 512"
      "is_branch (ent ?m t i)" "is_branch (ent ?m t' i')" "phys_addr (ent ?m t i) = phys_addr (ent ?m t' i')"
    have old: "phys_addr (ent ?m t i) \<noteq> u" if "lv t = Some (Suc l)" "ent ?m t i = ent m t i" "i < 512" "is_branch (ent ?m t i)"
      for t i l using pt_shapeD(2) [OF s that(1,3)] that u(1) by auto
    have "t = t' \<and> i = i'"
      using br [OF a(1,3,5)] br [OF a(2,4,6)]
    proof (elim disjE conjE)
      assume "lv t = Some (Suc l)" "ent ?m t i = ent m t i" "lv t' = Some (Suc l')" "ent ?m t' i' = ent m t' i'"
      then show ?thesis using pt_shapeD(3) [OF s _ _ a(3,4)] a(5-7) by simp
    next
      assume "lv t = Some (Suc l)" "ent ?m t i = ent m t i" "ent ?m t' i' = v"
      then show ?thesis using old [OF _ _ a(3,5)] a(7) v by simp
    next
      assume "ent ?m t i = v" "lv t' = Some (Suc l')" "ent ?m t' i' = ent m t' i'"
      then show ?thesis using old [OF _ _ a(4,6)] a(7) v by simp
    qed simp
    then show "t = t'" "i = i'" by auto
  qed
qed

lemma hwalk_agree:
  assumes s: "pt_shape m lv" and eq: "\<And>t i. t \<in> dom lv \<Longrightarrow> i < 512 \<Longrightarrow> ent m' t i = ent m t i"
  shows "lv t = Some l \<Longrightarrow> hwalk m' t l va = hwalk m t l va"
proof (induction l arbitrary: t)
  case 0
  then show ?case using eq [of t "vpn 0 va"] by (simp add: domI)
next
  case (Suc l)
  have e: "ent m' t (vpn (Suc l) va) = ent m t (vpn (Suc l) va)" using Suc.prems by (intro eq) auto
  have "is_branch (ent m t (vpn (Suc l) va)) \<Longrightarrow>
      hwalk m' (phys_addr (ent m t (vpn (Suc l) va))) l va = hwalk m (phys_addr (ent m t (vpn (Suc l) va))) l va"
    by (rule Suc.IH) (rule pt_shapeD(2) [OF s Suc.prems], simp_all)
  with e show ?case by (simp add: Let_def)
qed

lemma shape_agree:
  assumes s: "pt_shape m lv" and eq: "\<And>t i. t \<in> dom lv \<Longrightarrow> i < 512 \<Longrightarrow> ent m' t i = ent m t i"
  shows "pt_shape m' lv"
  unfolding pt_shape_def
proof (intro conjI allI impI)
  show "4096 dvd t" if "lv t = Some l" for t l by (rule pt_shapeD(1) [OF s that])
  show "lv (phys_addr (ent m' t i)) = Some l"
    if "lv t = Some (Suc l)" "i < 512" "is_branch (ent m' t i)" for t l i
    using pt_shapeD(2) [OF s that(1,2)] that eq [OF domI] by simp
  fix t t' l l' i i'
  assume a: "lv t = Some (Suc l)" "lv t' = Some (Suc l')" "i < 512" "i' < 512"
    "is_branch (ent m' t i)" "is_branch (ent m' t' i')" "phys_addr (ent m' t i) = phys_addr (ent m' t' i')"
  have "t = t' \<and> i = i'"
    using pt_shapeD(3) [OF s a(1-4)] a(5-7) eq [OF domI, OF a(1,3)] eq [OF domI, OF a(2,4)] by simp
  then show "t = t'" "i = i'" by auto
qed

lemma hwalk_empty: "(\<And>i. i < 512 \<Longrightarrow> \<not> is_valid (ent m t i)) \<Longrightarrow> hwalk m t l va = None"
  by (cases l) (auto simp: Let_def dest: leaf_not_branch(3,4))

text \<open>Linking an empty table under an invalid entry changes no translation.\<close>

lemma hwalk_link:
  assumes s: "pt_shape m lv" and t0: "lv t0 = Some (Suc l0)" and i0: "i0 < 512"
    and inv: "\<not> is_valid (ent m t0 i0)"
    and u: "lv u = None" "4096 dvd u" "u < 2 ^ 56" "\<And>j. j < 512 \<Longrightarrow> \<not> is_valid (ent m u j)"
    and t: "lv t = Some l"
  shows "hwalk (set_ent t0 i0 (table_entry u) m) t l va = hwalk m t l va"
proof (cases "Suc l0 \<le> l \<and> path m t l va (l - Suc l0) = Some t0 \<and> vpn (Suc l0) va = i0")
  case True
  let ?m = "set_ent t0 i0 (table_entry u) m"
  have d: "l - (l - Suc l0) = Suc l0" using True by simp
  have al: "4096 dvd t0" by (rule pt_shapeD(1) [OF s t0])
  have "ent ?m u j = ent m u j" if "j < 512" for j
    using u(1,2) t0 al i0 that by (subst ent_set_ent) auto
  then have e: "hwalk ?m u l0 va = None" using u(4) by (intro hwalk_empty) simp
  have "hwalk ?m t l va = hwalk ?m t0 (Suc l0) va"
    using hwalk_path [of "l - Suc l0" l ?m t va t0] path_write [OF s t0 i0 t] True d by simp
  also have "\<dots> = None"
    using True i0 al e by (simp add: ent_set_ent phys_addr_table_entry [OF u(2,3)] Let_def)
  also have "None = hwalk m t0 (Suc l0) va"
    using True inv leaf_not_branch(3,4) by (auto simp: Let_def)
  also have "\<dots> = hwalk m t l va"
    using hwalk_path [of "l - Suc l0" l m t va t0] True d by simp
  finally show ?thesis .
qed (rule hwalk_other [OF s t0 i0 t])

section \<open>Where the tables come from\<close>

text \<open>
  The contract of the page allocator that the page tables rely on: a client owns a set of
  pages, may write anywhere in them, and an allocation changes none of them and returns a
  page it did not own.
\<close>

definition same_pages :: "usize set \<Rightarrow> pmem \<Rightarrow> pmem \<Rightarrow> bool" where
  "same_pages A m m' \<longleftrightarrow> (\<forall>t\<in>A. \<forall>off<4096. m' (t + off) = m (t + off))"

lemma same_pages_refl [simp]: "same_pages A m m"
  by (simp add: same_pages_def)

lemma same_pages_trans: "same_pages A m m' \<Longrightarrow> same_pages A m' m'' \<Longrightarrow> same_pages A m m''"
  by (simp add: same_pages_def)

lemma same_pages_mono: "same_pages A m m' \<Longrightarrow> B \<subseteq> A \<Longrightarrow> same_pages B m m'"
  by (auto simp: same_pages_def)

lemma same_pages_ent: "same_pages A m m' \<Longrightarrow> t \<in> A \<Longrightarrow> i < 512 \<Longrightarrow> ent m' t i = ent m t i"
  by (simp add: same_pages_def ent_def)

lemma page_cell_neq:
  fixes t u :: usize
  assumes "4096 dvd t" and "4096 dvd u" and "t \<noteq> u" and "off < 4096" and "off' < 4096"
  shows "t + off \<noteq> u + off'"
proof
  assume e: "t + off = u + off'"
  obtain a b where ab: "t = 4096 * a" "u = 4096 * b" using assms by (auto simp: dvd_def)
  have "a = b" using e assms(4,5) unfolding ab by linarith
  with assms(3) ab show False by simp
qed

lemma same_pages_set_ent:
  assumes "4096 dvd t" and "\<And>d. d \<in> A \<Longrightarrow> 4096 dvd d" and "t \<notin> A" and "i < 512"
  shows "same_pages A m (set_ent t i v m)"
  unfolding same_pages_def
proof (intro ballI allI impI)
  fix d off assume "d \<in> A" "off < (4096::nat)"
  then have "d + off \<noteq> t + 8 * i" using assms by (intro page_cell_neq) auto
  then show "set_ent t i v m (d + off) = m (d + off)" by (simp add: set_ent_def)
qed

lemma same_pages_zero:
  assumes "4096 dvd t" and "\<And>d. d \<in> A \<Longrightarrow> 4096 dvd d" and "t \<notin> A"
  shows "same_pages A m (zero_page t m)"
  unfolding same_pages_def
proof (intro ballI allI impI)
  fix d off assume d: "d \<in> A" "off < (4096::nat)"
  have "\<not> (t \<le> d + off \<and> d + off < t + 4096)"
  proof
    assume b: "t \<le> d + off \<and> d + off < t + 4096"
    then have "t + (d + off - t) \<noteq> d + off" using d assms by (intro page_cell_neq) auto
    with b show False by simp
  qed
  then show "zero_page t m (d + off) = m (d + off)" by (auto simp: zero_page_def PAGE_SIZE_def)
qed

lemma ent_zero_page: "i < 512 \<Longrightarrow> ent (zero_page t m) t i = 0"
  by (simp add: ent_def zero_page_def PAGE_SIZE_def)

locale frame_source =
  fixes alloc :: "'s \<Rightarrow> (usize option \<times> 's) option"
    and mem :: "'s \<Rightarrow> pmem"
    and upd :: "pmem \<Rightarrow> 's \<Rightarrow> 's"
    and owns :: "'s \<Rightarrow> usize set \<Rightarrow> bool"
    and full :: "'s \<Rightarrow> bool"
  assumes mem_upd [simp]: "mem (upd m s) = m"
    and owns_page: "owns s A \<Longrightarrow> t \<in> A \<Longrightarrow> 4096 dvd t \<and> t < 2 ^ 56"
    and owns_upd: "owns s A \<Longrightarrow> (\<And>a. m a \<noteq> mem s a \<Longrightarrow> \<exists>t\<in>A. t \<le> a \<and> a < t + 4096) \<Longrightarrow> owns (upd m s) A"
    and alloc_none: "owns s A \<Longrightarrow> alloc s = Some (None, s') \<Longrightarrow> owns s' A \<and> full s'"
    and alloc_some: "owns s A \<Longrightarrow> alloc s = Some (Some a, s') \<Longrightarrow> a \<notin> A \<and> owns s' (insert a A)"
    and alloc_keeps: "owns s A \<Longrightarrow> alloc s = Some (r, s') \<Longrightarrow> same_pages A (mem s) (mem s')"
    and alloc_returns: "owns s A \<Longrightarrow> alloc s \<noteq> None"
begin

lemma owns_set_ent: "owns s A \<Longrightarrow> t \<in> A \<Longrightarrow> i < 512 \<Longrightarrow> owns (upd (set_ent t i v (mem s)) s) A"
  by (erule owns_upd) (auto simp: set_ent_def split: if_splits intro!: bexI [of _ t])

lemma owns_zero: "owns s A \<Longrightarrow> t \<in> A \<Longrightarrow> owns (upd (zero_page t (mem s)) s) A"
  by (rule owns_upd) (auto simp: zero_page_def PAGE_SIZE_def split: if_splits)

lemma new_table:
  assumes o: "owns s A" and al: "alloc s = Some (Some a, s')"
  shows "a \<notin> A" and "4096 dvd a" and "a < 2 ^ 56"
    and "owns (upd (zero_page a (mem s')) s') (insert a A)"
    and "same_pages A (mem s) (zero_page a (mem s'))"
proof -
  have o': "a \<notin> A" "owns s' (insert a A)" using alloc_some [OF o al] by simp_all
  have pg: "4096 dvd d \<and> d < 2 ^ 56" if "d \<in> insert a A" for d by (rule owns_page [OF o'(2) that])
  show "a \<notin> A" "4096 dvd a" "a < 2 ^ 56" using o' pg by simp_all
  show "owns (upd (zero_page a (mem s')) s') (insert a A)" by (rule owns_zero [OF o'(2)]) simp
  have "same_pages A (mem s') (zero_page a (mem s'))" using pg o'(1) by (intro same_pages_zero) auto
  with alloc_keeps [OF o al] show "same_pages A (mem s) (zero_page a (mem s'))" by (rule same_pages_trans)
qed

end

definition owned :: "PageState \<Rightarrow> usize set \<Rightarrow> bool" where
  "owned st A \<longleftrightarrow> 4096 dvd base (inner st) \<and> base (inner st) + total_pages (inner st) * 4096 \<le> 2 ^ 56 \<and>
     (\<exists>Out L ps. page_inv_for st Out L ps \<and> A \<subseteq> page_addr st ` span Out)"

lemma page_addr_cong: "base (inner st') = base (inner st) \<Longrightarrow> page_addr st' = page_addr st"
  by (rule ext) (simp add: page_addr_def)

lemma span_total: "page_inv_for st Out L ps \<Longrightarrow> f \<in> span Out \<Longrightarrow> f < total_pages (inner st)"
  using span_bound [of "total_pages (inner st)" "held Out ps"] span_Out_held [of Out ps]
  by (auto simp: page_inv_for_def)

lemma alloc_page_owned:
  assumes o: "owned st A" and al: "alloc_page hart st = Some (r, st')"
  shows "owned st' (A \<union> set_option r)" and "\<And>a. r = Some a \<Longrightarrow> a \<notin> A" and "same_pages A (phys st) (phys st')"
    and "r = None \<Longrightarrow> free_frames st' = {}"
proof -
  obtain Out L ps where b: "4096 dvd base (inner st)" "base (inner st) + total_pages (inner st) * 4096 \<le> 2 ^ 56"
    and I: "page_inv_for st Out L ps" and A: "A \<subseteq> page_addr st ` span Out"
    using o unfolding owned_def by blast
  have p: "preserves (span Out) st st'"
    and c: "case r of
       None \<Rightarrow> page_inv_for st' Out L ps \<and> (\<forall>k\<le>MAX_ORDER. L k = [])
     | Some a \<Rightarrow> \<exists>p L' qs. a = page_addr st p \<and> (p, 0) \<notin> Out \<and> p \<notin> span Out \<and>
         page_inv_for st' (insert (p, 0) Out) L' qs"
    using alloc_page_inv [OF I, of hart] al by auto
  have pa: "page_addr st' = page_addr st" and b': "base (inner st') = base (inner st)"
    "total_pages (inner st') = total_pages (inner st)"
    using p page_addr_cong [of st' st] by (simp_all add: preserves_def)
  show "same_pages A (phys st) (phys st')"
    using p A unfolding same_pages_def preserves_def by (auto simp: PAGE_SIZE_def)
  show "a \<notin> A" if "r = Some a" for a using c A that by auto
  show "free_frames st' = {}" if "r = None"
    using c that free_frames_layout [of st' Out L ps] by (auto simp: frames_of_def blocks_of_def)
  have "\<exists>Out L ps. page_inv_for st' Out L ps \<and> A \<union> set_option r \<subseteq> page_addr st' ` span Out"
  proof (cases r)
    case None
    with c A pa show ?thesis by auto
  next
    case (Some a)
    with c obtain p L' qs where "a = page_addr st p" "page_inv_for st' (insert (p, 0) Out) L' qs" by auto
    with Some A pa show ?thesis
      by (intro exI [of _ "insert (p, 0) Out"] exI [of _ L'] exI [of _ qs]) (auto simp: block_def)
  qed
  then show "owned st' (A \<union> set_option r)" using b b' by (simp add: owned_def)
qed

lemma owned_upd:
  assumes o: "owned st A" and m: "\<And>a. m a \<noteq> phys st a \<Longrightarrow> \<exists>t\<in>A. t \<le> a \<and> a < t + 4096"
  shows "owned (st\<lparr>phys := m\<rparr>) A"
proof -
  obtain Out L ps where b: "4096 dvd base (inner st)" "base (inner st) + total_pages (inner st) * 4096 \<le> 2 ^ 56"
    and I: "page_inv_for st Out L ps" and A: "A \<subseteq> page_addr st ` span Out"
    using o unfolding owned_def by blast
  have "page_inv_for (st\<lparr>phys := m\<rparr>) Out L ps"
  proof (rule page_inv_mem [OF I], rule ccontr)
    fix q assume q: "q \<in> frames_of L" and n: "m (page_addr st q) \<noteq> phys st (page_addr st q)"
    from m [OF n] A obtain f where f: "f \<in> span Out" "page_addr st f \<le> page_addr st q" "page_addr st q < page_addr st f + 4096"
      by auto
    then have "f = q" by (auto simp: page_addr_def PAGE_SIZE_def)
    with page_inv_span_frames [OF I f(1)] q show False by simp
  qed
  moreover have "page_addr (st\<lparr>phys := m\<rparr>) = page_addr st" by (rule page_addr_cong) simp
  ultimately show ?thesis using b A unfolding owned_def by (auto intro!: exI)
qed

lemma owned_page:
  assumes o: "owned st A" and t: "t \<in> A"
  shows "4096 dvd t \<and> t < 2 ^ 56"
proof -
  obtain Out L ps where b: "4096 dvd base (inner st)" "base (inner st) + total_pages (inner st) * 4096 \<le> 2 ^ 56"
    and I: "page_inv_for st Out L ps" and A: "A \<subseteq> page_addr st ` span Out"
    using o unfolding owned_def by blast
  from A t obtain f where f: "f \<in> span Out" "t = page_addr st f" by auto
  from span_total [OF I f(1)] b f(2) show ?thesis by (simp add: page_addr_def PAGE_SIZE_def)
qed

lemma owned_alloc_returns: "owned st A \<Longrightarrow> alloc_page hart st \<noteq> None"
  unfolding owned_def using alloc_page_inv [of st _ _ _ hart] by blast

interpretation fr: frame_source "alloc_page hart" phys "\<lambda>m st. st\<lparr>phys := m\<rparr>" owned "\<lambda>st. free_frames st = {}"
proof
  show "phys (st\<lparr>phys := m\<rparr>) = m" for m and st :: PageState by simp
  show "4096 dvd t \<and> t < 2 ^ 56" if "owned st A" "t \<in> A" for st A t by (rule owned_page [OF that])
  show "owned (st\<lparr>phys := m\<rparr>) A" if "owned st A" "\<And>a. m a \<noteq> phys st a \<Longrightarrow> \<exists>t\<in>A. t \<le> a \<and> a < t + 4096" for st A m
    by (rule owned_upd [OF that])
  show "owned st' A \<and> free_frames st' = {}" if "owned st A" "alloc_page hart st = Some (None, st')" for st A st'
    using alloc_page_owned(1,4) [OF that] by simp
  show "a \<notin> A \<and> owned st' (insert a A)" if "owned st A" "alloc_page hart st = Some (Some a, st')" for st A a st'
    using alloc_page_owned(1,2) [OF that] by simp
  show "same_pages A (phys st) (phys st')" if "owned st A" "alloc_page hart st = Some (r, st')" for st A r st'
    by (rule alloc_page_owned(3) [OF that])
  show "alloc_page hart st \<noteq> None" if "owned st A" for st A by (rule owned_alloc_returns [OF that])
qed

section \<open>Address spaces\<close>

text \<open>
  The tables \<open>lv\<close> of all address spaces, each with its level, and the data pages \<open>D\<close>: the pages
  belong to the kernel and no data page is a table.
\<close>

definition pt_ok :: "PageState \<Rightarrow> (usize \<Rightarrow> nat option) \<Rightarrow> usize set \<Rightarrow> bool" where
  "pt_ok st lv D \<longleftrightarrow> pt_shape (phys st) lv \<and> owned st (dom lv \<union> D) \<and> dom lv \<inter> D = {}"

definition same_trans :: "(usize \<Rightarrow> nat option) \<Rightarrow> pmem \<Rightarrow> pmem \<Rightarrow> bool" where
  "same_trans lv m m' \<longleftrightarrow> (\<forall>t l va. lv t = Some l \<longrightarrow> hwalk m' t l va = hwalk m t l va)"

lemma same_trans_refl [simp]: "same_trans lv m m"
  by (simp add: same_trans_def)

lemma same_trans_trans: "same_trans lv m m' \<Longrightarrow> same_trans lv' m' m'' \<Longrightarrow> lv \<subseteq>\<^sub>m lv' \<Longrightarrow> same_trans lv m m''"
  unfolding same_trans_def map_le_def by (metis domI)

lemma pt_okD:
  assumes "pt_ok st lv D"
  shows "pt_shape (phys st) lv" and "owned st (dom lv \<union> D)" and "dom lv \<inter> D = {}"
    and "t \<in> dom lv \<union> D \<Longrightarrow> 4096 dvd t \<and> t < 2 ^ 56"
  using assms fr.owns_page [of st "dom lv \<union> D" t] unfolding pt_ok_def by blast+

lemma pt_ok_same:
  assumes ok: "pt_ok st lv D" and "owned st' (dom lv \<union> D)" and s: "same_pages (dom lv \<union> D) (phys st) (phys st')"
  shows "pt_ok st' lv D" and "same_trans lv (phys st) (phys st')"
proof -
  have e: "ent (phys st') t i = ent (phys st) t i" if "t \<in> dom lv" "i < 512" for t i
    using same_pages_ent [OF s _ that(2)] that(1) by simp
  show "pt_ok st' lv D" using assms(2) pt_okD(3) [OF ok] shape_agree [OF pt_okD(1) [OF ok] e] by (simp add: pt_ok_def)
  show "same_trans lv (phys st) (phys st')"
    using hwalk_agree [OF pt_okD(1) [OF ok] e] by (simp add: same_trans_def)
qed

lemma pt_ok_new_table:
  assumes ok: "pt_ok st lv D" and al: "alloc_page hart st = Some (Some a, st1)"
    and t: "lv t = Some (Suc l)" and i: "i < 512" and inv: "\<not> is_valid (ent (phys st) t i)"
  defines "m1 \<equiv> set_ent t i (table_entry a) (zero_page a (phys st1))"
  shows "pt_ok (st1\<lparr>phys := m1\<rparr>) (lv(a := Some l)) D" and "same_trans lv (phys st) m1"
    and "same_pages D (phys st) m1" and "lv \<subseteq>\<^sub>m lv(a := Some l)" and "phys_addr (table_entry a) = a"
    and "\<And>t' i'. t' \<in> dom lv \<Longrightarrow> i' < 512 \<Longrightarrow> (t', i') \<noteq> (t, i) \<Longrightarrow> ent m1 t' i' = ent (phys st) t' i'"
    and "ent m1 t i = table_entry a"
proof -
  let ?z = "zero_page a (phys st1)"
  have n: "a \<notin> dom lv \<union> D" "4096 dvd a" "a < 2 ^ 56" "owned (st1\<lparr>phys := ?z\<rparr>) (insert a (dom lv \<union> D))"
    "same_pages (dom lv \<union> D) (phys st) ?z"
    using fr.new_table [OF pt_okD(2) [OF ok] al] by simp_all
  have e: "ent ?z t' i' = ent (phys st) t' i'" if "t' \<in> dom lv" "i' < 512" for t' i'
    using same_pages_ent [OF n(5) _ that(2)] that(1) by simp
  have s: "pt_shape ?z lv" by (rule shape_agree [OF pt_okD(1) [OF ok] e])
  have au: "lv a = None" and td: "t \<in> dom lv" using n(1) t by auto
  have al: "4096 dvd d" if "d \<in> insert a (dom lv \<union> D)" for d using pt_okD(4) [OF ok] n(2) that by auto
  have z: "\<not> is_valid (ent ?z a j)" if "j < 512" for j using that by (simp add: ent_zero_page)
  show pa: "phys_addr (table_entry a) = a" by (rule phys_addr_table_entry [OF n(2,3)])
  have sh: "pt_shape m1 (lv(a := Some l))" unfolding m1_def
    by (rule shape_link [OF s t i au n(2) _ pa]) (use z leaf_not_branch(3) in blast)
  have "owned (st1\<lparr>phys := m1\<rparr>) (insert a (dom lv \<union> D))"
    using fr.owns_set_ent [OF n(4), of t i "table_entry a"] t i by (auto simp: m1_def)
  with sh n(1) pt_okD(3) [OF ok] show "pt_ok (st1\<lparr>phys := m1\<rparr>) (lv(a := Some l)) D"
    unfolding pt_ok_def by (auto simp: insert_commute)
  have "hwalk ?z u k va = hwalk (phys st) u k va" if "lv u = Some k" for u k va
    by (rule hwalk_agree [OF pt_okD(1) [OF ok] e that])
  moreover have "hwalk m1 u k va = hwalk ?z u k va" if "lv u = Some k" for u k va
    unfolding m1_def using inv e [OF td i] z by (intro hwalk_link [OF s t i _ au n(2,3) _ that]) auto
  ultimately show "same_trans lv (phys st) m1" by (simp add: same_trans_def)
  have "t \<notin> D" using t pt_okD(3) [OF ok] by auto
  then have "same_pages D ?z m1" unfolding m1_def using al t i by (intro same_pages_set_ent) auto
  then show "same_pages D (phys st) m1" by (rule same_pages_trans [rotated]) (rule same_pages_mono [OF n(5)], simp)
  show "lv \<subseteq>\<^sub>m lv(a := Some l)" using au by (auto simp: map_le_def)
  show "ent m1 t' i' = ent (phys st) t' i'" if "t' \<in> dom lv" "i' < 512" "(t', i') \<noteq> (t, i)" for t' i'
    using e [OF that(1,2)] al [of t] al [of t'] td i that by (auto simp: m1_def ent_set_ent)
  show "ent m1 t i = table_entry a" using al [of t] td i by (simp add: m1_def ent_set_ent)
qed

lemma walk_level_spec:
  assumes ok: "pt_ok st lv D" and t: "lv t = Some (Suc l)" and i: "i < 512"
  obtains r st' lv' where "walk_level hart True t i st = Some (r, st')" "pt_ok st' lv' D" "lv \<subseteq>\<^sub>m lv'"
    "same_trans lv (phys st) (phys st')" "same_pages D (phys st) (phys st')"
    "\<And>t' i'. t' \<in> dom lv \<Longrightarrow> i' < 512 \<Longrightarrow> (t', i') \<noteq> (t, i) \<Longrightarrow> ent (phys st') t' i' = ent (phys st) t' i'"
    "\<And>u. r = Some u \<Longrightarrow> is_branch (ent (phys st') t i) \<and> phys_addr (ent (phys st') t i) = u"
    "r = None \<Longrightarrow> is_leaf (ent (phys st) t i) \<or> free_frames st' = {}"
proof (cases "is_valid (ent (phys st) t i)")
  case True
  show ?thesis
  proof (cases "is_leaf (ent (phys st) t i)")
    case leaf: True
    show ?thesis by (rule that [of None st lv]) (use True leaf ok in \<open>auto simp: walk_level_def Let_def\<close>)
  next
    case False
    show ?thesis by (rule that [of "Some (phys_addr (ent (phys st) t i))" st lv])
        (use True False ok leaf_not_branch(2) in \<open>auto simp: walk_level_def Let_def\<close>)
  qed
next
  case False
  have o: "owned st (dom lv \<union> D)" by (rule pt_okD(2) [OF ok])
  obtain r st1 where al: "alloc_page hart st = Some (r, st1)" using fr.alloc_returns [OF o, of hart] by auto
  show ?thesis
  proof (cases r)
    case None
    with al have al: "alloc_page hart st = Some (None, st1)" by simp
    note k = fr.alloc_keeps [OF o al] and n = fr.alloc_none [OF o al]
    have e: "ent (phys st1) t' i' = ent (phys st) t' i'" if "t' \<in> dom lv" "i' < 512" for t' i'
      using same_pages_ent [OF k _ that(2)] that(1) by simp
    show ?thesis
      by (rule that [of None st1 lv])
        (use False al n e pt_ok_same [OF ok _ k] same_pages_mono [OF k] in \<open>simp_all add: walk_level_def\<close>)
  next
    case (Some a)
    with al have al: "alloc_page hart st = Some (Some a, st1)" by simp
    note n = pt_ok_new_table [OF ok al t i False]
    show ?thesis
      by (rule that [OF _ n(1,4), of "Some a"]) (use False al n in \<open>simp_all add: walk_level_def\<close>)
  qed
qed

lemma hw_walk_same: "same_trans lv m m' \<Longrightarrow> lv root = Some 2 \<Longrightarrow> hw_walk m' root va = hw_walk m root va"
  by (simp add: same_trans_def hw_walk_def)

lemma hw_walk_super:
  "is_leaf (ent m root (vpn 2 va)) \<Longrightarrow> hw_walk m root va = Some (ent m root (vpn 2 va), 2)"
  "is_branch (ent m root (vpn 2 va)) \<Longrightarrow> is_leaf (ent m (phys_addr (ent m root (vpn 2 va))) (vpn 1 va)) \<Longrightarrow>
   hw_walk m root va = Some (ent m (phys_addr (ent m root (vpn 2 va))) (vpn 1 va), 1)"
  by (auto simp: hw_walk_def numeral_2_eq_2 Let_def dest: leaf_not_branch(1))

text \<open>
  The walk that creates missing tables keeps every translation of every address space, and
  reaches the level-0 table of the address unless a superpage is in the way or memory is exhausted.
\<close>

lemma walk_process_pt_spec:
  assumes ok: "pt_ok st lv D" and root: "lv root = Some 2"
  obtains r st' lv' where "walk_process_pt hart root va True st = Some (r, st')" "pt_ok st' lv' D" "lv \<subseteq>\<^sub>m lv'"
    "same_trans lv (phys st) (phys st')" "same_pages D (phys st) (phys st')"
    "\<And>t i. r = Some (t, i) \<Longrightarrow> path (phys st') root 2 va 2 = Some t \<and> i = vpn 0 va"
    "r = None \<Longrightarrow> (\<exists>e l. hw_walk (phys st) root va = Some (e, Suc l)) \<or> free_frames st' = {}"
proof -
  have root2: "lv root = Some (Suc 1)" using root by (simp add: numeral_2_eq_2)
  obtain r1 st1 lv1 where w1: "walk_level hart True root (vpn 2 va) st = Some (r1, st1)" "pt_ok st1 lv1 D" "lv \<subseteq>\<^sub>m lv1"
    "same_trans lv (phys st) (phys st1)" "same_pages D (phys st) (phys st1)"
    "\<And>u. r1 = Some u \<Longrightarrow> is_branch (ent (phys st1) root (vpn 2 va)) \<and> phys_addr (ent (phys st1) root (vpn 2 va)) = u"
    "r1 = None \<Longrightarrow> is_leaf (ent (phys st) root (vpn 2 va)) \<or> free_frames st1 = {}"
    using walk_level_spec [OF ok root2 vpn_less [of 2 va], of hart thesis] by blast
  show ?thesis
  proof (cases r1)
    case None
    have "(\<exists>e l. hw_walk (phys st) root va = Some (e, Suc l)) \<or> free_frames st1 = {}"
      using w1(7) [OF None] hw_walk_super(1) [of "phys st" root va] by (auto simp: numeral_2_eq_2)
    then show ?thesis
      by (intro that [of None st1 lv1]) (use None w1 in \<open>simp_all add: walk_process_pt_def vpn_levels\<close>)
  next
    case (Some u)
    have b: "is_branch (ent (phys st1) root (vpn 2 va))" "phys_addr (ent (phys st1) root (vpn 2 va)) = u"
      using w1(6) [OF Some] by simp_all
    have root1: "lv1 root = Some (Suc 1)" using w1(3) root2 by (auto simp: map_le_def dom_def)
    have u: "lv1 u = Some (Suc 0)" using pt_shapeD(2) [OF pt_okD(1) [OF w1(2)] root1 vpn_less b(1)] b(2) by simp
    obtain r2 st2 lv2 where w2: "walk_level hart True u (vpn 1 va) st1 = Some (r2, st2)" "pt_ok st2 lv2 D" "lv1 \<subseteq>\<^sub>m lv2"
      "same_trans lv1 (phys st1) (phys st2)" "same_pages D (phys st1) (phys st2)"
      "\<And>t' i'. t' \<in> dom lv1 \<Longrightarrow> i' < 512 \<Longrightarrow> (t', i') \<noteq> (u, vpn 1 va) \<Longrightarrow> ent (phys st2) t' i' = ent (phys st1) t' i'"
      "\<And>x. r2 = Some x \<Longrightarrow> is_branch (ent (phys st2) u (vpn 1 va)) \<and> phys_addr (ent (phys st2) u (vpn 1 va)) = x"
      "r2 = None \<Longrightarrow> is_leaf (ent (phys st1) u (vpn 1 va)) \<or> free_frames st2 = {}"
      using walk_level_spec [OF w1(2) u vpn_less [of 1 va], of hart thesis] by blast
    have "root \<noteq> u" using u root1 by auto
    then have e2: "ent (phys st2) root (vpn 2 va) = ent (phys st1) root (vpn 2 va)"
      using w2(6) [of root "vpn 2 va"] root1 by auto
    have "path (phys st2) root 2 va 2 = Some x" if "r2 = Some x" for x
      using e2 b w2(7) [OF that] by (simp add: numeral_2_eq_2 Let_def)
    moreover have "(\<exists>e l. hw_walk (phys st) root va = Some (e, Suc l)) \<or> free_frames st2 = {}" if "r2 = None"
      using w2(8) [OF that] hw_walk_super(2) [of "phys st1" root va] b hw_walk_same [OF w1(4) root, of va] by auto
    ultimately show ?thesis
      by (intro that [of "map_option (\<lambda>x. (x, vpn 0 va)) r2" st2 lv2])
        (use Some w1 w2 same_trans_trans [OF w1(4) w2(4) w1(3)] same_pages_trans [OF w1(5) w2(5)] map_le_trans [OF w1(3) w2(3)]
          in \<open>auto simp: walk_process_pt_def vpn_levels split: option.splits\<close>)
  qed
qed

text \<open>Writing the level-0 entry of an address.\<close>

lemma write_leaf_entry:
  fixes v :: pte
  assumes ok: "pt_ok st lv D" and root: "lv root = Some 2" and p: "path (phys st) root 2 va 2 = Some t"
  defines "m1 \<equiv> set_ent t (vpn 0 va) v (phys st)"
  shows "pt_ok (st\<lparr>phys := m1\<rparr>) lv D" and "same_pages D (phys st) m1"
    and "lv root' = Some 2 \<Longrightarrow> hw_walk m1 root' va' =
      (if root' = root \<and> same_page va va' then (if is_leaf v then Some (v, 0) else None)
       else hw_walk (phys st) root' va')"
proof -
  note s = pt_okD(1) [OF ok]
  have t: "lv t = Some 0" using path_level [OF s root _ p] by simp
  have al: "4096 dvd d" if "d \<in> dom lv \<union> D" for d using pt_okD(4) [OF ok that] by simp
  show "pt_ok (st\<lparr>phys := m1\<rparr>) lv D"
    using shape_write [OF s t vpn_less] fr.owns_set_ent [OF pt_okD(2) [OF ok] _ vpn_less, of t 0 va v] domI [of lv t 0] t pt_okD(3) [OF ok]
    unfolding pt_ok_def m1_def by auto
  show "same_pages D (phys st) m1"
    unfolding m1_def using al t pt_okD(3) [OF ok] by (intro same_pages_set_ent) auto
  assume r': "lv root' = Some 2"
  show "hw_walk m1 root' va' =
    (if root' = root \<and> same_page va va' then (if is_leaf v then Some (v, 0) else None)
     else hw_walk (phys st) root' va')"
  proof (cases "root' = root \<and> same_page va va'")
    case True
    have eq: "vpn j va' = vpn j va" if "j \<le> 2" for j
      using True that by (auto simp: same_page_def le_Suc_eq numeral_2_eq_2)
    have "path (phys st) root 2 va' 2 = path (phys st) root 2 va 2" by (rule path_cong) (use eq in auto)
    then have "path m1 root 2 va' 2 = Some t" unfolding m1_def using path_write [OF s t vpn_less root] p by simp
    then have "hwalk m1 root 2 va' = hwalk m1 t 0 va'" using hwalk_path [of 2 2 m1 root va' t] by simp
    then show ?thesis using True eq [of 0] al t by (simp add: hw_walk_def m1_def ent_set_ent domI)
  next
    case False
    have "\<not> (path (phys st) root' 2 va' 2 = Some t \<and> vpn 0 va' = vpn 0 va)"
    proof
      assume h: "path (phys st) root' 2 va' 2 = Some t \<and> vpn 0 va' = vpn 0 va"
      with path_inj [OF s root r' _ p] have "root = root'" "\<forall>j. 0 < j \<and> j \<le> 2 \<longrightarrow> vpn j va = vpn j va'" by auto
      with h False show False by (auto simp: same_page_def)
    qed
    then show ?thesis
      unfolding m1_def hw_walk_def using False hwalk_other [OF s t vpn_less r'] by auto
  qed
qed

section \<open>Looking up\<close>

lemma branch_iff: "is_branch e \<longleftrightarrow> is_valid e \<and> \<not> is_leaf e"
  by (auto simp: is_branch_def is_leaf_def)

lemma lookup_level_eq: "lookup_level m t i = (if is_branch (ent m t i) then Some (phys_addr (ent m t i)) else None)"
  by (simp add: lookup_level_def Let_def branch_iff)

lemma lookup_pt_path: "lookup_pt m root va = map_option (\<lambda>t. (t, vpn 0 va)) (path m root 2 va 2)"
  by (simp add: lookup_pt_def lookup_level_eq vpn_levels numeral_2_eq_2 Let_def)

lemma hw_walk_lookup:
  "hw_walk m root va =
    (case lookup_pt m root va of
       Some (t, i) \<Rightarrow> if is_leaf (ent m t i) then Some (ent m t i, 0) else None
     | None \<Rightarrow> if is_leaf (ent m root (vpn 2 va)) then Some (ent m root (vpn 2 va), 2)
         else if is_branch (ent m root (vpn 2 va)) then
           (let e = ent m (phys_addr (ent m root (vpn 2 va))) (vpn 1 va) in if is_leaf e then Some (e, 1) else None)
         else None)"
  by (simp add: hw_walk_def lookup_pt_path numeral_2_eq_2 Let_def branch_iff)

lemma lookup_leaf_iff:
  "(\<exists>t i. lookup_pt m root va = Some (t, i) \<and> is_leaf (ent m t i) \<and> ent m t i = e) \<longleftrightarrow> hw_walk m root va = Some (e, 0)"
  by (auto simp: hw_walk_lookup Let_def split: option.splits if_splits)

lemma walk_no_alloc: "walk_process_pt hart root va False st = Some (lookup_pt (phys st) root va, st)"
  by (simp add: walk_process_pt_def walk_level_def lookup_pt_def lookup_level_def Let_def split: option.splits)

lemma phys_addr_or_offset: "phys_addr e OR offset va = phys_addr e + va mod 4096"
proof -
  have o: "offset va = take_bit 12 va" by (simp add: offset_def PAGE_SIZE_def take_bit_eq_mask mask_eq_exp_minus_1)
  have p: "phys_addr e = push_bit 12 (ppn e)" by (simp add: phys_addr_def push_bit_eq_mult)
  have "phys_addr e + take_bit 12 va = phys_addr e OR take_bit 12 va"
    unfolding p by (rule disjunctive_add) (auto simp: bit_push_bit_iff bit_take_bit_iff)
  then show ?thesis by (simp add: o take_bit_eq_mod)
qed

lemma virt_to_phys_eq: "virt_to_phys (Some root) va m =
  Some (case hw_walk m root va of Some (e, 0) \<Rightarrow> Some (phys_addr e + va mod 4096) | _ \<Rightarrow> None)"
proof (cases "lookup_pt m root va")
  case None
  then show ?thesis by (auto simp: virt_to_phys_def hw_walk_lookup Let_def)
next
  case (Some a)
  then show ?thesis using leaf_not_branch(4) [of "ent m (fst a) (snd a)"]
    by (cases a) (simp add: virt_to_phys_def hw_walk_lookup phys_addr_or_offset Let_def)
qed

text \<open>Where the MMU finds a 4 KB page, the walk of the program loader finds it too.\<close>

lemma virt_to_phys_in_pt_leaf:
  assumes "hw_walk (phys st) root va = Some (e, 0)"
  shows "virt_to_phys_in_pt hart root va st = Some (phys_addr e + va mod 4096)"
proof -
  obtain t i where t: "lookup_pt (phys st) root va = Some (t, i)" "is_leaf (ent (phys st) t i)" "ent (phys st) t i = e"
    using assms lookup_leaf_iff [of "phys st" root va e] by blast
  then have "walk_pt hart root va False st = Some (Some (t, i), st)"
    by (auto simp: lookup_pt_def lookup_level_def walk_pt_def walk_pt_level_def Let_def split: option.splits if_splits)
  moreover have "is_valid e" using t(2,3) by (simp add: is_leaf_def)
  ultimately show ?thesis
    using t(2,3) phys_addr_or_offset [of e va] by (simp add: virt_to_phys_in_pt_def offset_def Let_def)
qed

section \<open>Mapping and unmapping\<close>

lemma map_page_spec:
  assumes ok: "pt_ok st lv D" and root: "lv root = Some 2" and rwx: "r \<or> w \<or> x"
  shows "\<exists>res st' lv'. map_page hart root va pa r w x u st = Some (res, st') \<and>
    pt_ok st' lv' D \<and> lv \<subseteq>\<^sub>m lv' \<and> same_pages D (phys st) (phys st') \<and>
    (\<forall>root' va'. lv root' = Some 2 \<longrightarrow> hw_walk (phys st') root' va' =
       (if res = Inr () \<and> root' = root \<and> same_page va va' then Some (leaf_entry pa r w x u, 0)
        else hw_walk (phys st) root' va')) \<and>
    (res = Inr () \<or> (\<exists>e l. hw_walk (phys st) root va = Some (e, Suc l)) \<or> free_frames st' = {})"
proof -
  obtain q st1 lv1 where w: "walk_process_pt hart root va True st = Some (q, st1)" "pt_ok st1 lv1 D" "lv \<subseteq>\<^sub>m lv1"
    "same_trans lv (phys st) (phys st1)" "same_pages D (phys st) (phys st1)"
    "\<And>t i. q = Some (t, i) \<Longrightarrow> path (phys st1) root 2 va 2 = Some t \<and> i = vpn 0 va"
    "q = None \<Longrightarrow> (\<exists>e l. hw_walk (phys st) root va = Some (e, Suc l)) \<or> free_frames st1 = {}"
    using walk_process_pt_spec [OF ok root, of hart va thesis] by blast
  show ?thesis
  proof (cases q)
    case None
    with w hw_walk_same [OF w(4)] show ?thesis by (auto simp: map_page_def)
  next
    case (Some a)
    then obtain t where a: "a = (t, vpn 0 va)" "path (phys st1) root 2 va 2 = Some t" using w(6) by (cases a) auto
    have lv1: "lv1 root' = Some 2" if "lv root' = Some 2" for root' using w(3) that by (auto simp: map_le_def dom_def)
    note wl = write_leaf_entry [OF w(2) lv1 [OF root] a(2), where v = "leaf_entry pa r w x u"]
    show ?thesis
      using w(1,3) Some a(1) wl(1) same_pages_trans [OF w(5) wl(2)] wl(3) [OF lv1] hw_walk_same [OF w(4)] rwx
      by (auto simp: map_page_def)
  qed
qed

lemma unmap_spec:
  assumes ok: "pt_ok st lv D" and root: "lv root = Some 2"
  shows "\<exists>m'. unmap_user_page_phys root va (phys st) =
      ((case hw_walk (phys st) root va of Some (e, 0) \<Rightarrow> Some (phys_addr e) | _ \<Rightarrow> None), m') \<and>
    pt_ok (st\<lparr>phys := m'\<rparr>) lv D \<and> same_pages D (phys st) m' \<and>
    (\<forall>root' va'. lv root' = Some 2 \<longrightarrow> hw_walk m' root' va' =
       (if root' = root \<and> same_page va va' \<and> (\<exists>e. hw_walk (phys st) root va = Some (e, 0)) then None
        else hw_walk (phys st) root' va'))"
proof (cases "\<exists>e. hw_walk (phys st) root va = Some (e, 0)")
  case True
  then obtain e where e: "hw_walk (phys st) root va = Some (e, 0)" by blast
  then obtain t where t: "lookup_pt (phys st) root va = Some (t, vpn 0 va)" "is_leaf (ent (phys st) t (vpn 0 va))"
    "ent (phys st) t (vpn 0 va) = e" using lookup_leaf_iff [of "phys st" root va e] by (auto simp: lookup_pt_path)
  then have p: "path (phys st) root 2 va 2 = Some t" by (auto simp: lookup_pt_path)
  note wl = write_leaf_entry [OF ok root p, where v = pte_empty]
  show ?thesis
    using e t wl leaf_not_branch(4) [OF t(2)]
    by (intro exI [of _ "set_ent t (vpn 0 va) pte_empty (phys st)"])
      (auto simp: unmap_user_page_phys_def Let_def pte_empty_def)
next
  case False
  then have n: "(case hw_walk (phys st) root va of Some (e, 0) \<Rightarrow> Some (phys_addr e) | _ \<Rightarrow> None) = None"
    by (auto split: option.splits nat.splits)
  have "unmap_user_page_phys root va (phys st) = (None, phys st)"
    using False lookup_leaf_iff [of "phys st" root va] by (auto simp: unmap_user_page_phys_def Let_def split: option.splits)
  with n False ok show ?thesis by auto
qed

section \<open>Ranges of user memory\<close>

lemma vpn_page: "vpn l (page_align_down va) = vpn l va"
proof -
  have "page_align_down va = va div 4096 * 4096" by (simp add: page_align_down_def PAGE_SIZE_def minus_mod_eq_div_mult)
  then have "page_align_down va div 2 ^ 12 = va div 2 ^ 12" by simp
  then have "page_align_down va div 2 ^ 12 div 2 ^ (9 * l) = va div 2 ^ 12 div 2 ^ (9 * l)" by (rule arg_cong)
  then show ?thesis by (simp only: vpn_def div_mult2_eq [symmetric] power_add)
qed

lemma lookup_pt_page: "lookup_pt m root (page_align_down va) = lookup_pt m root va"
  by (simp add: lookup_pt_def vpn_levels vpn_page split: option.split)

lemma is_user_addr_valid_page: "is_user_addr_valid root (page_align_down va) m = is_user_addr_valid root va m"
  by (simp add: is_user_addr_valid_def lookup_pt_page)

declare user_pages_valid.simps [simp del]

lemma user_pages_step:
  "page \<le> e \<Longrightarrow> e < 2 ^ 64 - 1 \<Longrightarrow> user_pages_valid root page e m \<longleftrightarrow>
    is_user_addr_valid root page m \<and> user_pages_valid root (usize_saturating_add page PAGE_SIZE) e m"
  "e < page \<Longrightarrow> user_pages_valid root page e m"
  by (subst user_pages_valid.simps, simp)+

lemma user_pages_valid_iff:
  "4096 dvd page \<Longrightarrow> 4096 dvd e \<Longrightarrow> e < 2 ^ 64 \<Longrightarrow>
   user_pages_valid root page e m \<longleftrightarrow> (\<forall>p. 4096 dvd p \<longrightarrow> page \<le> p \<longrightarrow> p \<le> e \<longrightarrow> is_user_addr_valid root p m)"
proof (induction root page e m rule: user_pages_valid.induct)
  case (1 root page e m)
  note al = "1.prems"(1,2)
  have e: "e < 2 ^ 64 - 1" using "1.prems"(2,3) by (auto simp: dvd_def)
  show ?case
  proof (cases "page \<le> e \<and> is_user_addr_valid root page m")
    case True
    let ?next = "usize_saturating_add page PAGE_SIZE"
    have le: "page + 4096 \<le> 2 ^ 64"
    proof -
      obtain a where "page = 4096 * a" using al by (auto simp: dvd_def)
      then show ?thesis using True e by simp
    qed
    show ?thesis
    proof (cases "page + 4096 = 2 ^ 64")
      case eq: True
      then have "?next = 2 ^ 64 - 1" by (simp add: usize_saturating_add_def PAGE_SIZE_def)
      then have s: "user_pages_valid root ?next e m" using e by (simp add: user_pages_step(2))
      have "p = page" if h: "4096 dvd p" "page \<le> p" "p \<le> e" for p
      proof -
        obtain a b where "p = 4096 * a" "page = 4096 * b" using al(1) h(1) unfolding dvd_def by blast
        then show ?thesis using eq h e by simp
      qed
      then have "is_user_addr_valid root p m" if "4096 dvd p" "page \<le> p" "p \<le> e" for p using that True by blast
      then show ?thesis using user_pages_step(1) [OF _ e, of page root m] True s by blast
    next
      case False
      then have n: "?next = page + 4096" using le by (simp add: usize_saturating_add_def PAGE_SIZE_def)
      have ih: "user_pages_valid root (page + 4096) e m \<longleftrightarrow>
          (\<forall>p. 4096 dvd p \<longrightarrow> page + 4096 \<le> p \<longrightarrow> p \<le> e \<longrightarrow> is_user_addr_valid root p m)"
        using "1.IH" True e al "1.prems"(3) n by simp
      have "p = page \<or> page + 4096 \<le> p" if h: "4096 dvd p" "page \<le> p" for p
      proof -
        obtain a b where "p = 4096 * a" "page = 4096 * b" using al(1) h(1) unfolding dvd_def by blast
        then show ?thesis using h(2) by (cases "a = b") auto
      qed
      then have "(\<forall>p. 4096 dvd p \<longrightarrow> page \<le> p \<longrightarrow> p \<le> e \<longrightarrow> is_user_addr_valid root p m) \<longleftrightarrow>
          (\<forall>p. 4096 dvd p \<longrightarrow> page + 4096 \<le> p \<longrightarrow> p \<le> e \<longrightarrow> is_user_addr_valid root p m)"
        using True by (metis add_leD1)
      then show ?thesis using user_pages_step(1) [OF _ e, of page root m] True n ih by simp
    qed
  next
    case False
    then show ?thesis
      using user_pages_step(1) [OF _ e, of page root m] user_pages_step(2) [of e page root m] al(1)
      by (cases "page \<le> e") auto
  qed
qed

lemma is_user_range_valid_bytes:
  assumes "va + len \<le> 2 ^ 64"
  shows "is_user_range_valid root va len m \<longleftrightarrow> (\<forall>a. va \<le> a \<and> a < va + len \<longrightarrow> is_user_addr_valid root a m)"
proof (cases "len = 0")
  case False
  define e where "e = usize_saturating_add va len - 1"
  have "e = va + len - 1 \<or> va + len = 2 ^ 64 \<and> e = 2 ^ 64 - 2"
    using assms by (auto simp: e_def usize_saturating_add_def min_def)
  then have ed: "page_align_down e = page_align_down (va + len - 1)" and e: "e < 2 ^ 64"
    using assms False by (auto simp: page_align_down_def PAGE_SIZE_def)
  let ?l = "va + len - 1"
  have dv: "4096 dvd page_align_down x" for x by (simp add: page_align_down_def PAGE_SIZE_def dvd_minus_mod)
  have le: "page_align_down x \<le> x" for x by (simp add: page_align_down_def)
  have mono: "page_align_down x \<le> page_align_down y" if "x \<le> y" for x y
    using div_le_mono [OF that, of 4096] by (simp add: page_align_down_def PAGE_SIZE_def minus_mod_eq_div_mult)
  have "is_user_range_valid root va len m \<longleftrightarrow> (\<forall>p. 4096 dvd p \<longrightarrow> page_align_down va \<le> p \<longrightarrow> p \<le> page_align_down ?l \<longrightarrow>
      is_user_addr_valid root p m)"
    using False user_pages_valid_iff [OF dv dv, of ?l root va m] le [of ?l] assms
    unfolding is_user_range_valid_def e_def [symmetric] ed by simp
  also have "\<dots> \<longleftrightarrow> (\<forall>a. va \<le> a \<and> a < va + len \<longrightarrow> is_user_addr_valid root a m)"
  proof (intro iffI allI impI)
    fix a assume h: "\<forall>p. 4096 dvd p \<longrightarrow> page_align_down va \<le> p \<longrightarrow> p \<le> page_align_down ?l \<longrightarrow> is_user_addr_valid root p m"
      and a: "va \<le> a \<and> a < va + len"
    moreover have "page_align_down va \<le> page_align_down a" "page_align_down a \<le> page_align_down ?l"
      using a by (auto intro!: mono)
    ultimately have "is_user_addr_valid root (page_align_down a) m" using dv by blast
    then show "is_user_addr_valid root a m" by (simp add: is_user_addr_valid_page)
  next
    fix p assume h: "\<forall>a. va \<le> a \<and> a < va + len \<longrightarrow> is_user_addr_valid root a m"
      and p: "4096 dvd p" "page_align_down va \<le> p" "p \<le> page_align_down ?l"
    show "is_user_addr_valid root p m"
    proof (cases "va \<le> p")
      case True
      then show ?thesis using h p(3) le [of ?l] False by simp
    next
      case f: False
      have "page_align_down p = p" using p(1) by (auto simp: page_align_down_def PAGE_SIZE_def)
      then have "page_align_down va = p" using mono [of p va] f p(2) by simp
      then show ?thesis using h False is_user_addr_valid_page [of root va m] by auto
    qed
  qed
  finally show ?thesis .
qed (auto simp: is_user_range_valid_def)

section \<open>Write xor execute\<close>

definition strip_x :: "pte \<Rightarrow> pte" where
  "strip_x e = (if is_valid e \<and> is_user e \<and> is_writable e \<and> is_executable e then set_flags (is_readable e) True False True e else e)"

lemma strip_x_fields [simp]:
  "is_valid (strip_x e) = is_valid e" "is_leaf (strip_x e) = is_leaf e" "is_branch (strip_x e) = is_branch e"
  "phys_addr (strip_x e) = phys_addr e" "is_user (strip_x e) = is_user e" "is_writable (strip_x e) = is_writable e"
  "strip_x (strip_x e) = strip_x e"
proof -
  show "is_valid (strip_x e) = is_valid e" "is_leaf (strip_x e) = is_leaf e" "is_branch (strip_x e) = is_branch e"
    "is_user (strip_x e) = is_user e" "is_writable (strip_x e) = is_writable e"
    by (auto simp: strip_x_def pte_bits)
  show "strip_x (strip_x e) = strip_x e" by (auto simp: strip_x_def pte_bits)
  show "phys_addr (strip_x e) = phys_addr e" by (rule phys_addr_cong) (auto simp: strip_x_def pte_bits)
qed


text \<open>Every entry is as before or stripped; such a change keeps the tree of tables.\<close>

definition stripped :: "pmem \<Rightarrow> pmem \<Rightarrow> bool" where
  "stripped m m' \<longleftrightarrow> (\<forall>a. m' a = m a \<or> m' a = strip_x (m a))"

lemma stripped_refl [simp]: "stripped m m"
  by (simp add: stripped_def)

lemma stripped_trans: "stripped m m' \<Longrightarrow> stripped m' m'' \<Longrightarrow> stripped m m''"
  unfolding stripped_def by (metis strip_x_fields(7))

lemma stripped_ent:
  assumes "stripped m m'"
  shows "is_valid (ent m' t i) = is_valid (ent m t i)" "is_leaf (ent m' t i) = is_leaf (ent m t i)"
    "is_branch (ent m' t i) = is_branch (ent m t i)" "phys_addr (ent m' t i) = phys_addr (ent m t i)"
    "strip_x (ent m' t i) = strip_x (ent m t i)"
  using assms [unfolded stripped_def, rule_format, of "t + 8 * i"] unfolding ent_def by auto

lemma stripped_done: "stripped m m' \<Longrightarrow> strip_x (ent m t i) = ent m t i \<Longrightarrow> ent m' t i = ent m t i"
  unfolding stripped_def ent_def by metis

lemma fix_entry_eq: "snd (fix_entry t i (n, m)) = set_ent t i (strip_x (ent m t i)) m"
  by (auto simp: fix_entry_def Let_def strip_x_def set_ent_def ent_def)

lemma fix_entry_stripped:
  "stripped m (snd (fix_entry t i (n, m)))" "ent (snd (fix_entry t i (n, m))) t i = strip_x (ent m t i)"
  by (auto simp: fix_entry_eq stripped_def set_ent_def ent_def)

text \<open>A loop whose steps strip entries: what one step finishes stays finished.\<close>

lemma stripped_fold:
  assumes step: "\<And>i n m. stripped m (snd (f i (n, m)))"
  shows "stripped m (snd (fold f js (n, m)))"
proof (induction js arbitrary: n m)
  case (Cons i js)
  then show ?case using stripped_trans [OF step [where i = i and n = n and m = m]] by (cases "f i (n, m)") auto
qed simp

lemma stripped_fold_done:
  assumes step: "\<And>i n m. stripped m (snd (f i (n, m)))"
    and fin: "\<And>i n m. stripped m0 m \<Longrightarrow> P i (snd (f i (n, m)))"
    and stable: "\<And>i m m'. stripped m0 m \<Longrightarrow> stripped m m' \<Longrightarrow> P i m \<Longrightarrow> P i m'"
  shows "stripped m0 m \<Longrightarrow> i \<in> set js \<Longrightarrow> P i (snd (fold f js (n, m)))"
proof (induction js arbitrary: n m)
  case (Cons j js)
  obtain n1 m1 where f: "f j (n, m) = (n1, m1)" by (cases "f j (n, m)")
  have s: "stripped m0 m1" using stripped_trans [OF Cons.prems(1) step [of m j n]] f by simp
  show ?case
  proof (cases "i = j")
    case True
    then have "P i m1" using fin [OF Cons.prems(1), of j n] f by simp
    then show ?thesis using stable [OF s stripped_fold [OF step]] f by simp
  next
    case False
    then show ?thesis using Cons.IH [OF s] Cons.prems(2) f by simp
  qed
qed simp

lemma strip_l0:
  "stripped m (snd (fold (fix_entry t) js (n, m)))"
  "i \<in> set js \<Longrightarrow> ent (snd (fold (fix_entry t) js (n, m))) t i = strip_x (ent m t i)"
proof -
  show "stripped m (snd (fold (fix_entry t) js (n, m)))" by (rule stripped_fold) (rule fix_entry_stripped)
  show "ent (snd (fold (fix_entry t) js (n, m))) t i = strip_x (ent m t i)" if "i \<in> set js"
    by (rule stripped_fold_done [where ?m0.0 = m and P = "\<lambda>i m'. ent m' t i = strip_x (ent m t i)", OF fix_entry_stripped(1) _ _ _ that])
      (auto simp: fix_entry_stripped stripped_ent stripped_done)
qed

text \<open>The entries below a level-1 entry are done.\<close>

definition l1_done :: "pmem \<Rightarrow> usize \<Rightarrow> usize \<Rightarrow> pmem \<Rightarrow> bool" where
  "l1_done m t i m' \<longleftrightarrow>
     (is_leaf (ent m t i) \<longrightarrow> ent m' t i = strip_x (ent m t i)) \<and>
     (is_branch (ent m t i) \<longrightarrow> (\<forall>j<512. ent m' (phys_addr (ent m t i)) j = strip_x (ent m (phys_addr (ent m t i)) j)))"

lemma l1_done_stable: "stripped m' m'' \<Longrightarrow> l1_done m t i m' \<Longrightarrow> l1_done m t i m''"
  by (auto simp: l1_done_def stripped_done)

lemma strip_l1_entry:
  "stripped m (snd (force_l1_entry t i (n, m)))"
  "stripped m0 m \<Longrightarrow> l1_done m0 t i (snd (force_l1_entry t i (n, m)))"
proof -
  show "stripped m (snd (force_l1_entry t i (n, m)))"
    by (simp add: force_l1_entry_def Let_def fix_entry_stripped strip_l0)
  show "l1_done m0 t i (snd (force_l1_entry t i (n, m)))" if s: "stripped m0 m"
    using leaf_not_branch(4) [of "ent m0 t i"]
    by (auto simp: force_l1_entry_def Let_def fix_entry_stripped strip_l0 stripped_ent [OF s] l1_done_def branch_iff)
qed

lemma strip_l2_entry:
  "stripped m (snd (force_l2_entry t i (n, m)))"
  "stripped m0 m \<Longrightarrow> is_branch (ent m0 t i) \<longrightarrow> (\<forall>j<512. l1_done m0 (phys_addr (ent m0 t i)) j (snd (force_l2_entry t i (n, m))))"
proof -
  show "stripped m (snd (force_l2_entry t i (n, m)))"
    by (auto simp: force_l2_entry_def Let_def intro!: stripped_fold strip_l1_entry)
  show "is_branch (ent m0 t i) \<longrightarrow> (\<forall>j<512. l1_done m0 (phys_addr (ent m0 t i)) j (snd (force_l2_entry t i (n, m))))"
    if s: "stripped m0 m"
  proof (intro impI allI)
    fix j assume b: "is_branch (ent m0 t i)" and j: "j < (512::nat)"
    have "l1_done m0 (phys_addr (ent m0 t i)) j (snd (fold (force_l1_entry (phys_addr (ent m0 t i))) [0..<512] (n, m)))"
      by (rule stripped_fold_done [where ?m0.0 = m0 and P = "l1_done m0 (phys_addr (ent m0 t i))"])
        (use s j in \<open>auto intro: strip_l1_entry l1_done_stable\<close>)
    then show "l1_done m0 (phys_addr (ent m0 t i)) j (snd (force_l2_entry t i (n, m)))"
      using b by (simp add: force_l2_entry_def Let_def stripped_ent [OF s] branch_iff)
  qed
qed

lemma force_wxorx_done:
  "stripped m (snd (force_wxorx root m))"
  "i < 256 \<Longrightarrow> j < 512 \<Longrightarrow> is_branch (ent m root i) \<Longrightarrow> l1_done m (phys_addr (ent m root i)) j (snd (force_wxorx root m))"
proof -
  show "stripped m (snd (force_wxorx root m))"
    unfolding force_wxorx_def by (rule stripped_fold) (rule strip_l2_entry)
  show "l1_done m (phys_addr (ent m root i)) j (snd (force_wxorx root m))"
    if "i < 256" "j < 512" "is_branch (ent m root i)"
  proof -
    have "is_branch (ent m root i) \<longrightarrow> (\<forall>j<512. l1_done m (phys_addr (ent m root i)) j (snd (fold (force_l2_entry root) [0..<256] (0, m))))"
      by (rule stripped_fold_done [where ?m0.0 = m and P = "\<lambda>i m'. is_branch (ent m root i) \<longrightarrow>
            (\<forall>j<512. l1_done m (phys_addr (ent m root i)) j m')"])
        (use that strip_l2_entry in \<open>auto intro: l1_done_stable\<close>)
    with that show ?thesis by (simp add: force_wxorx_def)
  qed
qed

lemma force_wxorx_walk:
  assumes va: "vpn 2 va < 256" and nl: "\<not> is_leaf (ent m root (vpn 2 va))"
  shows "hw_walk (snd (force_wxorx root m)) root va = map_option (\<lambda>(e, l). (strip_x e, l)) (hw_walk m root va)"
proof -
  let ?m = "snd (force_wxorx root m)" and ?t = "phys_addr (ent m root (vpn 2 va))"
  let ?e1 = "ent m ?t (vpn 1 va)"
  note s = stripped_ent [OF force_wxorx_done(1) [of m root]]
  show ?thesis
  proof (cases "is_branch (ent m root (vpn 2 va))")
    case True
    from force_wxorx_done(2) [OF va vpn_less [of 1 va] True]
    have d: "is_leaf ?e1 \<longrightarrow> ent ?m ?t (vpn 1 va) = strip_x ?e1"
      "is_branch ?e1 \<longrightarrow> ent ?m (phys_addr ?e1) (vpn 0 va) = strip_x (ent m (phys_addr ?e1) (vpn 0 va))"
      by (simp_all add: l1_done_def)
    show ?thesis
      using True nl d by (simp add: hw_walk_def numeral_2_eq_2 Let_def s)
  next
    case False
    then show ?thesis using nl by (simp add: hw_walk_def numeral_2_eq_2 Let_def s)
  qed
qed

subsection \<open>The check of the whole user half\<close>

definition va_of :: "usize \<Rightarrow> usize \<Rightarrow> usize \<Rightarrow> usize" where
  "va_of i j k = i * 2 ^ 30 + j * 2 ^ 21 + k * 2 ^ 12"

lemma vpn_va_of:
  assumes "i < 512" and "j < 512" and "k < 512"
  shows "vpn 2 (va_of i j k) = i" "vpn (Suc 0) (va_of i j k) = j" "vpn 0 (va_of i j k) = k"
proof -
  have "va_of i j k = (i * 262144 + j * 512 + k) * 4096" by (simp add: va_of_def)
  then have k: "va_of i j k div 4096 = i * 262144 + j * 512 + k" by simp
  then have "va_of i j k div 4096 div 512 = (i * 512 + j)" using assms by simp
  then have j: "va_of i j k div 2097152 = i * 512 + j" by (simp only: div_mult2_eq [symmetric]) simp
  then have "va_of i j k div 2097152 div 512 = i" using assms by simp
  then have i: "va_of i j k div 1073741824 = i" by (simp only: div_mult2_eq [symmetric]) simp
  have m: "(i * 262144 + j * 512 + k) mod 512 = k"
    using mod_mult_self1 [of k "i * 512 + j" 512] assms(3) by (simp add: algebra_simps)
  show "vpn 2 (va_of i j k) = i" "vpn (Suc 0) (va_of i j k) = j" "vpn 0 (va_of i j k) = k"
    using assms i j k m by (simp_all add: vpn_def)
qed

lemma map_filter_Nil: "List.map_filter f xs = [] \<longleftrightarrow> (\<forall>x \<in> set xs. f x = None)"
  by (induction xs) (auto simp: List.map_filter_simps split: option.splits)

lemma verify_wxorx_entries:
  "verify_wxorx root m = Inr () \<longleftrightarrow>
   (\<forall>i<256. is_branch (ent m root i) \<longrightarrow> (\<forall>j<512. verify_l1_entry m (phys_addr (ent m root i)) j = None))"
proof -
  have "verify_wxorx root m = Inr () \<longleftrightarrow>
      List.map_filter (\<lambda>(l1, i). verify_l1_entry m l1 i)
        (concat (map (\<lambda>l1. map (\<lambda>i. (l1, i)) [0..<512]) (user_tables m root))) = []"
    by (simp add: verify_wxorx_def split: list.split)
  then show ?thesis by (auto simp: map_filter_Nil user_tables_def branch_iff)
qed

lemma verify_l1_entry_iff:
  "verify_l1_entry m t j = None \<longleftrightarrow>
    (is_leaf (ent m t j) \<longrightarrow> \<not> wx_entry (ent m t j)) \<and>
    (is_branch (ent m t j) \<longrightarrow> (\<forall>k<512. is_leaf (ent m (phys_addr (ent m t j)) k) \<longrightarrow> \<not> wx_entry (ent m (phys_addr (ent m t j)) k)))"
proof -
  have "is_valid e \<and> wx_entry e \<longleftrightarrow> is_leaf e \<and> wx_entry e" for e
    by (auto simp: wx_entry_def pte_bits)
  then show ?thesis
    using leaf_not_branch(4) [of "ent m t j"] by (auto simp: verify_l1_entry_def Let_def branch_iff list_ex_iff)
qed

lemma hw_walk_levels: "hw_walk m root va =
  (let e2 = ent m root (vpn 2 va); e1 = ent m (phys_addr e2) (vpn (Suc 0) va); e0 = ent m (phys_addr e1) (vpn 0 va) in
   if is_leaf e2 then Some (e2, 2) else if \<not> is_branch e2 then None
   else if is_leaf e1 then Some (e1, 1) else if \<not> is_branch e1 then None
   else if is_leaf e0 then Some (e0, 0) else None)"
  by (simp add: hw_walk_def numeral_2_eq_2 Let_def)

lemma verify_wxorx_iff:
  "verify_wxorx root m = Inr () \<longleftrightarrow>
   (\<forall>va e l. vpn 2 va < 256 \<and> hw_walk m root va = Some (e, l) \<and> l < 2 \<longrightarrow> \<not> (is_writable e \<and> is_executable e))"
    (is "_ \<longleftrightarrow> ?safe")
proof
  assume v: "verify_wxorx root m = Inr ()"
  show ?safe
  proof (intro allI impI)
    fix va e l
    assume h: "vpn 2 va < 256 \<and> hw_walk m root va = Some (e, l) \<and> l < 2"
    then have b: "is_branch (ent m root (vpn 2 va))" by (auto simp: hw_walk_levels Let_def split: if_splits)
    from v h b have "verify_l1_entry m (phys_addr (ent m root (vpn 2 va))) (vpn 1 va) = None"
      unfolding verify_wxorx_entries by auto
    then show "\<not> (is_writable e \<and> is_executable e)"
      using h b leaf_not_branch(3) [OF b]
      by (auto simp: verify_l1_entry_iff wx_entry_def hw_walk_levels Let_def split: if_splits)
  qed
next
  assume s: ?safe
  have "verify_l1_entry m (phys_addr (ent m root i)) j = None" if ij: "i < 256" "j < 512" and b: "is_branch (ent m root i)" for i j
  proof -
    let ?t = "phys_addr (ent m root i)"
    have k: "\<not> wx_entry e" if "k < 512" "hw_walk m root (va_of i j k) = Some (e, l)" "l < 2" for e k l
      using s [rule_format, of "va_of i j k" e l] that ij by (auto simp: vpn_va_of wx_entry_def)
    have "\<not> wx_entry (ent m ?t j)" if "is_leaf (ent m ?t j)"
      using k [of 0 _ 1] that b leaf_not_branch(3) [OF b] ij by (simp add: hw_walk_levels Let_def vpn_va_of)
    moreover have "\<not> wx_entry (ent m (phys_addr (ent m ?t j)) k)"
      if b1: "is_branch (ent m ?t j)" and k': "k < 512" "is_leaf (ent m (phys_addr (ent m ?t j)) k)" for k
      using k [OF k'(1), of _ 0] k' b leaf_not_branch(3) [OF b] b1 leaf_not_branch(3) [OF b1] ij
      by (simp add: hw_walk_levels Let_def vpn_va_of)
    ultimately show ?thesis unfolding verify_l1_entry_iff by blast
  qed
  then show "verify_wxorx root m = Inr ()" by (simp add: verify_wxorx_entries)
qed

lemma kernel_superpage_fails_check:
  "hw_walk m root DRAM_BASE = Some (leaf_entry DRAM_BASE True True True False, 1) \<Longrightarrow> verify_wxorx root m \<noteq> Inr ()"
  using verify_wxorx_iff [of root m] by (force simp: vpn_def DRAM_BASE_def)

section \<open>Splitting a superpage\<close>

text \<open>What an access sees: the physical address and the attributes.\<close>

definition access :: "usize \<Rightarrow> pte \<times> nat \<Rightarrow> usize \<times> bool list" where
  "access va = (\<lambda>(e, l). (phys_addr e + va mod 2 ^ (12 + 9 * l),
     [is_readable e, is_writable e, is_executable e, is_user e, is_cow e, is_shared e]))"

definition translate :: "pmem \<Rightarrow> usize \<Rightarrow> usize \<Rightarrow> (usize \<times> bool list) option" where
  "translate m root va = map_option (access va) (hw_walk m root va)"

lemma ent_fill_table:
  assumes "4096 dvd t" "4096 dvd t'" "i < 512"
  shows "ent (fill_table t f m) t' i = (if t' = t then f i else ent m t' i)"
proof -
  have "ent (fold (\<lambda>i. set_ent t i (f i)) [0..<n] m) t' i = (if t' = t \<and> i < n then f i else ent m t' i)" if "n \<le> 512" for n
    using that
  proof (induction n)
    case (Suc n)
    then show ?case using assms by (auto simp: ent_set_ent)
  qed simp
  then show ?thesis using assms(3) by (simp add: fill_table_def)
qed

lemma fill_table_other: "a < t \<or> t + 4096 \<le> a \<Longrightarrow> fill_table t f m a = m a"
proof -
  assume a: "a < t \<or> t + 4096 \<le> a"
  have "fold (\<lambda>i. set_ent t i (f i)) [0..<n] m a = m a" if "n \<le> 512" for n
    using that a by (induction n) (auto simp: set_ent_def)
  then show ?thesis by (simp add: fill_table_def)
qed

lemma split_entry_fields [simp]:
  "is_leaf (split_entry e i) \<longleftrightarrow> is_readable e \<or> is_writable e \<or> is_executable e"
  "is_readable (split_entry e i) = is_readable e" "is_writable (split_entry e i) = is_writable e"
  "is_executable (split_entry e i) = is_executable e" "is_user (split_entry e i) = is_user e"
  "is_cow (split_entry e i) = is_cow e" "is_shared (split_entry e i) = is_shared e"
  by (auto simp: split_entry_def leaf_entry_def Let_def pte_bits)

lemma phys_addr_split_entry:
  assumes al: "2 ^ 21 dvd phys_addr e" and i: "i < 512"
  shows "phys_addr (split_entry e i) = phys_addr e + i * 4096"
proof -
  obtain k where k: "phys_addr e = 2097152 * k" using al by (auto simp: dvd_def)
  have "phys_addr e + i * 4096 < 2 ^ 56" using phys_addr_bound(1) [of e] i unfolding k by simp
  then have "phys_addr (leaf_entry (phys_addr e + i * PAGE_SIZE) r w x u) = phys_addr e + i * 4096" for r w x u
    using phys_addr_bound(2) [of e] by (simp add: phys_addr_leaf_entry PAGE_SIZE_def)
  moreover have "phys_addr (split_entry e i) =
      phys_addr (leaf_entry (phys_addr e + i * PAGE_SIZE) (is_readable e) (is_writable e) (is_executable e) (is_user e))"
    by (rule phys_addr_cong) (auto simp: split_entry_def Let_def pte_bits)
  ultimately show ?thesis by simp
qed

text \<open>Linking a filled table under an entry that is not a pointer.\<close>

lemma hwalk_link_table:
  assumes s: "pt_shape m lv" and t0: "lv t0 = Some 1" and i0: "i0 < 512"
    and u: "lv u = None" "4096 dvd u" "u < 2 ^ 56" and root: "lv root = Some 2"
  shows "hwalk (set_ent t0 i0 (table_entry u) m) root 2 va =
    (if path m root 2 va 1 = Some t0 \<and> vpn 1 va = i0
     then (let e = ent m u (vpn 0 va) in if is_leaf e then Some (e, 0) else None)
     else hwalk m root 2 va)"
proof (cases "path m root 2 va 1 = Some t0 \<and> vpn 1 va = i0")
  case True
  let ?m = "set_ent t0 i0 (table_entry u) m"
  have al: "4096 dvd t0" by (rule pt_shapeD(1) [OF s t0])
  have e: "ent ?m u j = ent m u j" if "j < 512" for j
    using u(1,2) t0 al i0 that by (subst ent_set_ent) auto
  have "path ?m root 2 va 1 = Some t0" using path_write [OF s t0 i0 root, of 1] True by simp
  then have "hwalk ?m root 2 va = hwalk ?m t0 (Suc 0) va" using hwalk_path [of 1 2 ?m root va t0] by (simp add: numeral_2_eq_2)
  also have "\<dots> = hwalk ?m u 0 va"
    using True i0 al by (simp add: ent_set_ent phys_addr_table_entry [OF u(2,3)] Let_def)
  finally show ?thesis using True e by simp
next
  case False
  then show ?thesis using hwalk_other [OF s t0 i0 root, of va] by auto
qed

lemma va_mod_2m: "va mod 2097152 = vpn 0 va * 4096 + va mod 4096"
proof -
  have "va mod (4096 * 512) = 4096 * (va div 4096 mod 512) + va mod 4096" by (rule mod_mult2_eq)
  then show ?thesis by (simp add: vpn_def mult.commute)
qed

lemma access_split:
  "2 ^ 21 dvd phys_addr e \<Longrightarrow> access va (split_entry e (vpn 0 va), 0) = access va (e, 1)"
  using phys_addr_split_entry [of e "vpn 0 va"] by (simp add: access_def va_mod_2m)

lemma same_pages_fill:
  assumes "4096 dvd t" and "\<And>d. d \<in> A \<Longrightarrow> 4096 dvd d" and "t \<notin> A"
  shows "same_pages A m (fill_table t f m)"
  unfolding same_pages_def
proof (intro ballI allI impI)
  fix d off assume d: "d \<in> A" "off < (4096::nat)"
  have "d + off < t \<or> t + 4096 \<le> d + off"
  proof (rule ccontr)
    assume b: "\<not> (d + off < t \<or> t + 4096 \<le> d + off)"
    then have "t + (d + off - t) \<noteq> d + off" using d assms by (intro page_cell_neq) auto
    with b show False by simp
  qed
  then show "fill_table t f m (d + off) = m (d + off)" by (rule fill_table_other)
qed

lemma split_new_table:
  assumes ok: "pt_ok st lv D" and al: "alloc_page hart st = Some (Some a, st1)" and t: "lv t = Some 1" and i: "i < 512"
    and e1: "is_leaf (ent (phys st) t i)" "2 ^ 21 dvd phys_addr (ent (phys st) t i)"
  defines "m1 \<equiv> set_ent t i (table_entry a) (fill_table a (split_entry (ent (phys st) t i)) (phys st1))"
  shows "pt_ok (st1\<lparr>phys := m1\<rparr>) (lv(a := Some 0)) D" and "same_pages D (phys st) m1" and "lv \<subseteq>\<^sub>m lv(a := Some 0)"
    and "lv root = Some 2 \<Longrightarrow> translate m1 root va = translate (phys st) root va"
    and "\<And>t' i'. t' \<in> dom lv \<Longrightarrow> i' < 512 \<Longrightarrow> ent m1 t' i' = (if t' = t \<and> i' = i then table_entry a else ent (phys st) t' i')"
    and "\<And>k. k < 512 \<Longrightarrow> ent m1 a k = split_entry (ent (phys st) t i) k" and "phys_addr (table_entry a) = a"
proof -
  let ?e = "ent (phys st) t i"
  let ?f = "fill_table a (split_entry ?e) (phys st1)"
  note o = pt_okD(2) [OF ok]
  have n: "a \<notin> dom lv \<union> D" "owned st1 (insert a (dom lv \<union> D))" using fr.alloc_some [OF o al] by simp_all
  have ad: "4096 dvd d \<and> d < 2 ^ 56" if "d \<in> insert a (dom lv \<union> D)" for d by (rule fr.owns_page [OF n(2) that])
  have td: "t \<in> dom lv" and au: "lv a = None" using t n(1) by auto
  have "owned (st1\<lparr>phys := ?f\<rparr>) (insert a (dom lv \<union> D))"
    by (rule fr.owns_upd [OF n(2)]) (metis fill_table_other insertI1 not_le)
  then have ow: "owned (st1\<lparr>phys := m1\<rparr>) (insert a (dom lv \<union> D))"
    using fr.owns_set_ent [of "st1\<lparr>phys := ?f\<rparr>" "insert a (dom lv \<union> D)" t i "table_entry a"] td i by (simp add: m1_def)
  have sf: "same_pages (dom lv \<union> D) (phys st) ?f"
    using fr.alloc_keeps [OF o al] by (rule same_pages_trans) (use ad n(1) in \<open>auto intro!: same_pages_fill\<close>)
  have e: "ent ?f t' i' = ent (phys st) t' i'" if "t' \<in> dom lv" "i' < 512" for t' i'
    using same_pages_ent [OF sf _ that(2)] that(1) by simp
  have fa: "ent ?f a k = split_entry ?e k" if "k < 512" for k using ad that by (simp add: ent_fill_table)
  have s: "pt_shape ?f lv" by (rule shape_agree [OF pt_okD(1) [OF ok] e])
  show pa: "phys_addr (table_entry a) = a" using ad by (intro phys_addr_table_entry) auto
  have lf: "is_leaf (split_entry ?e k)" for k
    using e1(1) by (simp only: split_entry_fields) (auto simp: flag_bits leaf_bits)
  have "pt_shape m1 (lv(a := Some 0))" unfolding m1_def
    by (rule shape_link [OF s _ i au _ _ pa]) (use t ad fa lf leaf_not_branch(1) in auto)
  with ow n(1) pt_okD(3) [OF ok] show "pt_ok (st1\<lparr>phys := m1\<rparr>) (lv(a := Some 0)) D"
    unfolding pt_ok_def by (auto simp: insert_commute)
  have "same_pages D ?f m1" unfolding m1_def using ad td i pt_okD(3) [OF ok] by (intro same_pages_set_ent) auto
  then show "same_pages D (phys st) m1" by (rule same_pages_trans [rotated]) (rule same_pages_mono [OF sf], simp)
  show "lv \<subseteq>\<^sub>m lv(a := Some 0)" using au by (auto simp: map_le_def)
  show "ent m1 t' i' = (if t' = t \<and> i' = i then table_entry a else ent (phys st) t' i')" if "t' \<in> dom lv" "i' < 512" for t' i'
    using e [OF that] ad td i that by (auto simp: m1_def ent_set_ent)
  show "ent m1 a k = split_entry ?e k" if "k < 512" for k
    using fa [OF that] ad [of a] ad [of t] td n(1) i that by (auto simp: m1_def ent_set_ent)
  show "translate m1 root va = translate (phys st) root va" if r: "lv root = Some 2"
  proof (cases "path ?f root 2 va 1 = Some t \<and> vpn 1 va = i")
    case True
    have w: "hwalk ?f root 2 va = Some (?e, 1)"
      using hwalk_path [of 1 2 ?f root va t] True e [OF td i] e1(1) by simp
    have "hwalk m1 root 2 va = Some (split_entry ?e (vpn 0 va), 0)"
      unfolding m1_def using hwalk_link_table [OF s t i au _ _ r, of va] True ad fa lf by simp
    then show ?thesis
      using w hwalk_agree [OF pt_okD(1) [OF ok] e r, of va] access_split [OF e1(2), of va] by (simp add: translate_def hw_walk_def)
  next
    case False
    then have "hwalk m1 root 2 va = hwalk ?f root 2 va"
      unfolding m1_def using hwalk_link_table [OF s t i au _ _ r, of va] ad by auto
    then show ?thesis
      using hwalk_agree [OF pt_okD(1) [OF ok] e r, of va] by (simp add: translate_def hw_walk_def)
  qed
qed

section \<open>A new address space\<close>

lemma init_root_pt_ok:
  assumes ok: "pt_ok st lv D" and i: "init_root_pt hart st = Some (root, st')"
  shows "pt_ok st' (lv(root := Some 2)) D" and "lv root = None" and "same_trans lv (phys st) (phys st')"
    and "same_pages D (phys st) (phys st')" and "hw_walk (phys st') root va = None"
proof -
  obtain st1 where al: "alloc_page hart st = Some (Some root, st1)" and st': "st' = st1\<lparr>phys := zero_page root (phys st1)\<rparr>"
    using i by (auto simp: init_root_pt_def split: option.splits prod.splits)
  have n: "root \<notin> dom lv \<union> D" "4096 dvd root" "owned st' (insert root (dom lv \<union> D))" "same_pages (dom lv \<union> D) (phys st) (phys st')"
    using fr.new_table [OF pt_okD(2) [OF ok] al] by (simp_all add: st')
  have e: "ent (phys st') t i = ent (phys st) t i" if "t \<in> dom lv" "i < 512" for t i
    using same_pages_ent [OF n(4) _ that(2)] that(1) by simp
  have z: "ent (phys st') root j = 0" if "j < 512" for j using that by (simp add: st' ent_zero_page)
  have s: "pt_shape (phys st') lv" by (rule shape_agree [OF pt_okD(1) [OF ok] e])
  show r: "lv root = None" using n(1) by auto
  have old: "lv t = Some l \<and> t \<noteq> root" if "(lv(root := Some 2)) t = Some l" "j < 512" "is_branch (ent (phys st') t j)" for t l j
    using that z by (auto split: if_splits)
  have "pt_shape (phys st') (lv(root := Some 2))"
    unfolding pt_shape_def
  proof (intro conjI allI impI)
    show "4096 dvd t" if "(lv(root := Some 2)) t = Some l" for t l
      using that n(2) pt_shapeD(1) [OF s] by (auto split: if_splits)
    show "(lv(root := Some 2)) (phys_addr (ent (phys st') t j)) = Some l"
      if h: "(lv(root := Some 2)) t = Some (Suc l)" "j < 512" "is_branch (ent (phys st') t j)" for t l j
      using pt_shapeD(2) [OF s _ h(2,3)] old [OF h] r by auto
    fix t t' l l' j j'
    assume h: "(lv(root := Some 2)) t = Some (Suc l)" "(lv(root := Some 2)) t' = Some (Suc l')" "j < 512" "j' < 512"
      "is_branch (ent (phys st') t j)" "is_branch (ent (phys st') t' j')"
      "phys_addr (ent (phys st') t j) = phys_addr (ent (phys st') t' j')"
    have "t = t' \<and> j = j'"
      using pt_shapeD(3) [OF s _ _ h(3-7)] old [OF h(1,3,5)] old [OF h(2,4,6)] by blast
    then show "t = t'" "j = j'" by auto
  qed
  then show "pt_ok st' (lv(root := Some 2)) D" using n(1,3) pt_okD(3) [OF ok] unfolding pt_ok_def by auto
  show "same_trans lv (phys st) (phys st')"
    using hwalk_agree [OF pt_okD(1) [OF ok] e] by (simp add: same_trans_def)
  show "same_pages D (phys st) (phys st')" by (rule same_pages_mono [OF n(4)]) simp
  show "hw_walk (phys st') root va = None" unfolding hw_walk_def by (rule hwalk_empty) (simp add: z)
qed

section \<open>A small address space\<close>

text \<open>Four pages of memory at address 4096, the first \<open>k\<close> of them handed out, with memory \<open>m\<close>.\<close>

definition demo_lists :: "usize \<Rightarrow> usize option list" where
  "demo_lists k = (if k = 1 then [Some 1, Some 2] else if k = 2 then [None, Some 2] else [Some 3, None]) @ replicate 11 None"

definition demo_at :: "usize \<Rightarrow> pmem \<Rightarrow> PageState" where
  "demo_at k m = \<lparr>inner = \<lparr>free_lists = demo_lists k, base = 4096, bend = 20480, total_pages = 4, allocated_pages = k\<rparr>,
     phys = m, cpu_caches = cpu_caches demo, cache_hits = 0, cache_misses = of_nat k\<rparr>"

definition demo_lv :: "usize \<Rightarrow> nat option" where
  "demo_lv = [4096 \<mapsto> 2]"

lemmas demo_eval = alloc_page_def alloc_page_fast_def alloc_pages_def alloc_loop.simps split.simps pop_free_def push_free_def
  set_node_next_def node_next_def demo_at_def demo_lists_def demo_def init_pages_def demo_init MAX_ORDER_def MAX_CPU_HARTS_def
  CPU_CACHE_SIZE_def PAGE_SIZE_def Let_def

lemma demo_alloc0: "alloc_page 0 demo = Some (Some 4096, demo_at 1 ((\<lambda>_. 0)(4096 := 2)))"
proof -
  have "replicate 11 (None :: usize option) = [None, None, None, None, None, None, None, None, None, None, None]"
    by (simp add: numeral_eq_Suc)
  then show ?thesis by (simp add: demo_eval) (simp add: fun_eq_iff)
qed

lemma demo_alloc1: "m 8192 = 0 \<Longrightarrow> alloc_page 0 (demo_at 1 m) = Some (Some 8192, demo_at 2 m)"
  by (simp add: demo_eval)

lemma demo_alloc2: "m 12288 = 0 \<Longrightarrow> alloc_page 0 (demo_at 2 m) = Some (Some 12288, demo_at 3 (m(16384 := 0)))"
  by (simp add: demo_eval)

abbreviation demo_pt :: PageState where
  "demo_pt \<equiv> demo_at 1 (\<lambda>_. 0)"

lemma demo_root: "init_root_pt 0 demo = Some (4096, demo_pt)"
  by (simp add: init_root_pt_def demo_alloc0) (simp add: demo_at_def zero_page_def fun_eq_iff PAGE_SIZE_def)

lemma demo_owned: "owned demo {}"
proof -
  obtain L where "page_inv_for demo {} L []" using page_inv_boot [of 4096 20480 "\<lambda>_. 0"] by (auto simp: demo_def)
  moreover have "base (inner demo) = 4096" "total_pages (inner demo) = 4" by (simp_all add: demo_def init_pages_def demo_init)
  ultimately show ?thesis unfolding owned_def by auto
qed

lemma demo_pt_ok: "pt_ok demo_pt demo_lv {}"
proof -
  have "pt_ok demo Map.empty {}" using demo_owned by (simp add: pt_ok_def pt_shape_def)
  from init_root_pt_ok(1) [OF this demo_root] show ?thesis by (simp add: demo_lv_def)
qed

text \<open>The same with a 2 MB page at address 0, over physical address 0x200000.\<close>

definition demo_l1_mem :: pmem where
  "demo_l1_mem = set_ent 4096 0 (table_entry 8192) (\<lambda>_. 0)"

definition demo_2m_mem :: pmem where
  "demo_2m_mem = set_ent 8192 0 (leaf_entry 0x200000 True True False True) demo_l1_mem"

definition demo_2m :: VmState where
  "demo_2m = \<lparr>pages = demo_at 2 demo_2m_mem, thp_promotions = 0, thp_splits = 0\<rparr>"

definition demo_2m_lv :: "usize \<Rightarrow> nat option" where
  "demo_2m_lv = [4096 \<mapsto> 2, 8192 \<mapsto> 1]"

lemma demo_phys [simp]: "phys (demo_at k m) = m" "(demo_at k m)\<lparr>phys := m'\<rparr> = demo_at k m'"
  by (simp_all add: demo_at_def)

lemma demo_2m_ok: "pt_ok (pages demo_2m) demo_2m_lv {}"
proof -
  have z: "zero_page 8192 (\<lambda>_. 0) = (\<lambda>_. 0)" by (simp add: zero_page_def)
  have "pt_ok (demo_at 2 demo_l1_mem) demo_2m_lv {}"
    using pt_ok_new_table(1) [OF demo_pt_ok demo_alloc1, of 4096 1 0]
    by (simp add: demo_lv_def demo_2m_lv_def z demo_l1_mem_def ent_def numeral_2_eq_2)
  then have s: "pt_shape demo_l1_mem demo_2m_lv" "owned (demo_at 2 demo_l1_mem) (dom demo_2m_lv \<union> {})"
    by (auto simp: pt_ok_def)
  have "pt_shape demo_2m_mem demo_2m_lv" unfolding demo_2m_mem_def
    by (rule shape_write [OF s(1)]) (auto simp: demo_2m_lv_def)
  moreover have "owned (demo_at 2 demo_2m_mem) (dom demo_2m_lv \<union> {})"
    using fr.owns_set_ent [OF s(2), of 8192 0] by (simp add: demo_2m_mem_def demo_2m_lv_def)
  ultimately show ?thesis by (simp add: pt_ok_def demo_2m_def)
qed

lemma demo_2m_walk: "hw_walk demo_2m_mem 4096 0 = Some (leaf_entry 0x200000 True True False True, 1)"
proof -
  have "phys_addr (table_entry 8192) = 8192" by (rule phys_addr_table_entry) simp_all
  then show ?thesis
    by (simp add: hw_walk_levels Let_def demo_2m_mem_def demo_l1_mem_def ent_def set_ent_def vpn_def)
qed

lemma demo_map: "\<exists>st'. map_page 0 4096 0x1000 0x80000000 True True False True demo_pt = Some (Inr (), st')"
proof -
  have z: "zero_page 8192 (\<lambda>_. 0) = (\<lambda>_. 0)" by (simp add: zero_page_def)
  have p: "phys_addr (table_entry 8192) = 8192" by (rule phys_addr_table_entry) simp_all
  have v: "vpn 2 0x1000 = 0" "vpn (Suc 0) 0x1000 = 0" by (simp_all add: vpn_def)
  have w1: "walk_level 0 True 4096 0 demo_pt = Some (Some 8192, demo_at 2 demo_l1_mem)"
    by (simp add: walk_level_def ent_def demo_alloc1 [simplified] z demo_l1_mem_def)
  have "\<exists>st. walk_level 0 True 8192 0 (demo_at 2 demo_l1_mem) = Some (Some 12288, st)"
    by (simp add: walk_level_def ent_def demo_l1_mem_def set_ent_def demo_alloc2)
  then show ?thesis using w1 v by (auto simp: map_page_def walk_process_pt_def vpn_levels)
qed

section \<open>The properties\<close>

text \<open>
  C29. Mapping a page refines the update of one address space's translation. In every state
  whose tables are well formed, \<open>map_page\<close> returns; on success the MMU translates exactly the
  addresses of that page to the new entry, and every other address of that space and every
  address of every other space translates as before; on failure no translation changes at
  all. The tables stay well formed, no data page is written, and the call fails only when a
  superpage covers the address or the buddy allocator is exhausted.
\<close>

theorem map_page_refines:
  assumes "pt_ok st lv D" and "lv root = Some 2" and "r \<or> w \<or> x"
  shows "\<exists>res st' lv'. map_page hart root va pa r w x u st = Some (res, st') \<and>
    pt_ok st' lv' D \<and> lv \<subseteq>\<^sub>m lv' \<and> same_pages D (phys st) (phys st') \<and>
    (\<forall>root' va'. lv root' = Some 2 \<longrightarrow> hw_walk (phys st') root' va' =
       (if res = Inr () \<and> root' = root \<and> same_page va va' then Some (leaf_entry pa r w x u, 0)
        else hw_walk (phys st) root' va')) \<and>
    (res = Inr () \<or> (\<exists>e l. hw_walk (phys st) root va = Some (e, Suc l)) \<or> free_frames st' = {})"
  by (rule map_page_spec [OF assms])

text \<open>
  C30. Round trip: after a successful mapping of an unmapped page into the table of a process,
  for every address of the page the MMU reaches the new entry and \<open>virt_to_phys_in_pt\<close>, the
  kernel's translation through a process table, gives the mapped frame with the offset of the
  address; unmapping returns the frame, and afterwards every address space translates as
  before the mapping.
\<close>

theorem map_unmap_roundtrip:
  assumes ok: "pt_ok st lv D" and root: "lv root = Some 2" and rwx: "r \<or> w \<or> x" and pa: "pa < 2 ^ 56" "4096 dvd pa"
    and free: "\<forall>va'. same_page va va' \<longrightarrow> hw_walk (phys st) root va' = None"
    and m: "map_page hart root va pa r w x u st = Some (Inr (), st')"
  shows "(\<forall>va'. same_page va va' \<longrightarrow> hw_walk (phys st') root va' = Some (leaf_entry pa r w x u, 0) \<and>
       virt_to_phys_in_pt hart root va' st' = Some (pa + va' mod 4096)) \<and>
    (\<exists>m''. unmap_user_page_phys root va (phys st') = (Some pa, m'') \<and>
       (\<forall>root' va'. lv root' = Some 2 \<longrightarrow> hw_walk m'' root' va' = hw_walk (phys st) root' va'))"
proof -
  from map_page_spec [OF ok root rwx, of hart va pa u] m obtain lv' where
    ok': "pt_ok st' lv' D" "lv \<subseteq>\<^sub>m lv'" and
    w: "\<And>root' va'. lv root' = Some 2 \<Longrightarrow> hw_walk (phys st') root' va' =
       (if root' = root \<and> same_page va va' then Some (leaf_entry pa r w x u, 0) else hw_walk (phys st) root' va')"
    by auto
  have lv': "lv' t = Some 2" if "lv t = Some 2" for t using ok'(2) that by (auto simp: map_le_def dom_def)
  have p: "phys_addr (leaf_entry pa r w x u) = pa" using pa by (simp add: phys_addr_leaf_entry [OF pa(1)] dvd_div_mult_self)
  have "hw_walk (phys st') root va' = Some (leaf_entry pa r w x u, 0) \<and>
      virt_to_phys_in_pt hart root va' st' = Some (pa + va' mod 4096)" if "same_page va va'" for va'
    using w [OF root, of va'] that p virt_to_phys_in_pt_leaf [of st' root va'] by simp
  moreover have self: "hw_walk (phys st') root va = Some (leaf_entry pa r w x u, 0)"
    using w [OF root, of va] by (simp add: same_page_def)
  ultimately show ?thesis
    using unmap_spec [OF ok'(1) lv' [OF root], of va] w lv' free p by (auto simp: self)
qed

text \<open>
  C31. Splitting a 2 MB page is invisible: whenever the MMU reaches an aligned superpage,
  \<open>split_large_page\<close> returns, keeps the tables well formed and the data pages intact, and
  every address of every address space keeps its physical address and its access rights,
  copy-on-write and shared marks; on success the address is then mapped by a 4 KB page, and
  the only failure is an exhausted allocator.
\<close>

theorem split_large_page_transparent:
  assumes ok: "pt_ok (pages v) lv D" and root: "lv root = Some 2"
    and w: "hw_walk (mem_of v) root va = Some (e, 1)" and al: "2 ^ 21 dvd phys_addr e"
  shows "\<exists>res v' lv'. split_large_page hart root va v = Some (res, v') \<and>
    pt_ok (pages v') lv' D \<and> lv \<subseteq>\<^sub>m lv' \<and> same_pages D (mem_of v) (mem_of v') \<and>
    (\<forall>root' va'. lv root' = Some 2 \<longrightarrow> translate (mem_of v') root' va' = translate (mem_of v) root' va') \<and>
    (if res = Inr () then (\<exists>e'. hw_walk (mem_of v') root va = Some (e', 0)) else free_frames (pages v') = {})"
proof -
  let ?m = "mem_of v" and ?t = "phys_addr (ent (mem_of v) root (vpn 2 va))"
  have b: "is_branch (ent ?m root (vpn 2 va))" "is_leaf (ent ?m ?t (vpn 1 va))" "ent ?m ?t (vpn 1 va) = e"
    using w by (auto simp: hw_walk_levels Let_def split: if_splits)
  have t: "lv ?t = Some 1" using pt_shapeD(2) [OF pt_okD(1) [OF ok], of root 1] root b(1) by (simp add: numeral_2_eq_2)
  obtain q st1 where a: "alloc_page hart (pages v) = Some (q, st1)" using fr.alloc_returns [OF pt_okD(2) [OF ok], of hart] by auto
  have nl: "\<not> is_leaf (ent ?m root (vpn 2 va))" "is_valid (ent ?m root (vpn 2 va))" using leaf_not_branch(3) [OF b(1)] by simp_all
  show ?thesis
  proof (cases q)
    case None
    with a have a: "alloc_page hart (pages v) = Some (None, st1)" by simp
    note k = fr.alloc_keeps [OF pt_okD(2) [OF ok] a] and n = fr.alloc_none [OF pt_okD(2) [OF ok] a]
    have "translate (phys st1) root' va' = translate ?m root' va'" if "lv root' = Some 2" for root' va'
      using hw_walk_same [OF pt_ok_same(2) [OF ok _ k] that] n by (simp add: translate_def)
    then show ?thesis
      using a nl b n pt_ok_same(1) [OF ok _ k] same_pages_mono [OF k]
      by (intro exI [of _ "Inl ''split: OOM allocating L0 page''"] exI [of _ "v\<lparr>pages := st1\<rparr>"] exI [of _ lv])
        (auto simp: split_large_page_def Let_def vpn_levels)
  next
    case (Some u)
    with a have a: "alloc_page hart (pages v) = Some (Some u, st1)" by simp
    note n = split_new_table [OF ok a t vpn_less b(2) al [folded b(3)]]
    define m1 where "m1 = set_ent ?t (vpn 1 va) (table_entry u) (fill_table u (split_entry (ent ?m ?t (vpn 1 va))) (phys st1))"
    have d: "root \<in> dom lv" "?t \<in> dom lv" "root \<noteq> ?t" using root t by auto
    have "ent m1 root (vpn 2 va) = ent ?m root (vpn 2 va)" "ent m1 ?t (vpn 1 va) = table_entry u"
      "ent m1 u (vpn 0 va) = split_entry e (vpn 0 va)"
      using n(5) [OF d(1), of "vpn 2 va"] n(5) [OF d(2), of "vpn 1 va"] n(6) d(3) b(3) by (simp_all add: m1_def)
    moreover have "is_leaf (split_entry e (vpn 0 va))" using b(2,3) by (simp only: split_entry_fields) (auto simp: pte_bits)
    ultimately have "hw_walk m1 root va = Some (split_entry e (vpn 0 va), 0)"
      using b(1) nl n(7) by (simp add: hw_walk_levels Let_def)
    moreover have "split_large_page hart root va v =
        Some (Inr (), v\<lparr>pages := st1\<lparr>phys := m1\<rparr>, thp_splits := thp_splits v + 1\<rparr>)"
      using a nl b(2) by (simp add: split_large_page_def Let_def vpn_levels m1_def)
    ultimately show ?thesis
      using n(1-4) [folded m1_def]
      by (intro exI [of _ "Inr ()"] exI [of _ "v\<lparr>pages := st1\<lparr>phys := m1\<rparr>, thp_splits := thp_splits v + 1\<rparr>"]
          exI [of _ "lv(u := Some 0)"]) auto
  qed
qed

text \<open>
  C32. \<open>force_wxorx\<close> enforces write-xor-execute on user pages and does nothing else: below an
  address of the user half the MMU finds the same leaf at the same level, with the execute
  bit (and the accessed and dirty bits) cleared exactly when it was a writable and executable
  user page, so that no 4 KB or 2 MB user page of the user half is left writable and executable.
\<close>

theorem force_wxorx_user:
  assumes "vpn 2 va < 256" and "\<not> is_leaf (ent m root (vpn 2 va))"
  shows "hw_walk (snd (force_wxorx root m)) root va = map_option (\<lambda>(e, l). (strip_x e, l)) (hw_walk m root va) \<and>
    (\<forall>e l. hw_walk (snd (force_wxorx root m)) root va = Some (e, l) \<longrightarrow>
       \<not> (is_user e \<and> is_writable e \<and> is_executable e))"
proof -
  have "\<not> (is_user (strip_x e) \<and> is_writable (strip_x e) \<and> is_executable (strip_x e))" if "is_leaf e" for e
    using leaf_not_branch(4) [OF that] by (auto simp: strip_x_def pte_bits)
  then show ?thesis
    using force_wxorx_walk [OF assms] by (auto simp: hw_walk_levels [of m] Let_def split: if_splits)
qed

text \<open>
  C33. \<open>verify_wxorx\<close> is exact: it accepts a table if and only if no address of the user half is
  translated by a 4 KB or 2 MB page that is both writable and executable.
\<close>

theorem verify_wxorx_exact:
  "verify_wxorx root m = Inr () \<longleftrightarrow>
   \<not> (\<exists>va e l. vpn 2 va < 256 \<and> hw_walk m root va = Some (e, l) \<and> l < 2 \<and> is_writable e \<and> is_executable e)"
  unfolding verify_wxorx_iff by blast

text \<open>
  C34. The check of a user buffer covers every byte: for a range that does not run past the end of the
  address space, \<open>is_user_range_valid\<close> holds if and only if every byte of it passes the check
  of a single address; and a byte that passes is never one of a superpage, and is translated by a
  4 KB user page whenever its entry grants any access.
\<close>

theorem user_range_bytes:
  assumes "va + len \<le> 2 ^ 64"
  shows "(is_user_range_valid root va len m \<longleftrightarrow> (\<forall>a. va \<le> a \<and> a < va + len \<longrightarrow> is_user_addr_valid root a m)) \<and>
    (\<forall>a. is_user_addr_valid root a m \<longrightarrow>
      (case hw_walk m root a of Some (e, l) \<Rightarrow> l = 0 \<and> is_user e
       | None \<Rightarrow> \<exists>t i. lookup_pt m root a = Some (t, i) \<and> is_branch (ent m t i)))"
proof (intro conjI allI impI)
  fix a assume "is_user_addr_valid root a m"
  then obtain t i where t: "lookup_pt m root a = Some (t, i)" "is_valid (ent m t i)" "is_user (ent m t i)"
    by (auto simp: is_user_addr_valid_def split: option.splits)
  then show "case hw_walk m root a of Some (e, l) \<Rightarrow> l = 0 \<and> is_user e
      | None \<Rightarrow> \<exists>t i. lookup_pt m root a = Some (t, i) \<and> is_branch (ent m t i)"
    by (cases "is_leaf (ent m t i)") (auto simp: hw_walk_lookup branch_iff)
qed (rule is_user_range_valid_bytes [OF assms])

section \<open>Witnesses\<close>

theorem map_page_refines_witness:
  "pt_ok demo_pt demo_lv {} \<and> demo_lv 4096 = Some 2 \<and>
   (\<exists>st' lv'. map_page 0 4096 0x1000 0x80000000 True True False True demo_pt = Some (Inr (), st') \<and>
      pt_ok st' lv' {} \<and> hw_walk (phys st') 4096 0x1234 = Some (leaf_entry 0x80000000 True True False True, 0))"
proof -
  have r: "demo_lv 4096 = Some 2" by (simp add: demo_lv_def)
  obtain st' where s: "map_page 0 4096 0x1000 0x80000000 True True False True demo_pt = Some (Inr (), st')"
    using demo_map by blast
  have "same_page 0x1000 0x1234" by (simp add: same_page_def vpn_def)
  moreover obtain res st1 lv' where
    "map_page 0 4096 0x1000 0x80000000 True True False True demo_pt = Some (res, st1)" "pt_ok st1 lv' {}"
    "hw_walk (phys st1) 4096 0x1234 = (if res = Inr () \<and> same_page 0x1000 0x1234
       then Some (leaf_entry 0x80000000 True True False True, 0) else hw_walk (phys demo_pt) 4096 0x1234)"
    using map_page_refines [OF demo_pt_ok r, where r = True and w = True and x = False and u = True and hart = 0
        and va = "0x1000" and pa = "0x80000000"] r by fastforce
  ultimately show ?thesis using s r demo_pt_ok by auto
qed

theorem map_unmap_roundtrip_witness:
  "\<exists>st'. map_page 0 4096 0x1000 0x80000000 True True False True demo_pt = Some (Inr (), st') \<and>
     virt_to_phys_in_pt 0 4096 0x1234 st' = Some 0x80000234 \<and>
     (\<exists>m''. unmap_user_page_phys 4096 0x1000 (phys st') = (Some 0x80000000, m''))"
proof -
  have r: "demo_lv 4096 = Some 2" by (simp add: demo_lv_def)
  have e: "\<forall>va'. same_page 0x1000 va' \<longrightarrow> hw_walk (phys demo_pt) 4096 va' = None" by (simp add: hw_walk_levels ent_def Let_def)
  obtain st' where s: "map_page 0 4096 0x1000 0x80000000 True True False True demo_pt = Some (Inr (), st')"
    using demo_map by blast
  have p: "same_page 0x1000 0x1234" by (simp add: same_page_def vpn_def)
  from map_unmap_roundtrip [OF demo_pt_ok r _ _ _ e s] p have "virt_to_phys_in_pt 0 4096 0x1234 st' = Some (0x80000000 + 0x1234 mod 4096)"
    "\<exists>m''. unmap_user_page_phys 4096 0x1000 (phys st') = (Some 0x80000000, m'')" by force+
  with s show ?thesis by simp
qed

theorem split_large_page_transparent_witness:
  "hw_walk (mem_of demo_2m) 4096 0 = Some (leaf_entry 0x200000 True True False True, 1) \<and>
   (\<exists>res v' lv'. split_large_page 0 4096 0 demo_2m = Some (res, v') \<and> pt_ok (pages v') lv' {} \<and>
      translate (mem_of v') 4096 0x3456 = translate (mem_of demo_2m) 4096 0x3456)"
proof -
  have r: "demo_2m_lv 4096 = Some 2" by (simp add: demo_2m_lv_def)
  have w: "hw_walk (mem_of demo_2m) 4096 0 = Some (leaf_entry 0x200000 True True False True, 1)"
    using demo_2m_walk by (simp add: demo_2m_def)
  have al: "2 ^ 21 dvd phys_addr (leaf_entry 0x200000 True True False True)"
    using phys_addr_leaf_entry [of "0x200000" True True False True] by simp
  from split_large_page_transparent [OF demo_2m_ok r w al, where hart = 0] r w show ?thesis by blast
qed

text \<open>A writable and executable superpage, and a 4 KB user page.\<close>

definition demo_wx_mem :: pmem where
  "demo_wx_mem = set_ent 8192 0 (leaf_entry 0x200000 True True True True) demo_l1_mem"

definition demo_4k_mem :: pmem where
  "demo_4k_mem = set_ent 12288 0 (leaf_entry 0x80000000 True True False True) (set_ent 8192 0 (table_entry 12288) demo_l1_mem)"

lemma table_addr_8192 [simp]: "phys_addr (table_entry 8192) = 8192" "phys_addr (table_entry 12288) = 12288"
  by (rule phys_addr_table_entry, simp_all)+

theorem force_wxorx_user_witness:
  "vpn 2 0 < 256 \<and> is_executable (leaf_entry 0x200000 True True True True) \<and>
   hw_walk demo_wx_mem 4096 0 = Some (leaf_entry 0x200000 True True True True, 1) \<and>
   (\<exists>e. hw_walk (snd (force_wxorx 4096 demo_wx_mem)) 4096 0 = Some (e, 1) \<and> is_writable e \<and> \<not> is_executable e)"
proof -
  have w: "hw_walk demo_wx_mem 4096 0 = Some (leaf_entry 0x200000 True True True True, 1)"
    by (simp add: hw_walk_levels Let_def demo_wx_mem_def demo_l1_mem_def ent_def set_ent_def vpn_def)
  have n: "\<not> is_leaf (ent demo_wx_mem 4096 (vpn 2 0))"
    by (simp add: demo_wx_mem_def demo_l1_mem_def ent_def set_ent_def vpn_def)
  have v: "vpn 2 0 < 256" by (simp add: vpn_def)
  let ?e = "strip_x (leaf_entry 0x200000 True True True True)"
  have "hw_walk (snd (force_wxorx 4096 demo_wx_mem)) 4096 0 = Some (?e, 1) \<and> \<not> (is_user ?e \<and> is_writable ?e \<and> is_executable ?e)"
    using force_wxorx_user [OF v n] w by simp
  then show ?thesis using w v by simp
qed

theorem user_range_bytes_witness:
  "is_user_range_valid 4096 100 200 demo_4k_mem \<and> is_user_addr_valid 4096 150 demo_4k_mem"
proof -
  have "lookup_pt demo_4k_mem 4096 0 = Some (12288, 0)" "ent demo_4k_mem 12288 0 = leaf_entry 0x80000000 True True False True"
    by (simp_all add: lookup_pt_def lookup_level_def Let_def vpn_levels vpn_def demo_4k_mem_def demo_l1_mem_def ent_def set_ent_def)
  then have "is_user_addr_valid 4096 0 demo_4k_mem" by (simp add: is_user_addr_valid_def)
  then have "is_user_range_valid 4096 100 200 demo_4k_mem"
    by (simp add: is_user_range_valid_def page_align_down_def usize_saturating_add_def PAGE_SIZE_def user_pages_step)
  moreover have "\<forall>a. 100 \<le> a \<and> a < 100 + 200 \<longrightarrow> is_user_addr_valid 4096 a demo_4k_mem"
    using user_range_bytes [of 100 200 4096 demo_4k_mem] calculation by simp
  ultimately show ?thesis by simp
qed

end
