(* ===== verification/Memory_Calls.thy ===== *)
theory Memory_Calls
  imports Address_Translation Scheduler
begin

unbundle bit_operations_syntax

text \<open>
  The memory system calls, kernel/src/syscall/memory.rs, with the seals of
  kernel/src/mem/mseal.rs, the CHERI pointer check of kernel/src/aslr/mod.rs, and the
  transactional page-table updates of kernel/src/mem/txmmu.rs. They run over the page tables
  of Page_Table, the page allocator and the current thread of the scheduler. A TLB flush has no
  effect on the model, whose translation always reads the tables.
\<close>

section \<open>Definitions\<close>

subsection \<open>Seals\<close>

record MemSeal =
  seal_pid :: u32
  seal_start :: usize
  seal_end :: usize

abbreviation MAX_SEALS :: usize where "MAX_SEALS \<equiv> 64"

text \<open>The table \<open>SEALS\<close> is the list of its first \<open>SEAL_COUNT\<close> entries.\<close>

definition mseal :: "u32 \<Rightarrow> usize \<Rightarrow> usize \<Rightarrow> MemSeal list \<Rightarrow> unit result \<times> MemSeal list" where
  "mseal pid start len seals =
     (if start AND 0xFFF \<noteq> 0 then (Inl ''mseal: unaligned address'', seals)
      else if len = 0 then (Inl ''mseal: zero length'', seals)
      else
        (let fin = usize_add start len in
         if fin < start then (Inl ''mseal: wrapped end'', seals)
         else if \<exists>s\<in>set seals. seal_pid s = pid \<and> seal_start s < fin \<and> seal_end s > start
           then (Inl ''mseal: range overlaps existing seal'', seals)
         else if length seals \<ge> MAX_SEALS then (Inl ''mseal: too many seals (max 64)'', seals)
         else (Inr (), seals @ [\<lparr>seal_pid = pid, seal_start = start, seal_end = fin\<rparr>])))"

text \<open>All three fields are compared, so the entry found is the first one equal to the record.\<close>

definition munseal :: "u32 \<Rightarrow> usize \<Rightarrow> usize \<Rightarrow> MemSeal list \<Rightarrow> unit result \<times> MemSeal list" where
  "munseal pid start len seals =
     (if start AND 0xFFF \<noteq> 0 then (Inl ''munseal: unaligned address'', seals)
      else if len = 0 then (Inl ''munseal: zero length'', seals)
      else
        (let s = \<lparr>seal_pid = pid, seal_start = start, seal_end = usize_add start len\<rparr> in
         if s \<in> set seals then (Inr (), remove1 s seals)
         else (Inl ''munseal: no matching seal found'', seals)))"

definition is_sealed :: "MemSeal list \<Rightarrow> u32 \<Rightarrow> usize \<Rightarrow> usize \<Rightarrow> bool" where
  "is_sealed seals pid addr len =
     (if len = 0 then False
      else
        (let fin = usize_saturating_add addr len in
         \<exists>s\<in>set seals. seal_pid s = pid \<and> seal_start s < fin \<and> seal_end s > addr))"

definition count_sealed :: "u32 \<Rightarrow> MemSeal list \<Rightarrow> usize" where
  "count_sealed pid seals =
     fold (\<lambda>s count. if seal_pid s = pid then usize_add count (usize_sub (seal_end s) (seal_start s) div 4096) else count)
       seals 0"

definition total_sealed_pages :: "MemSeal list \<Rightarrow> usize" where
  "total_sealed_pages seals =
     fold (\<lambda>s count. usize_add count (usize_sub (seal_end s) (seal_start s) div 4096)) seals 0"

subsection \<open>The CHERI pointer check\<close>

record CheriCap =
  cc_addr :: u64
  cc_base :: u64
  cc_bound :: u64
  cc_permissions :: u16
  cc_otype :: u16

definition cheri_covers :: "CheriCap \<Rightarrow> usize \<Rightarrow> usize \<Rightarrow> bool" where
  "cheri_covers c check_addr check_len =
     (let start = of_nat check_addr :: u64; fin = start + of_nat check_len in
      if fin < start then False else start \<ge> cc_base c \<and> fin \<le> cc_bound c)"

definition has_perm :: "CheriCap \<Rightarrow> u16 \<Rightarrow> bool" where
  "has_perm c perm \<longleftrightarrow> cc_permissions c AND perm = perm"

text \<open>A table per process: its pid and the slots, each with its valid bit.\<close>

type_synonym CheriTable = "u32 \<times> (bool \<times> CheriCap) list"

definition cheri_find :: "u32 \<Rightarrow> CheriTable list \<Rightarrow> CheriTable option" where
  "cheri_find pid tables = find (\<lambda>t. fst t = pid) tables"

definition validate_ptr :: "CheriTable list \<Rightarrow> u32 \<Rightarrow> usize \<Rightarrow> usize \<Rightarrow> u16 \<Rightarrow> bool" where
  "validate_ptr tables pid addr len required_perms =
     (case cheri_find pid tables of
        None \<Rightarrow> True
      | Some t \<Rightarrow> (\<exists>e\<in>set (snd t). fst e \<and> cheri_covers (snd e) addr len \<and> has_perm (snd e) required_perms))"

subsection \<open>The system calls\<close>

record MemSys =
  msched :: SchedState
  procs :: "(u32 \<times> usize) list"
  seals :: "MemSeal list"
  cheri :: "CheriTable list"
  brk_table :: "(u32 \<times> usize) list"
  mpages :: PageState

definition current_pid :: "MemSys \<Rightarrow> u32 result" where
  "current_pid s = (case current (msched s) of None \<Rightarrow> Inl ''no proc'' | Some t \<Rightarrow> Inr (owner (thr (msched s) t)))"

definition get_page_table_root :: "u32 \<Rightarrow> MemSys \<Rightarrow> usize option" where
  "get_page_table_root pid s = map_option snd (find (\<lambda>p. fst p = pid) (procs s))"

text \<open>
  The loops of \<open>sys_mmap\<close> and of a growing \<open>sys_brk\<close> over the page addresses: allocate a frame
  and map it readable and writable. The outer \<open>None\<close> is a panic of the allocator.
\<close>

fun map_fresh_pages :: "usize \<Rightarrow> usize \<Rightarrow> usize list \<Rightarrow> PageState \<Rightarrow> (unit result \<times> PageState) option" where
  "map_fresh_pages hart pt_root [] st = Some (Inr (), st)"
| "map_fresh_pages hart pt_root (va # vas) st =
     (case alloc_page hart st of
        None \<Rightarrow> None
      | Some (None, st1) \<Rightarrow> Some (Inl ''OOM'', st1)
      | Some (Some page, st1) \<Rightarrow>
          (case map_user_page hart pt_root va page True True st1 of
             None \<Rightarrow> None
           | Some (Inl e, st2) \<Rightarrow> Some (Inl e, st2)
           | Some (Inr _, st2) \<Rightarrow> map_fresh_pages hart pt_root vas st2))"

definition brk_find :: "u32 \<Rightarrow> (u32 \<times> usize) list \<Rightarrow> usize" where
  "brk_find pid tab = (case find (\<lambda>i. fst (tab ! i) = pid) [0..<length tab] of None \<Rightarrow> length tab | Some i \<Rightarrow> i)"

definition sys_brk :: "usize \<Rightarrow> usize \<Rightarrow> MemSys \<Rightarrow> (usize result \<times> MemSys) option" where
  "sys_brk hart addr s =
     (case current_pid s of
        Inl e \<Rightarrow> Some (Inl e, s)
      | Inr pid \<Rightarrow>
          (let entry_idx = brk_find pid (brk_table s) in
           if entry_idx = length (brk_table s) \<and> length (brk_table s) \<ge> 8 then Some (Inl ''too many brk entries'', s)
           else
             (let s1 = (if entry_idx = length (brk_table s) then s\<lparr>brk_table := brk_table s @ [(pid, 0x400000)]\<rparr> else s);
                  current_brk = snd (brk_table s1 ! entry_idx);
                  old_pages = usize_add current_brk 0xFFF div 4096;
                  new_pages = usize_add addr 0xFFF div 4096;
                  set_brk = (\<lambda>s2. s2\<lparr>brk_table := (brk_table s2)[entry_idx := (pid, addr)]\<rparr>)
              in
              if addr = 0 then Some (Inr current_brk, s1)
              else
                (case get_page_table_root pid s1 of
                   None \<Rightarrow> Some (Inl ''no proc pt'', s1)
                 | Some pt_root \<Rightarrow>
                     if addr > current_brk then
                       (case map_fresh_pages hart pt_root (map (\<lambda>i. i * 4096) [old_pages..<new_pages]) (mpages s1) of
                          None \<Rightarrow> None
                        | Some (Inl e, st) \<Rightarrow> Some (Inl e, s1\<lparr>mpages := st\<rparr>)
                        | Some (Inr _, st) \<Rightarrow> Some (Inr addr, set_brk (s1\<lparr>mpages := st\<rparr>)))
                     else if addr < current_brk then
                       Some (Inr addr, set_brk (s1\<lparr>mpages := (mpages s1)\<lparr>phys :=
                         fold (unmap_user_page pt_root) (map (\<lambda>i. i * 4096) [new_pages..<old_pages]) (phys (mpages s1))\<rparr>\<rparr>))
                     else Some (Inr addr, set_brk s1)))))"

text \<open>The page addresses of a range, as both loops compute them.\<close>

definition range_page_addrs :: "usize \<Rightarrow> usize \<Rightarrow> usize list" where
  "range_page_addrs va len = map (\<lambda>i. usize_add va (i * PAGE_SIZE))
     [0..<usize_sub (usize_add len PAGE_SIZE) 1 div 4096]"

definition sys_mmap :: "usize \<Rightarrow> usize \<Rightarrow> usize \<Rightarrow> MemSys \<Rightarrow> (usize result \<times> MemSys) option" where
  "sys_mmap hart addr len s =
     (case current_pid s of
        Inl e \<Rightarrow> Some (Inl e, s)
      | Inr pid \<Rightarrow>
          (case get_page_table_root pid s of
             None \<Rightarrow> Some (Inl ''no proc pt'', s)
           | Some pt_root \<Rightarrow>
               (let va = (if addr = 0 then 0x10000000 else addr) in
                if is_sealed (seals s) pid va len then Some (Inl ''mmap: range is sealed'', s)
                else if \<not> validate_ptr (cheri s) pid va len 3 then Some (Inl ''cheri: mmap range not authorized'', s)
                else
                  (case map_fresh_pages hart pt_root (range_page_addrs va len) (mpages s) of
                     None \<Rightarrow> None
                   | Some (Inl e, st) \<Rightarrow> Some (Inl e, s\<lparr>mpages := st\<rparr>)
                   | Some (Inr _, st) \<Rightarrow> Some (Inr va, s\<lparr>mpages := st\<rparr>)))))"

definition sys_munmap :: "usize \<Rightarrow> usize \<Rightarrow> MemSys \<Rightarrow> usize result \<times> MemSys" where
  "sys_munmap addr len s =
     (case current_pid s of
        Inl e \<Rightarrow> (Inl e, s)
      | Inr pid \<Rightarrow>
          if is_sealed (seals s) pid addr len then (Inl ''munmap: range is sealed'', s)
          else
            (case get_page_table_root pid s of
               None \<Rightarrow> (Inl ''no proc pt'', s)
             | Some pt_root \<Rightarrow>
                 (Inr 0, s\<lparr>mpages := (mpages s)\<lparr>phys :=
                    fold (unmap_user_page pt_root) (range_page_addrs addr len) (phys (mpages s))\<rparr>\<rparr>)))"

definition sys_mprotect :: "usize \<Rightarrow> usize \<Rightarrow> MemSys \<Rightarrow> usize result" where
  "sys_mprotect addr len s =
     (case current_pid s of
        Inl _ \<Rightarrow> Inr 0
      | Inr pid \<Rightarrow> if is_sealed (seals s) pid addr len then Inl ''mprotect: range is sealed'' else Inr 0)"

text \<open>The residency bytes are written through the address the caller gives.\<close>

definition sys_mincore :: "usize \<Rightarrow> usize \<Rightarrow> usize \<Rightarrow> MemSys \<Rightarrow> (usize \<Rightarrow> u8) \<Rightarrow> usize result \<times> (usize \<Rightarrow> u8)" where
  "sys_mincore addr len vec_ptr s b =
     (if vec_ptr = 0 then (Inl ''null vec'', b)
      else if len = 0 then (Inr 0, b)
      else
        (case current_pid s of
           Inl e \<Rightarrow> (Inl e, b)
         | Inr pid \<Rightarrow>
             (case get_page_table_root pid s of
                None \<Rightarrow> (Inl ''no pt'', b)
              | Some pt_root \<Rightarrow>
                  (Inr 0, fold (\<lambda>i b. b(usize_add vec_ptr i :=
                      is_user_page_present pt_root (usize_add addr (i * 4096)) (phys (mpages s))))
                    [0..<min (usize_add len 0xFFF div 4096) 4096] b))))"

definition sys_mseal :: "usize \<Rightarrow> usize \<Rightarrow> MemSys \<Rightarrow> usize result \<times> MemSys" where
  "sys_mseal addr len s =
     (case current_pid s of
        Inl e \<Rightarrow> (Inl e, s)
      | Inr pid \<Rightarrow>
          (case mseal pid addr len (seals s) of
             (Inl e, _) \<Rightarrow> (Inl e, s)
           | (Inr _, l) \<Rightarrow> (Inr 0, s\<lparr>seals := l\<rparr>)))"

subsection \<open>Transactional updates of a page table\<close>

abbreviation MAX_OPS :: usize where "MAX_OPS \<equiv> 16"

datatype TxOp = TxMap usize usize u8 | TxUnmap usize | TxProtect usize u8

record TxMMU =
  root_phys :: usize
  pending_ops :: "TxOp option list"
  op_count :: usize
  in_tx :: bool

definition tx_begin :: "usize \<Rightarrow> TxMMU" where
  "tx_begin root = \<lparr>root_phys = root, pending_ops = replicate MAX_OPS None, op_count = 0, in_tx = True\<rparr>"

definition tx_map :: "usize \<Rightarrow> usize \<Rightarrow> u8 \<Rightarrow> TxMMU \<Rightarrow> unit result \<times> TxMMU" where
  "tx_map va pa flags tx =
     (if \<not> in_tx tx then (Inl ''TxMMU: no transaction in progress'', tx)
      else if op_count tx \<ge> MAX_OPS then (Inl ''TxMMU: transaction operation buffer full'', tx)
      else (Inr (), tx\<lparr>pending_ops := (pending_ops tx)[op_count tx := Some (TxMap va pa flags)], op_count := op_count tx + 1\<rparr>))"

definition tx_unmap :: "usize \<Rightarrow> TxMMU \<Rightarrow> unit result \<times> TxMMU" where
  "tx_unmap va tx =
     (if \<not> in_tx tx then (Inl ''TxMMU: no transaction in progress'', tx)
      else if op_count tx \<ge> MAX_OPS then (Inl ''TxMMU: transaction operation buffer full'', tx)
      else (Inr (), tx\<lparr>pending_ops := (pending_ops tx)[op_count tx := Some (TxUnmap va)], op_count := op_count tx + 1\<rparr>))"

definition tx_protect :: "usize \<Rightarrow> u8 \<Rightarrow> TxMMU \<Rightarrow> unit result \<times> TxMMU" where
  "tx_protect va flags tx =
     (if \<not> in_tx tx then (Inl ''TxMMU: no transaction in progress'', tx)
      else if op_count tx \<ge> MAX_OPS then (Inl ''TxMMU: transaction operation buffer full'', tx)
      else (Inr (), tx\<lparr>pending_ops := (pending_ops tx)[op_count tx := Some (TxProtect va flags)], op_count := op_count tx + 1\<rparr>))"

definition commit_map :: "usize \<Rightarrow> usize \<Rightarrow> usize \<Rightarrow> usize \<Rightarrow> u8 \<Rightarrow> PageState \<Rightarrow> (unit result \<times> PageState) option" where
  "commit_map hart root va pa flags st =
     (case walk_process_pt hart root va True st of
        None \<Rightarrow> None
      | Some (None, st1) \<Rightarrow> Some (Inl ''TxMMU commit_map: page table walk failed'', st1)
      | Some (Some (l0_phys, idx), st1) \<Rightarrow>
          Some (Inr (), st1\<lparr>phys := set_ent l0_phys idx
            (leaf_entry pa (flags AND 1 \<noteq> 0) (flags AND 2 \<noteq> 0) (flags AND 4 \<noteq> 0) (flags AND 8 \<noteq> 0)) (phys st1)\<rparr>))"

definition commit_unmap :: "usize \<Rightarrow> usize \<Rightarrow> pmem \<Rightarrow> pmem" where
  "commit_unmap root va m =
     (case lookup_pt m root va of
        None \<Rightarrow> m
      | Some (l0_phys, idx) \<Rightarrow> set_ent l0_phys idx pte_empty m)"

definition commit_protect :: "usize \<Rightarrow> usize \<Rightarrow> u8 \<Rightarrow> pmem \<Rightarrow> pmem" where
  "commit_protect root va flags m =
     (case lookup_pt m root va of
        None \<Rightarrow> m
      | Some (l0_phys, idx) \<Rightarrow> set_ent l0_phys idx
          (set_flags (flags AND 1 \<noteq> 0) (flags AND 2 \<noteq> 0) (flags AND 4 \<noteq> 0) (flags AND 8 \<noteq> 0) (ent m l0_phys idx)) m)"

fun commit_ops :: "usize \<Rightarrow> usize \<Rightarrow> TxOp option list \<Rightarrow> PageState \<Rightarrow> (unit result \<times> PageState) option" where
  "commit_ops hart root [] st = Some (Inr (), st)"
| "commit_ops hart root (None # ops) st = commit_ops hart root ops st"
| "commit_ops hart root (Some (TxMap va pa flags) # ops) st =
     (case commit_map hart root va pa flags st of
        None \<Rightarrow> None
      | Some (Inl e, st1) \<Rightarrow> Some (Inl e, st1)
      | Some (Inr _, st1) \<Rightarrow> commit_ops hart root ops st1)"
| "commit_ops hart root (Some (TxUnmap va) # ops) st =
     commit_ops hart root ops (st\<lparr>phys := commit_unmap root va (phys st)\<rparr>)"
| "commit_ops hart root (Some (TxProtect va flags) # ops) st =
     commit_ops hart root ops (st\<lparr>phys := commit_protect root va flags (phys st)\<rparr>)"

definition tx_abort :: "TxMMU \<Rightarrow> TxMMU" where
  "tx_abort tx = tx\<lparr>op_count := 0, pending_ops := replicate MAX_OPS None, in_tx := False\<rparr>"

definition tx_commit :: "usize \<Rightarrow> TxMMU \<Rightarrow> PageState \<Rightarrow> (unit result \<times> TxMMU \<times> PageState) option" where
  "tx_commit hart tx st =
     (if \<not> in_tx tx then Some (Inl ''TxMMU: no transaction in progress'', tx, st)
      else
        (case commit_ops hart (root_phys tx) (take (op_count tx) (pending_ops tx)) st of
           None \<Rightarrow> None
         | Some (Inl e, st1) \<Rightarrow> Some (Inl e, tx, st1)
         | Some (Inr _, st1) \<Rightarrow>
             Some (Inr (), tx\<lparr>op_count := 0, pending_ops := replicate MAX_OPS None, in_tx := False\<rparr>, st1)))"

definition present_leaf :: "usize \<Rightarrow> usize \<Rightarrow> pmem \<Rightarrow> bool" where
  "present_leaf root va m =
     (case lookup_pt m root va of
        None \<Rightarrow> False
      | Some (l0_phys, idx) \<Rightarrow> is_valid (ent m l0_phys idx) \<and> is_leaf (ent m l0_phys idx))"

fun op_conflict :: "usize \<Rightarrow> pmem \<Rightarrow> TxOp option \<Rightarrow> bool" where
  "op_conflict root m (Some (TxMap va pa flags)) = present_leaf root va m"
| "op_conflict root m (Some (TxUnmap va)) = (\<not> present_leaf root va m)"
| "op_conflict root m (Some (TxProtect va flags)) = (\<not> present_leaf root va m)"
| "op_conflict root m None = False"

definition rollback_on_conflict :: "TxMMU \<Rightarrow> pmem \<Rightarrow> bool \<times> TxMMU" where
  "rollback_on_conflict tx m =
     (if \<not> in_tx tx then (False, tx)
      else if \<exists>op\<in>set (take (op_count tx) (pending_ops tx)). op_conflict (root_phys tx) m op
        then (True, tx_abort tx)
      else (False, tx))"

section \<open>Pages of a range\<close>

lemma and_0xFFF: "(a :: nat) AND 0xFFF = a mod 4096"
  using take_bit_eq_mask [of 12 a] by (simp add: take_bit_eq_mod mask_eq_exp_minus_1)

lemma vpn_frame: "vpn l va = va div 4096 div 2 ^ (9 * l) mod 512"
  by (simp add: vpn_def power_add div_mult2_eq)

lemma vpn_frames: "vpn 2 va = va div 4096 div 262144 mod 512" "vpn 1 va = va div 4096 div 512 mod 512"
  "vpn 0 va = va div 4096 mod 512"
  unfolding vpn_frame by simp_all

lemma page_digits:
  assumes "a < 2 ^ 39"
  shows "a div 4096 = (vpn 2 a * 512 + vpn 1 a) * 512 + vpn 0 a"
proof -
  define p where "p = a div 4096"
  have v: "vpn 2 a = p div 512 div 512 mod 512" "vpn 1 a = p div 512 mod 512" "vpn 0 a = p mod 512"
    by (simp_all add: vpn_frame p_def div_mult2_eq [symmetric])
  have "p div 512 div 512 < 512" using assms by (simp add: p_def less_mult_imp_div_less)
  then have "(vpn 2 a * 512 + vpn 1 a) * 512 + vpn 0 a = (p div 512 div 512 * 512 + p div 512 mod 512) * 512 + p mod 512"
    using v by simp
  also have "\<dots> = p" by (simp only: div_mult_mod_eq)
  finally show ?thesis by (simp add: p_def)
qed

lemma same_page_div:
  assumes "va < 2 ^ 39" and "va' < 2 ^ 39"
  shows "same_page va va' \<longleftrightarrow> va div 4096 = va' div 4096"
proof
  assume "same_page va va'"
  then have "vpn 2 va = vpn 2 va'" "vpn 1 va = vpn 1 va'" "vpn 0 va = vpn 0 va'" unfolding same_page_def by blast+
  then show "va div 4096 = va' div 4096" by (simp only: page_digits [OF assms(1)] page_digits [OF assms(2)])
next
  assume e: "va div 4096 = va' div 4096"
  show "same_page va va'" unfolding same_page_def vpn_frame e by blast
qed

lemma same_page_sym: "same_page a b \<longleftrightarrow> same_page b a"
  by (auto simp: same_page_def)

lemma same_page_refl [simp]: "same_page a a"
  by (simp add: same_page_def)

lemma same_page_trans: "same_page a b \<Longrightarrow> same_page b c \<Longrightarrow> same_page a c"
  by (simp add: same_page_def)

lemma same_page_alias: "same_page (va + 2 ^ 39) va"
proof -
  have "(p + 512 * 262144) div 262144 = 512 + p div 262144" for p :: nat by (rule div_mult_self1) simp
  then have "(p + 134217728) div 262144 mod 512 = p div 262144 mod 512" for p :: nat by simp
  moreover have "(p + 134217728) div 512 mod 512 = p div 512 mod 512" for p :: nat
    using div_mult_self1 [of 512 p "262144 :: nat"] mod_mult_self1 [of "p div 512" 512 "512 :: nat"]
    by (simp add: add.commute)
  moreover have "(p + 134217728) mod 512 = p mod 512" for p :: nat using mod_mult_self1 [of p 262144 "512 :: nat"] by simp
  moreover have "(va + 2 ^ 39) div 4096 = va div 4096 + 134217728" by simp
  ultimately show ?thesis by (simp only: same_page_def vpn_frames)
qed

lemma range_page_addrs_bounds:
  assumes "q \<in> set (range_page_addrs va len)" and "va + len \<le> 2 ^ 39" and "4096 dvd va"
  shows "va \<le> q \<and> q < va + len \<and> 4096 dvd q"
proof -
  have p: "usize_sub (usize_add len PAGE_SIZE) 1 = len + 4095"
    using assms(2) by (simp add: usize_add_small usize_sub_small PAGE_SIZE_def)
  from assms(1) obtain i where i: "i < (len + 4095) div 4096" "q = usize_add va (i * 4096)"
    unfolding range_page_addrs_def p by (auto simp: PAGE_SIZE_def)
  then have l: "i * 4096 < len" using less_eq_div_iff_mult_less_eq [of 4096 "Suc i" "len + 4095"] by simp
  then have "q = va + i * 4096" using i(2) assms(2) by (simp add: usize_add_small)
  with l assms(3) show ?thesis by simp
qed

text \<open>A range that does not meet a seal shares no page with it, when both start on a page.\<close>

lemma unsealed_apart:
  assumes n: "\<not> is_sealed l pid va len" and s: "sl \<in> set l" "seal_pid sl = pid" "4096 dvd seal_start sl" "seal_end sl \<le> 2 ^ 39"
    and r: "va + len \<le> 2 ^ 39" "4096 dvd va" and q: "q \<in> set (range_page_addrs va len)"
    and x: "seal_start sl \<le> x" "x < seal_end sl"
  shows "\<not> same_page q x"
proof
  assume "same_page q x"
  have b: "va \<le> q" "q < va + len" "4096 dvd q" using range_page_addrs_bounds [OF q r] by simp_all
  have d: "q div 4096 = x div 4096" using \<open>same_page q x\<close> b(2) r(1) x(2) s(4) by (simp add: same_page_div)
  then have qx: "q \<le> x" "x < q + 4096" using b(3) by auto
  have "seal_end sl \<le> va \<or> va + len \<le> seal_start sl"
    using n s(1,2) b r(1) by (auto simp: is_sealed_def usize_saturating_add_def Let_def split: if_splits)
  then show False
  proof
    assume "seal_end sl \<le> va"
    with b(1) qx x(2) show False by simp
  next
    assume "va + len \<le> seal_start sl"
    with b have "q < seal_start sl" by simp
    with b(3) s(3) have "q + 4096 \<le> seal_start sl" by (auto elim!: dvdE)
    with qx(2) x(1) show False by simp
  qed
qed

section \<open>Steps of an address space\<close>

text \<open>
  A step that changes the translation at most for the spaces and addresses in \<open>A\<close>, keeps the
  tables well formed, writes no data page, and may take new tables and data pages.
\<close>

definition space_step ::
  "(usize \<Rightarrow> nat option) \<Rightarrow> usize set \<Rightarrow> PageState \<Rightarrow> (usize \<times> usize) set \<Rightarrow> PageState \<Rightarrow> bool" where
  "space_step lv D st A st' \<longleftrightarrow>
     (\<exists>lv' D'. pt_ok st' lv' D' \<and> lv \<subseteq>\<^sub>m lv' \<and> D \<subseteq> D' \<and> same_pages D (phys st) (phys st') \<and>
        (\<forall>root' va'. lv root' = Some 2 \<longrightarrow> (root', va') \<notin> A \<longrightarrow>
           hw_walk (phys st') root' va' = hw_walk (phys st) root' va'))"

lemma space_step_refl: "pt_ok st lv D \<Longrightarrow> space_step lv D st A st"
  unfolding space_step_def by (intro exI [of _ lv] exI [of _ D]) simp

lemma space_step_mono: "space_step lv D st B st' \<Longrightarrow> B \<subseteq> A \<Longrightarrow> space_step lv D st A st'"
  unfolding space_step_def by blast

lemma level_le: "lv \<subseteq>\<^sub>m lv' \<Longrightarrow> lv t = Some l \<Longrightarrow> lv' t = Some l"
  by (auto simp: map_le_def dom_def)

lemma space_step_trans:
  assumes a: "space_step lv D st A st1"
    and b: "\<And>lv1 D1. pt_ok st1 lv1 D1 \<Longrightarrow> lv \<subseteq>\<^sub>m lv1 \<Longrightarrow> space_step lv1 D1 st1 B st2"
  shows "space_step lv D st (A \<union> B) st2"
proof -
  obtain lv1 D1 where 1: "pt_ok st1 lv1 D1" "lv \<subseteq>\<^sub>m lv1" "D \<subseteq> D1" "same_pages D (phys st) (phys st1)"
    and w1: "\<And>root' va'. lv root' = Some 2 \<Longrightarrow> (root', va') \<notin> A \<Longrightarrow>
           hw_walk (phys st1) root' va' = hw_walk (phys st) root' va'"
    using a unfolding space_step_def by blast
  obtain lv2 D2 where 2: "pt_ok st2 lv2 D2" "lv1 \<subseteq>\<^sub>m lv2" "D1 \<subseteq> D2" "same_pages D1 (phys st1) (phys st2)"
    and w2: "\<And>root' va'. lv1 root' = Some 2 \<Longrightarrow> (root', va') \<notin> B \<Longrightarrow>
           hw_walk (phys st2) root' va' = hw_walk (phys st1) root' va'"
    using b [OF 1(1,2)] unfolding space_step_def by blast
  show ?thesis
    unfolding space_step_def
    using 2(1) map_le_trans [OF 1(2) 2(2)] 1(3) 2(3) same_pages_trans [OF 1(4) same_pages_mono [OF 2(4) 1(3)]]
      w1 w2 level_le [OF 1(2)]
    by (intro exI [of _ lv2] exI [of _ D2]) auto
qed

definition pages_of :: "usize \<Rightarrow> usize list \<Rightarrow> (usize \<times> usize) set" where
  "pages_of root vas = {root} \<times> {va'. \<exists>va\<in>set vas. same_page va va'}"

lemma map_user_page_eq:
  "map_user_page hart root va pa r w st =
     map_option (\<lambda>(res, st'). (case res of Inl _ \<Rightarrow> Inl ''map_user_page: walk failed'' | Inr u \<Rightarrow> Inr u, st'))
       (map_page hart root va pa r w False True st)"
  by (auto simp: map_user_page_def map_page_def split: option.splits)

lemma map_user_page_step:
  assumes "pt_ok st lv D" and "lv root = Some 2"
  shows "\<exists>res st'. map_user_page hart root va pa True w st = Some (res, st') \<and> space_step lv D st (pages_of root [va]) st'"
proof -
  obtain res st' lv' where m: "map_page hart root va pa True w False True st = Some (res, st')"
    "pt_ok st' lv' D" "lv \<subseteq>\<^sub>m lv'" "same_pages D (phys st) (phys st')"
    "\<And>root' va'. lv root' = Some 2 \<Longrightarrow> hw_walk (phys st') root' va' =
       (if res = Inr () \<and> root' = root \<and> same_page va va' then Some (leaf_entry pa True w False True, 0)
        else hw_walk (phys st) root' va')"
    using map_page_spec [OF assms, of True w False hart va pa True] by auto
  then have "space_step lv D st (pages_of root [va]) st'"
    unfolding space_step_def pages_of_def by (intro exI [of _ lv'] exI [of _ D]) auto
  with m(1) show ?thesis by (auto simp: map_user_page_eq)
qed

lemma alloc_step:
  assumes ok: "pt_ok st lv D" and al: "alloc_page hart st = Some (r, st1)"
  shows "space_step lv D st {} st1"
proof -
  note o = alloc_page_owned [OF pt_okD(2) [OF ok] al]
  note s = pt_ok_same [OF ok _ o(3)]
  show ?thesis
  proof (cases r)
    case None
    with s o(1) hw_walk_same [OF s(2)] same_pages_mono [OF o(3)] show ?thesis
      unfolding space_step_def by (intro exI [of _ lv] exI [of _ D]) auto
  next
    case (Some p)
    have "owned st1 (dom lv \<union> D)" using o(1) unfolding owned_def by blast
    then have t: "pt_shape (phys st1) lv" "same_trans lv (phys st) (phys st1)" using s pt_okD(1) by blast+
    have "pt_ok st1 lv (insert p D)"
      using t(1) o(1) o(2) [OF Some] pt_okD(3) [OF ok] Some by (auto simp: pt_ok_def)
    then show ?thesis
      unfolding space_step_def using hw_walk_same [OF t(2)] same_pages_mono [OF o(3)]
      by (intro exI [of _ lv] exI [of _ "insert p D"]) auto
  qed
qed

lemma map_fresh_step:
  assumes "pt_ok st lv D" and "lv root = Some 2"
  shows "\<exists>res st'. map_fresh_pages hart root vas st = Some (res, st') \<and> space_step lv D st (pages_of root vas) st'"
  using assms
proof (induction vas arbitrary: st lv D)
  case Nil
  then show ?case by (simp add: space_step_refl)
next
  case (Cons va vas)
  note ok = Cons.prems(1) and root = Cons.prems(2)
  obtain r st1 where al: "alloc_page hart st = Some (r, st1)"
    using owned_alloc_returns [OF pt_okD(2) [OF ok], of hart] by auto
  have s1: "space_step lv D st {} st1" by (rule alloc_step [OF ok al])
  show ?case
  proof (cases r)
    case None
    with al space_step_mono [OF s1] show ?thesis by simp
  next
    case (Some page)
    obtain lv1 D1 where k1: "pt_ok st1 lv1 D1" "lv \<subseteq>\<^sub>m lv1" using s1 unfolding space_step_def by blast
    obtain res st2 where m: "map_user_page hart root va page True True st1 = Some (res, st2)"
      using map_user_page_step [OF k1(1) level_le [OF k1(2) root]] by blast
    have "space_step lv1 D1 st1 (pages_of root [va]) st2" if "pt_ok st1 lv1 D1" "lv \<subseteq>\<^sub>m lv1" for lv1 D1
      using map_user_page_step [OF that(1) level_le [OF that(2) root], of hart va page True] m by auto
    then have s2: "space_step lv D st ({} \<union> pages_of root [va]) st2" by (rule space_step_trans [OF s1])
    show ?thesis
    proof (cases res)
      case (Inl e)
      with al Some m space_step_mono [OF s2, of "pages_of root (va # vas)"] show ?thesis by (auto simp: pages_of_def)
    next
      case (Inr u)
      obtain lv2 D2 where k2: "pt_ok st2 lv2 D2" "lv \<subseteq>\<^sub>m lv2" using s2 unfolding space_step_def by blast
      obtain res' st' where f: "map_fresh_pages hart root vas st2 = Some (res', st')"
        using Cons.IH [OF k2(1) level_le [OF k2(2) root]] by blast
      have "space_step lv2 D2 st2 (pages_of root vas) st'" if "pt_ok st2 lv2 D2" "lv \<subseteq>\<^sub>m lv2" for lv2 D2
        using Cons.IH [OF that(1) level_le [OF that(2) root]] f by auto
      then have "space_step lv D st ({} \<union> pages_of root [va] \<union> pages_of root vas) st'"
        by (rule space_step_trans [OF s2])
      with al Some m Inr f space_step_mono [of lv D st _ st' "pages_of root (va # vas)"] show ?thesis by (auto simp: pages_of_def)
    qed
  qed
qed

lemma write_looked_up:
  fixes v :: pte
  assumes ok: "pt_ok st lv D" and root: "lv root = Some 2" and l: "lookup_pt (phys st) root va = Some (t, i)"
  shows "pt_ok (st\<lparr>phys := set_ent t i v (phys st)\<rparr>) lv D" and "same_pages D (phys st) (set_ent t i v (phys st))"
    and "lv root' = Some 2 \<Longrightarrow> hw_walk (set_ent t i v (phys st)) root' va' =
      (if root' = root \<and> same_page va va' then (if is_leaf v then Some (v, 0) else None) else hw_walk (phys st) root' va')"
proof -
  have p: "path (phys st) root 2 va 2 = Some t" and i: "i = vpn 0 va" using l by (auto simp: lookup_pt_path)
  show "pt_ok (st\<lparr>phys := set_ent t i v (phys st)\<rparr>) lv D" "same_pages D (phys st) (set_ent t i v (phys st))"
    "lv root' = Some 2 \<Longrightarrow> hw_walk (set_ent t i v (phys st)) root' va' =
      (if root' = root \<and> same_page va va' then (if is_leaf v then Some (v, 0) else None) else hw_walk (phys st) root' va')"
    unfolding i by (rule write_leaf_entry [OF ok root p], assumption?)+
qed

lemma unmap_user_page_spec:
  assumes ok: "pt_ok st lv D" and root: "lv root = Some 2"
  shows "pt_ok (st\<lparr>phys := unmap_user_page root va (phys st)\<rparr>) lv D"
    and "same_pages D (phys st) (unmap_user_page root va (phys st))"
    and "lv root' = Some 2 \<Longrightarrow> hw_walk (unmap_user_page root va (phys st)) root' va' =
      (if root' = root \<and> same_page va va' \<and> lookup_pt (phys st) root va \<noteq> None then None else hw_walk (phys st) root' va')"
  using write_looked_up [OF ok root, where va = va and v = pte_empty] ok
  by (auto simp: unmap_user_page_def pte_empty_def split: option.splits)

lemma unmap_pages_step:
  assumes "pt_ok st lv D" and "lv root = Some 2"
  shows "space_step lv D st (pages_of root vas) (st\<lparr>phys := fold (unmap_user_page root) vas (phys st)\<rparr>)"
  using assms
proof (induction vas arbitrary: st lv D)
  case Nil
  then show ?case by (simp add: space_step_refl)
next
  case (Cons va vas)
  let ?st1 = "st\<lparr>phys := unmap_user_page root va (phys st)\<rparr>"
  note u = unmap_user_page_spec [OF Cons.prems, where va = va]
  have "space_step lv D st (pages_of root [va]) ?st1"
    unfolding space_step_def pages_of_def using u by (intro exI [of _ lv] exI [of _ D]) auto
  then have "space_step lv D st (pages_of root [va] \<union> pages_of root vas) (?st1\<lparr>phys := fold (unmap_user_page root) vas (phys ?st1)\<rparr>)"
  proof (rule space_step_trans)
    fix lv1 D1 assume "pt_ok ?st1 lv1 D1" "lv \<subseteq>\<^sub>m lv1"
    with Cons.prems(2) level_le show "space_step lv1 D1 ?st1 (pages_of root vas) (?st1\<lparr>phys := fold (unmap_user_page root) vas (phys ?st1)\<rparr>)"
      by (intro Cons.IH) blast
  qed
  moreover have "pages_of root [va] \<union> pages_of root vas = pages_of root (va # vas)" by (auto simp: pages_of_def)
  ultimately show ?case by simp
qed

section \<open>Seals\<close>

text \<open>
  What user processes do to their address spaces, in any order and on any hart: map, unmap and
  seal page-aligned ranges of the user half, with any switch of the current thread in between.
\<close>

inductive mem_run :: "MemSys \<Rightarrow> MemSys \<Rightarrow> bool" for s :: MemSys where
  run_start: "mem_run s s"
| run_switch: "mem_run s s1 \<Longrightarrow> mem_run s (s1\<lparr>msched := sc\<rparr>)"
| run_mmap: "mem_run s s1 \<Longrightarrow> 4096 dvd addr \<Longrightarrow> addr + len \<le> 2 ^ 38 \<Longrightarrow> sys_mmap hart addr len s1 = Some (r, s2) \<Longrightarrow> mem_run s s2"
| run_munmap: "mem_run s s1 \<Longrightarrow> 4096 dvd addr \<Longrightarrow> addr + len \<le> 2 ^ 38 \<Longrightarrow> sys_munmap addr len s1 = (r, s2) \<Longrightarrow> mem_run s s2"
| run_mseal: "mem_run s s1 \<Longrightarrow> sys_mseal addr len s1 = (r, s2) \<Longrightarrow> mem_run s s2"

lemma root_member:
  assumes "get_page_table_root pid s = Some root"
  shows "(pid, root) \<in> set (procs s)"
proof -
  obtain x where x: "find (\<lambda>p. fst p = pid) (procs s) = Some x" "snd x = root"
    using assms by (auto simp: get_page_table_root_def)
  then have "x \<in> set (procs s)" "fst x = pid" by (auto simp: find_Some_iff)
  with x(2) show ?thesis by (cases x) simp
qed

lemma roots_apart:
  assumes "distinct (map snd (procs s))" and "get_page_table_root pid s = Some root" and "get_page_table_root pid' s = Some root'"
    and "pid' \<noteq> pid"
  shows "root' \<noteq> root"
  using root_member [OF assms(2)] root_member [OF assms(3)] assms(1,4)
  by (metis distinct_map inj_onD prod.inject snd_conv)

text \<open>The addresses of a sealed range in the space of its process, and all others.\<close>

definition outside :: "usize \<Rightarrow> MemSeal \<Rightarrow> (usize \<times> usize) set" where
  "outside root sl = - ({root} \<times> {seal_start sl..<seal_end sl})"

definition seal_ok :: "u32 \<Rightarrow> MemSeal \<Rightarrow> MemSys \<Rightarrow> bool" where
  "seal_ok pid sl s \<longleftrightarrow> sl \<in> set (seals s) \<and> seal_pid sl = pid \<and> 4096 dvd seal_start sl \<and> seal_end sl \<le> 2 ^ 39"

lemma range_outside:
  assumes sl: "seal_ok pid sl s" and d: "distinct (map snd (procs s))"
    and r: "get_page_table_root pid s = Some root" "get_page_table_root pid' s = Some root'"
    and n: "\<not> is_sealed (seals s) pid' va len" and a: "va + len \<le> 2 ^ 39" "4096 dvd va"
  shows "pages_of root' (range_page_addrs va len) \<subseteq> outside root sl"
proof (cases "pid' = pid")
  case True
  have "\<not> same_page q x" if "q \<in> set (range_page_addrs va len)" "seal_start sl \<le> x" "x < seal_end sl" for q x
    using unsealed_apart [OF n, of sl q x] sl a that True by (auto simp: seal_ok_def)
  then show ?thesis by (auto simp: pages_of_def outside_def)
next
  case False
  from roots_apart [OF d r False] show ?thesis by (auto simp: pages_of_def outside_def)
qed

lemma mseal_keeps: "mseal pid start len l = (r, l') \<Longrightarrow> set l \<subseteq> set l'"
  by (auto simp: mseal_def Let_def split: if_splits)

lemma sys_mmap_step:
  assumes ok: "pt_ok (mpages s) lv D" and p: "\<forall>q\<in>set (procs s). lv (snd q) = Some 2" "distinct (map snd (procs s))"
    and sl: "seal_ok pid sl s" "get_page_table_root pid s = Some root"
    and a: "4096 dvd addr" "addr + len \<le> 2 ^ 38" and c: "sys_mmap hart addr len s = Some (res, s')"
  shows "space_step lv D (mpages s) (outside root sl) (mpages s') \<and> procs s' = procs s \<and> seals s' = seals s"
proof -
  define va where "va = (if addr = 0 then 0x10000000 else addr)"
  have va: "va + len \<le> 2 ^ 39" "4096 dvd va" using a by (auto simp: va_def)
  have "space_step lv D (mpages s) (outside root sl) (mpages s)" by (rule space_step_refl [OF ok])
  moreover have "space_step lv D (mpages s) (outside root sl) st"
    if "get_page_table_root pid' s = Some root'" "\<not> is_sealed (seals s) pid' va len"
      "map_fresh_pages hart root' (range_page_addrs va len) (mpages s) = Some (r', st)" for pid' root' r' st
    using map_fresh_step [OF ok, of root' hart "range_page_addrs va len"] p(1) root_member [OF that(1)] that(3)
      space_step_mono [OF _ range_outside [OF sl(1) p(2) sl(2) that(1,2) va]] by force
  ultimately show ?thesis
    using c by (auto simp: sys_mmap_def va_def [symmetric] Let_def split: sum.splits option.splits if_splits)
qed

lemma sys_munmap_step:
  assumes ok: "pt_ok (mpages s) lv D" and p: "\<forall>q\<in>set (procs s). lv (snd q) = Some 2" "distinct (map snd (procs s))"
    and sl: "seal_ok pid sl s" "get_page_table_root pid s = Some root"
    and a: "4096 dvd addr" "addr + len \<le> 2 ^ 38" and c: "sys_munmap addr len s = (res, s')"
  shows "space_step lv D (mpages s) (outside root sl) (mpages s') \<and> procs s' = procs s \<and> seals s' = seals s"
proof -
  have "space_step lv D (mpages s) (outside root sl) (mpages s)" by (rule space_step_refl [OF ok])
  moreover have "space_step lv D (mpages s) (outside root sl) ((mpages s)\<lparr>phys := fold (unmap_user_page root') (range_page_addrs addr len) (phys (mpages s))\<rparr>)"
    if "get_page_table_root pid' s = Some root'" "\<not> is_sealed (seals s) pid' addr len" for pid' root'
    using unmap_pages_step [OF ok, of root' "range_page_addrs addr len"] p(1) root_member [OF that(1)]
      space_step_mono [OF _ range_outside [OF sl(1) p(2) sl(2) that, of]] a by force
  ultimately show ?thesis
    using c by (auto simp: sys_munmap_def split: sum.splits option.splits if_splits)
qed

lemma sealed_run:
  assumes ok: "pt_ok (mpages s) lv D" and p: "\<forall>q\<in>set (procs s). lv (snd q) = Some 2" "distinct (map snd (procs s))"
    and sl: "seal_ok pid sl s" "get_page_table_root pid s = Some root" and run: "mem_run s s'"
  shows "space_step lv D (mpages s) (outside root sl) (mpages s') \<and> procs s' = procs s \<and> set (seals s) \<subseteq> set (seals s')"
  using run
proof induction
  case run_start
  from space_step_refl [OF ok] show ?case by simp
next
  case (run_switch s1 sc)
  then show ?case by simp
next
  case (run_mmap s1 addr len hart r s2)
  note IH = run_mmap.IH
  have q: "seal_ok pid sl s1" "get_page_table_root pid s1 = Some root" "distinct (map snd (procs s1))"
    using IH sl p by (auto simp: seal_ok_def get_page_table_root_def)
  have "space_step lv1 D1 (mpages s1) (outside root sl) (mpages s2) \<and> procs s2 = procs s1 \<and> seals s2 = seals s1"
    if "pt_ok (mpages s1) lv1 D1" "lv \<subseteq>\<^sub>m lv1" for lv1 D1
    using IH p(1) level_le [OF that(2)] by (intro sys_mmap_step [OF that(1) _ q(3,1,2) run_mmap.hyps(2-4)]) auto
  then show ?case using IH space_step_trans [of lv D "mpages s" "outside root sl" "mpages s1" "outside root sl" "mpages s2"]
    unfolding space_step_def by auto
next
  case (run_munmap s1 addr len r s2)
  note IH = run_munmap.IH
  have q: "seal_ok pid sl s1" "get_page_table_root pid s1 = Some root" "distinct (map snd (procs s1))"
    using IH sl p by (auto simp: seal_ok_def get_page_table_root_def)
  have "space_step lv1 D1 (mpages s1) (outside root sl) (mpages s2) \<and> procs s2 = procs s1 \<and> seals s2 = seals s1"
    if "pt_ok (mpages s1) lv1 D1" "lv \<subseteq>\<^sub>m lv1" for lv1 D1
    using IH p(1) level_le [OF that(2)] by (intro sys_munmap_step [OF that(1) _ q(3,1,2) run_munmap.hyps(2-4)]) auto
  then show ?case using IH space_step_trans [of lv D "mpages s" "outside root sl" "mpages s1" "outside root sl" "mpages s2"]
    unfolding space_step_def by auto
next
  case (run_mseal s1 addr len r s2)
  then show ?case using mseal_keeps
    by (fastforce simp: sys_mseal_def split: sum.splits prod.splits)
qed

section \<open>Transactions\<close>

text \<open>The calls that queue an operation, and a transaction with a list of operations queued.\<close>

fun tx_enqueue :: "TxOp \<Rightarrow> TxMMU \<Rightarrow> unit result \<times> TxMMU" where
  "tx_enqueue (TxMap va pa flags) tx = tx_map va pa flags tx"
| "tx_enqueue (TxUnmap va) tx = tx_unmap va tx"
| "tx_enqueue (TxProtect va flags) tx = tx_protect va flags tx"

definition tx_queue :: "usize \<Rightarrow> TxOp list \<Rightarrow> TxMMU" where
  "tx_queue root ops = fold (\<lambda>op tx. snd (tx_enqueue op tx)) ops (tx_begin root)"

lemma tx_enqueue_eq: "tx_enqueue op tx =
  (if \<not> in_tx tx then (Inl ''TxMMU: no transaction in progress'', tx)
   else if op_count tx \<ge> MAX_OPS then (Inl ''TxMMU: transaction operation buffer full'', tx)
   else (Inr (), tx\<lparr>pending_ops := (pending_ops tx)[op_count tx := Some op], op_count := op_count tx + 1\<rparr>))"
  by (cases op) (simp_all add: tx_map_def tx_unmap_def tx_protect_def)

lemma tx_queue_eq:
  "length ops \<le> MAX_OPS \<Longrightarrow> tx_queue root ops =
     \<lparr>root_phys = root, pending_ops = map Some ops @ replicate (MAX_OPS - length ops) None, op_count = length ops, in_tx = True\<rparr>"
proof (induction ops rule: rev_induct)
  case Nil
  then show ?case by (simp add: tx_queue_def tx_begin_def)
next
  case (snoc op ops)
  have r: "replicate (16 - length ops) None = None # replicate (15 - length ops) (None :: TxOp option)"
    using snoc.prems by (cases "16 - length ops") auto
  have "tx_queue root (ops @ [op]) = snd (tx_enqueue op (tx_queue root ops))" by (simp add: tx_queue_def)
  with snoc show ?case by (simp add: tx_enqueue_eq r list_update_append)
qed

lemma tx_queue_full: "length ops = MAX_OPS \<Longrightarrow>
    tx_enqueue op (tx_queue root ops) = (Inl ''TxMMU: transaction operation buffer full'', tx_queue root ops)"
  by (simp add: tx_queue_eq tx_enqueue_eq)

text \<open>What an operation means for the translation of its address space.\<close>

definition leaf_at_0 :: "pte \<Rightarrow> (pte \<times> nat) option" where
  "leaf_at_0 e = (if is_leaf e then Some (e, 0) else None)"

fun tx_apply :: "TxOp \<Rightarrow> (usize \<Rightarrow> (pte \<times> nat) option) \<Rightarrow> usize \<Rightarrow> (pte \<times> nat) option" where
  "tx_apply (TxMap va pa fl) f = (\<lambda>va'. if same_page va va'
     then leaf_at_0 (leaf_entry pa (fl AND 1 \<noteq> 0) (fl AND 2 \<noteq> 0) (fl AND 4 \<noteq> 0) (fl AND 8 \<noteq> 0)) else f va')"
| "tx_apply (TxUnmap va) f = (\<lambda>va'. if same_page va va' \<and> \<not> (\<exists>e l. f va = Some (e, Suc l)) then None else f va')"
| "tx_apply (TxProtect va fl) f = (\<lambda>va'. case f va of
       Some (e, 0) \<Rightarrow> if same_page va va'
         then leaf_at_0 (set_flags (fl AND 1 \<noteq> 0) (fl AND 2 \<noteq> 0) (fl AND 4 \<noteq> 0) (fl AND 8 \<noteq> 0) e) else f va'
     | _ \<Rightarrow> f va')"

fun op_va :: "TxOp \<Rightarrow> usize" where
  "op_va (TxMap va pa fl) = va" | "op_va (TxUnmap va) = va" | "op_va (TxProtect va fl) = va"

text \<open>A change of rights needs a mapped page.\<close>

fun tx_legal :: "TxOp list \<Rightarrow> (usize \<Rightarrow> (pte \<times> nat) option) \<Rightarrow> bool" where
  "tx_legal [] f \<longleftrightarrow> True"
| "tx_legal (op # ops) f \<longleftrightarrow>
     (case op of TxProtect va fl \<Rightarrow> \<exists>e. f va = Some (e, 0) | _ \<Rightarrow> True) \<and> tx_legal ops (tx_apply op f)"

lemma tx_apply_other: "\<not> same_page (op_va op) va' \<Longrightarrow> tx_apply op f va' = f va'"
  by (cases op) (auto split: option.splits nat.splits)

lemma tx_legal_apart:
  assumes "sorted_wrt (\<lambda>a b. \<not> same_page (op_va a) (op_va b)) ops"
    and "\<And>va fl. TxProtect va fl \<in> set ops \<Longrightarrow> \<exists>e. f va = Some (e, 0)"
  shows "tx_legal ops f"
  using assms
proof (induction ops arbitrary: f)
  case Nil
  then show ?case by simp
next
  case (Cons op ops)
  have "tx_legal ops (tx_apply op f)"
  proof (rule Cons.IH)
    show "sorted_wrt (\<lambda>a b. \<not> same_page (op_va a) (op_va b)) ops" using Cons.prems(1) by simp
    fix va fl assume m: "TxProtect va fl \<in> set ops"
    with Cons.prems(1) have "\<not> same_page (op_va op) va" by force
    with Cons.prems(2) [of va fl] m show "\<exists>e. tx_apply op f va = Some (e, 0)" by (simp add: tx_apply_other)
  qed
  with Cons.prems(2) show ?case by (auto split: TxOp.splits)
qed

lemma present_leaf_iff: "present_leaf root va m \<longleftrightarrow> (\<exists>e. hw_walk m root va = Some (e, 0))"
  by (auto simp: present_leaf_def hw_walk_lookup Let_def dest: leaf_not_branch(4) split: option.splits if_splits)

lemma lookup_None_walk: "lookup_pt m root va = None \<Longrightarrow> hw_walk m root va = None \<or> (\<exists>e l. hw_walk m root va = Some (e, Suc l))"
  using lookup_leaf_iff [of m root va] by (metis not0_implies_Suc option.distinct(1) option.exhaust surj_pair)

lemma lookup_Some_walk: "lookup_pt m root va = Some p \<Longrightarrow> \<not> (\<exists>e l. hw_walk m root va = Some (e, Suc l))"
  by (cases p) (auto simp: hw_walk_lookup)

lemma hw_walk_same_page: "same_page va va' \<Longrightarrow> hw_walk m root va' = hw_walk m root va"
  by (simp add: hw_walk_levels same_page_def)

text \<open>
  One committed operation: the state after it, or the walk failure that ends the loop. The new
  translation of the space is \<open>tx_apply\<close> of the old one, and no other space changes.
\<close>

definition op_done ::
  "(usize \<Rightarrow> nat option) \<Rightarrow> usize set \<Rightarrow> usize \<Rightarrow> PageState \<Rightarrow> ((usize \<Rightarrow> (pte \<times> nat) option) \<Rightarrow> usize \<Rightarrow> (pte \<times> nat) option) \<Rightarrow> PageState \<Rightarrow> bool" where
  "op_done lv D root st g st' \<longleftrightarrow> (\<exists>lv'. pt_ok st' lv' D \<and> lv \<subseteq>\<^sub>m lv' \<and> same_pages D (phys st) (phys st') \<and>
     (\<forall>root' va'. lv root' = Some 2 \<longrightarrow> hw_walk (phys st') root' va' =
        (if root' = root then g (hw_walk (phys st) root) va' else hw_walk (phys st) root' va')))"

lemma op_done_refl: "pt_ok st lv D \<Longrightarrow> op_done lv D root st (\<lambda>f. f) st"
  unfolding op_done_def by (intro exI [of _ lv]) auto

lemma op_done_trans:
  assumes a: "op_done lv D root st g st1" and root: "lv root = Some 2"
    and b: "op_done lv1 D root st1 h st2" "lv \<subseteq>\<^sub>m lv1"
  shows "op_done lv D root st (\<lambda>f. h (g f)) st2"
proof -
  have 1: "same_pages D (phys st) (phys st1)"
    and w1: "\<And>root' va'. lv root' = Some 2 \<Longrightarrow> hw_walk (phys st1) root' va' =
        (if root' = root then g (hw_walk (phys st) root) va' else hw_walk (phys st) root' va')"
    using a unfolding op_done_def by blast+
  obtain lv2 where 2: "pt_ok st2 lv2 D" "lv1 \<subseteq>\<^sub>m lv2" "same_pages D (phys st1) (phys st2)"
    and w2: "\<And>root' va'. lv1 root' = Some 2 \<Longrightarrow> hw_walk (phys st2) root' va' =
        (if root' = root then h (hw_walk (phys st1) root) va' else hw_walk (phys st1) root' va')"
    using b(1) unfolding op_done_def by blast
  have "hw_walk (phys st1) root = g (hw_walk (phys st) root)" using w1 [OF root] by (intro ext) simp
  then show ?thesis
    unfolding op_done_def
    using 2(1) map_le_trans [OF b(2) 2(2)] same_pages_trans [OF 1 2(3)] w1 w2 level_le [OF b(2)]
    by (intro exI [of _ lv2]) auto
qed

lemma commit_map_spec:
  assumes ok: "pt_ok st lv D" and root: "lv root = Some 2"
  obtains (mapped) st' where "commit_map hart root va pa fl st = Some (Inr (), st')"
      "op_done lv D root st (tx_apply (TxMap va pa fl)) st'"
    | (refused) st' where "commit_map hart root va pa fl st = Some (Inl ''TxMMU commit_map: page table walk failed'', st')"
      "op_done lv D root st (\<lambda>f. f) st'" "(\<exists>e l. hw_walk (phys st) root va = Some (e, Suc l)) \<or> free_frames st' = {}"
proof -
  obtain q st1 lv1 where w: "walk_process_pt hart root va True st = Some (q, st1)" "pt_ok st1 lv1 D" "lv \<subseteq>\<^sub>m lv1"
    "same_trans lv (phys st) (phys st1)" "same_pages D (phys st) (phys st1)"
    "\<And>t i. q = Some (t, i) \<Longrightarrow> path (phys st1) root 2 va 2 = Some t \<and> i = vpn 0 va"
    "q = None \<Longrightarrow> (\<exists>e l. hw_walk (phys st) root va = Some (e, Suc l)) \<or> free_frames st1 = {}"
    using walk_process_pt_spec [OF ok root, of hart va thesis] by blast
  have d1: "op_done lv D root st (\<lambda>f. f) st1"
    unfolding op_done_def using w(2,3,5) hw_walk_same [OF w(4)] by (intro exI [of _ lv1]) auto
  show ?thesis
  proof (cases q)
    case None
    with w(1,7) d1 show ?thesis by (intro refused [of st1]) (auto simp: commit_map_def)
  next
    case (Some a)
    then obtain t where a: "a = (t, vpn 0 va)" "path (phys st1) root 2 va 2 = Some t" using w(6) by (cases a) auto
    let ?e = "leaf_entry pa (fl AND 1 \<noteq> 0) (fl AND 2 \<noteq> 0) (fl AND 4 \<noteq> 0) (fl AND 8 \<noteq> 0)"
    let ?st = "st1\<lparr>phys := set_ent t (vpn 0 va) ?e (phys st1)\<rparr>"
    have "op_done lv1 D root st1 (tx_apply (TxMap va pa fl)) ?st"
      unfolding op_done_def using write_leaf_entry [OF w(2) level_le [OF w(3) root] a(2), where v = ?e]
      by (intro exI [of _ lv1]) (auto simp: leaf_at_0_def)
    from op_done_trans [OF d1 root this w(3)] have "op_done lv D root st (tx_apply (TxMap va pa fl)) ?st" .
    with w(1) Some a(1) show ?thesis by (intro mapped [of ?st]) (auto simp: commit_map_def simp del: tx_apply.simps)
  qed
qed

lemma commit_unmap_done:
  assumes ok: "pt_ok st lv D" and root: "lv root = Some 2"
  shows "op_done lv D root st (tx_apply (TxUnmap va)) (st\<lparr>phys := commit_unmap root va (phys st)\<rparr>)"
proof -
  have c: "commit_unmap root va = unmap_user_page root va" by (auto simp: commit_unmap_def unmap_user_page_def fun_eq_iff)
  have "tx_apply (TxUnmap va) (hw_walk (phys st) root) va' =
      (if same_page va va' \<and> lookup_pt (phys st) root va \<noteq> None then None else hw_walk (phys st) root va')" for va'
    using lookup_None_walk [of "phys st" root va] lookup_Some_walk [of "phys st" root va] hw_walk_same_page [of va va' "phys st" root]
    by (cases "lookup_pt (phys st) root va") auto
  then show ?thesis
    unfolding op_done_def c using unmap_user_page_spec [OF ok root, where va = va] by (intro exI [of _ lv]) auto
qed

lemma commit_protect_done:
  assumes ok: "pt_ok st lv D" and root: "lv root = Some 2" and e: "hw_walk (phys st) root va = Some (e, 0)"
  shows "op_done lv D root st (tx_apply (TxProtect va fl)) (st\<lparr>phys := commit_protect root va fl (phys st)\<rparr>)"
proof -
  obtain t i where t: "lookup_pt (phys st) root va = Some (t, i)" "ent (phys st) t i = e"
    using lookup_leaf_iff [of "phys st" root va e] e by auto
  show ?thesis
    unfolding op_done_def using write_looked_up [OF ok root t(1)] t e
    by (intro exI [of _ lv]) (auto simp: commit_protect_def leaf_at_0_def)
qed

text \<open>
  The first operation that cannot be carried out ends the loop; the \<open>k\<close> operations before it
  stay applied.
\<close>

definition commit_spec ::
  "(usize \<Rightarrow> nat option) \<Rightarrow> usize set \<Rightarrow> usize \<Rightarrow> TxOp list \<Rightarrow> PageState \<Rightarrow> (unit result \<times> PageState) option \<Rightarrow> bool" where
  "commit_spec lv D root ops st r \<longleftrightarrow>
     (\<exists>res st' k. r = Some (res, st') \<and> k \<le> length ops \<and> op_done lv D root st (fold tx_apply (take k ops)) st' \<and>
        (res = Inr () \<and> k = length ops \<or>
         res = Inl ''TxMMU commit_map: page table walk failed'' \<and> k < length ops \<and>
         (\<exists>va pa fl. ops ! k = TxMap va pa fl \<and>
            ((\<exists>e l. fold tx_apply (take k ops) (hw_walk (phys st) root) va = Some (e, Suc l)) \<or> free_frames st' = {}))))"

lemma commit_spec_Cons:
  assumes d: "op_done lv D root st (tx_apply op) st1" and root: "lv root = Some 2"
    and c: "commit_spec lv1 D root ops st1 r" and le: "lv \<subseteq>\<^sub>m lv1"
  shows "commit_spec lv D root (op # ops) st r"
proof -
  have f: "hw_walk (phys st1) root = tx_apply op (hw_walk (phys st) root)"
    using d root unfolding op_done_def by (intro ext) auto
  obtain res st' k where r: "r = Some (res, st')" "k \<le> length ops"
    "res = Inr () \<and> k = length ops \<or>
     res = Inl ''TxMMU commit_map: page table walk failed'' \<and> k < length ops \<and>
     (\<exists>va pa fl. ops ! k = TxMap va pa fl \<and>
        ((\<exists>e l. fold tx_apply (take k ops) (hw_walk (phys st1) root) va = Some (e, Suc l)) \<or> free_frames st' = {}))"
    "op_done lv1 D root st1 (fold tx_apply (take k ops)) st'"
    using c unfolding commit_spec_def by blast
  from op_done_trans [OF d root r(4) le] r f show ?thesis
    unfolding commit_spec_def by (intro exI [of _ res] exI [of _ st'] exI [of _ "Suc k"]) (auto simp: comp_def)
qed

lemma commit_ops_spec:
  assumes "pt_ok st lv D" and "lv root = Some 2" and "tx_legal ops (hw_walk (phys st) root)"
  shows "commit_spec lv D root ops st (commit_ops hart root (map Some ops) st)"
  using assms
proof (induction ops arbitrary: st lv)
  case Nil
  then show ?case using op_done_refl [of st lv D root] by (simp add: commit_spec_def id_def)
next
  case (Cons op ops)
  note ok = Cons.prems(1) and root = Cons.prems(2)
  have step: "commit_spec lv D root (op # ops) st (commit_ops hart root (map Some ops) st1)"
    if d: "op_done lv D root st (tx_apply op) st1" for st1
  proof -
    obtain lv1 where k: "pt_ok st1 lv1 D" "lv \<subseteq>\<^sub>m lv1" using d unfolding op_done_def by blast
    have "hw_walk (phys st1) root = tx_apply op (hw_walk (phys st) root)"
      using d root unfolding op_done_def by (intro ext) auto
    then have "tx_legal ops (hw_walk (phys st1) root)" using Cons.prems(3) by simp
    from commit_spec_Cons [OF d root Cons.IH [OF k(1) level_le [OF k(2) root] this] k(2)] show ?thesis .
  qed
  show ?case
  proof (cases op)
    case (TxMap va pa fl)
    show ?thesis
    proof (rule commit_map_spec [OF ok root, where hart = hart and va = va and pa = pa and fl = fl])
      fix st1 assume "commit_map hart root va pa fl st = Some (Inr (), st1)" "op_done lv D root st (tx_apply (TxMap va pa fl)) st1"
      with step [of st1] TxMap show ?thesis by (simp del: tx_apply.simps)
    next
      fix st1 assume "commit_map hart root va pa fl st = Some (Inl ''TxMMU commit_map: page table walk failed'', st1)"
        "op_done lv D root st (\<lambda>f. f) st1" "(\<exists>e l. hw_walk (phys st) root va = Some (e, Suc l)) \<or> free_frames st1 = {}"
      then show ?thesis using TxMap
        unfolding commit_spec_def by (intro exI [of _ "Inl _"] exI [of _ st1] exI [of _ 0]) (simp add: id_def)
    qed
  next
    case (TxUnmap va)
    with step commit_unmap_done [OF ok root, of va] show ?thesis by (simp del: tx_apply.simps)
  next
    case (TxProtect va fl)
    then obtain e where "hw_walk (phys st) root va = Some (e, 0)" using Cons.prems(3) by auto
    from step commit_protect_done [OF ok root this, of fl] TxProtect show ?thesis by (simp del: tx_apply.simps)
  qed
qed

text \<open>
  Changing the rights of a page whose entry is empty, in a table that exists, makes the entry a
  leaf for physical frame 0.
\<close>

lemma protect_unmapped_maps_frame_0:
  assumes ok: "pt_ok st lv D" and root: "lv root = Some 2" and l: "lookup_pt (phys st) root va = Some (t, i)"
    and e: "ent (phys st) t i = pte_empty" and fl: "fl AND 1 \<noteq> 0"
  shows "\<exists>e'. hw_walk (commit_protect root va fl (phys st)) root va = Some (e', 0) \<and> phys_addr e' = 0"
proof -
  let ?v = "set_flags (fl AND 1 \<noteq> 0) (fl AND 2 \<noteq> 0) (fl AND 4 \<noteq> 0) (fl AND 8 \<noteq> 0) pte_empty"
  have "is_leaf ?v" using fl by (simp add: leaf_bits bit_set_flags)
  moreover have "phys_addr ?v = phys_addr pte_empty" by (rule phys_addr_cong) (simp add: bit_set_flags)
  moreover have "phys_addr pte_empty = 0" by (simp add: phys_addr_def ppn_def pte_empty_def)
  ultimately show ?thesis
    using write_looked_up(3) [OF ok root l root, of ?v va] l e by (simp add: commit_protect_def)
qed

lemma lookup_same_page: "same_page va va' \<Longrightarrow> lookup_pt m root va = lookup_pt m root va'"
  unfolding lookup_pt_def vpn_levels same_page_def by (simp del: One_nat_def split: option.split)

text \<open>Unmapping a list of pages unmaps every 4 KB page on it, and nothing else.\<close>

lemma unmap_pages_gone:
  assumes "pt_ok st lv D" and "lv root = Some 2" and "\<not> (\<exists>e l. hw_walk (phys st) root va = Some (e, Suc l))"
  shows "hw_walk (fold (unmap_user_page root) vas (phys st)) root va =
    (if \<exists>q\<in>set vas. same_page q va then None else hw_walk (phys st) root va)"
  using assms
proof (induction vas arbitrary: st)
  case Nil
  then show ?case by simp
next
  case (Cons q vas)
  let ?st = "st\<lparr>phys := unmap_user_page root q (phys st)\<rparr>"
  note u = unmap_user_page_spec [OF Cons.prems(1,2), where va = q]
  have "hw_walk (phys ?st) root va = (if same_page q va then None else hw_walk (phys st) root va)"
    using u(3) [OF Cons.prems(2)] lookup_same_page [of q va "phys st" root] lookup_None_walk [of "phys st" root va] Cons.prems(3)
    by (cases "lookup_pt (phys st) root va") auto
  with Cons.IH [OF u(1) Cons.prems(2)] Cons.prems(3) show ?case by auto
qed

text \<open>A shrinking \<open>sys_brk\<close> does not look at the seals: a sealed heap page above the new break is gone.\<close>

lemma brk_ignores_seals:
  assumes ok: "pt_ok (mpages s) lv D" "lv root = Some 2"
    and pid: "current_pid s = Inr pid" "get_page_table_root pid s = Some root"
    and i: "brk_find pid (brk_table s) = i" "i < length (brk_table s)" "snd (brk_table s ! i) = b" and b: "b \<le> 2 ^ 38"
    and addr: "0 < addr" "addr + 4095 \<le> va" "va < b" and mapped: "hw_walk (phys (mpages s)) root va = Some (e, 0)"
  shows "\<exists>s'. sys_brk hart addr s = Some (Inr addr, s') \<and> hw_walk (phys (mpages s')) root va = None \<and> seals s' = seals s"
proof -
  let ?q = "va div 4096"
  have p: "(addr + 4095) div 4096 \<le> ?q" "?q < (b + 4095) div 4096"
    using div_le_mono [OF addr(2)] addr(3) by (auto simp: less_eq_div_iff_mult_less_eq Suc_le_eq [symmetric])
  have u: "usize_add addr 4095 = addr + 4095" "usize_add b 4095 = b + 4095" using addr b by (simp_all add: usize_add_small)
  have "same_page (?q * 4096) va" using addr b by (subst same_page_div) auto
  then have "hw_walk (fold (unmap_user_page root) (map (\<lambda>i. i * 4096) [(addr + 4095) div 4096..<(b + 4095) div 4096]) (phys (mpages s))) root va = None"
    using unmap_pages_gone [OF ok, of va] mapped p by auto
  then show ?thesis using pid i addr u unfolding sys_brk_def by simp
qed

lemma sys_mmap_returns:
  assumes "pt_ok (mpages s) lv D" and "\<forall>q\<in>set (procs s). lv (snd q) = Some 2"
  shows "sys_mmap hart addr len s \<noteq> None"
proof -
  have False if "get_page_table_root pid' s = Some root'" "map_fresh_pages hart root' vas (mpages s) = None" for pid' root' vas
    using map_fresh_step [OF assms(1), of root' hart vas] root_member [OF that(1)] that(2) assms(2) by force
  then show ?thesis by (auto simp: sys_mmap_def Let_def split: sum.splits option.splits if_splits)
qed

section \<open>The properties\<close>

text \<open>
  C10. A seal holds for ever: once a process has sealed a range of its user half, no sequence of
  mappings, unmappings and seals of page-aligned user ranges, by this process or by any other, on
  any hart and with any scheduling in between, changes the translation of an address of the
  range; the range stays sealed, and no page that holds data is written. The calls all return,
  whether they succeed or fail on the way.
\<close>

theorem sealed_forever:
  assumes ok: "pt_ok (mpages s0) lv D" and procs: "\<forall>q\<in>set (procs s0). lv (snd q) = Some 2" "distinct (map snd (procs s0))"
    and pid: "current_pid s0 = Inr pid" "get_page_table_root pid s0 = Some root"
    and seal: "sys_mseal a n s0 = (Inr 0, s)" and fits: "a + n \<le> 2 ^ 38" and run: "mem_run s s'"
    and va: "a \<le> va" "va < a + n"
  shows "hw_walk (phys (mpages s')) root va = hw_walk (phys (mpages s0)) root va \<and> is_sealed (seals s') pid va 1 \<and>
    same_pages D (phys (mpages s0)) (phys (mpages s')) \<and>
    sys_mmap hart addr len s' \<noteq> None"
proof -
  let ?sl = "\<lparr>seal_pid = pid, seal_start = a, seal_end = a + n\<rparr>"
  have s: "s = s0\<lparr>seals := seals s0 @ [?sl]\<rparr>" and a: "4096 dvd a"
    using seal pid(1) fits
    by (auto simp: sys_mseal_def mseal_def Let_def usize_add_small and_0xFFF split: if_splits)
  have so: "seal_ok pid ?sl s" using s a fits by (simp add: seal_ok_def)
  have r: "get_page_table_root pid s = Some root" using s pid(2) by (simp add: get_page_table_root_def)
  have k: "space_step lv D (mpages s0) (outside root ?sl) (mpages s')" "procs s' = procs s0" "set (seals s) \<subseteq> set (seals s')"
    using sealed_run [OF _ _ _ so r run, of lv D] ok procs s by simp_all
  have "(root, va) \<notin> outside root ?sl" using va by (simp add: outside_def)
  moreover have "lv root = Some 2" using root_member [OF pid(2)] procs(1) by auto
  ultimately have "hw_walk (phys (mpages s')) root va = hw_walk (phys (mpages s0)) root va"
    using k(1) unfolding space_step_def by blast
  moreover have "is_sealed (seals s') pid va 1"
    using k(3) s va fits by (auto simp: is_sealed_def usize_saturating_add_def Let_def intro!: bexI [of _ ?sl])
  moreover have "sys_mmap hart addr len s' \<noteq> None"
    using k(1,2) procs(1) sys_mmap_returns [of s' _ _ hart addr len] level_le unfolding space_step_def by metis
  ultimately show ?thesis using k(1) unfolding space_step_def by blast
qed

text \<open>
  C12. The seal check compares full addresses, the page-table walk only 39 bits of them: for
  every sealed and mapped page, \<open>sys_munmap\<close> refuses its address but accepts the address
  \<open>2 ^ 39\<close> bytes higher, and removes the sealed page, while the seal stays in the table.
\<close>

theorem munmap_alias_bypass:
  assumes ok: "pt_ok (mpages s) lv D" "lv root = Some 2"
    and pid: "current_pid s = Inr pid" "get_page_table_root pid s = Some root"
    and sealed: "is_sealed (seals s) pid va 4096" "\<forall>sl\<in>set (seals s). seal_end sl \<le> 2 ^ 39"
    and va: "va + 4096 \<le> 2 ^ 38" and mapped: "hw_walk (phys (mpages s)) root va = Some (e, 0)"
  shows "sys_munmap va 4096 s = (Inl ''munmap: range is sealed'', s) \<and>
    (\<exists>s'. sys_munmap (va + 2 ^ 39) 4096 s = (Inr 0, s') \<and> hw_walk (phys (mpages s')) root va = None \<and> seals s' = seals s)"
proof
  show "sys_munmap va 4096 s = (Inl ''munmap: range is sealed'', s)" using pid sealed(1) by (simp add: sys_munmap_def)
  let ?va = "va + 2 ^ 39"
  have n: "\<not> is_sealed (seals s) pid ?va 4096" using sealed(2) by (auto simp: is_sealed_def Let_def)
  have r: "range_page_addrs ?va 4096 = [?va]"
    using va by (simp add: range_page_addrs_def PAGE_SIZE_def usize_add_def usize_sub_def)
  have "lookup_pt (phys (mpages s)) root ?va \<noteq> None"
    using lookup_leaf_iff [of "phys (mpages s)" root va e] mapped lookup_same_page [OF same_page_alias] by auto
  then have "hw_walk (unmap_user_page root ?va (phys (mpages s))) root va = None"
    using unmap_user_page_spec(3) [OF ok ok(2), of ?va va] same_page_alias [of va] by simp
  with pid n r show "\<exists>s'. sys_munmap ?va 4096 s = (Inr 0, s') \<and> hw_walk (phys (mpages s')) root va = None \<and> seals s' = seals s"
    unfolding sys_munmap_def by simp
qed

text \<open>
  C18. A transaction refines the sequence of its operations: when up to 16 operations on
  different pages have been queued and the conflict check finds nothing, the commit returns and
  the translation of the address space is that of the operations applied one after the other,
  while every other address space and every data page is unchanged. Success applies all of them
  and closes the transaction. A failed commit has applied the operations before the one that
  failed, which is a mapping under a superpage or with the memory exhausted, and leaves the
  transaction open with its queue as it was.
\<close>

theorem tx_commit_refines:
  assumes ok: "pt_ok st lv D" "lv root = Some 2" and ops: "length ops \<le> 16"
    and apart: "sorted_wrt (\<lambda>a b. \<not> same_page (op_va a) (op_va b)) ops"
    and check: "rollback_on_conflict (tx_queue root ops) (phys st) = (False, tx)"
  shows "\<exists>res tx' st' lv' k. tx_commit hart tx st = Some (res, tx', st') \<and> pt_ok st' lv' D \<and>
    same_pages D (phys st) (phys st') \<and> k \<le> length ops \<and>
    (\<forall>root' va'. lv root' = Some 2 \<longrightarrow> hw_walk (phys st') root' va' =
       (if root' = root then fold tx_apply (take k ops) (hw_walk (phys st) root) va' else hw_walk (phys st) root' va')) \<and>
    (res = Inr () \<and> k = length ops \<and> tx' = tx_abort tx \<or>
     res = Inl ''TxMMU commit_map: page table walk failed'' \<and> k < length ops \<and> tx' = tx_queue root ops \<and>
     (\<exists>va pa fl. ops ! k = TxMap va pa fl \<and>
        ((\<exists>e l. fold tx_apply (take k ops) (hw_walk (phys st) root) va = Some (e, Suc l)) \<or> free_frames st' = {})))"
proof -
  note q = tx_queue_eq [OF ops, of root]
  have tx: "tx = tx_queue root ops" and c: "\<And>op. op \<in> set ops \<Longrightarrow> \<not> op_conflict root (phys st) (Some op)"
    using check ops by (auto simp: rollback_on_conflict_def q split: if_splits)
  have "tx_legal ops (hw_walk (phys st) root)"
    using c by (intro tx_legal_apart [OF apart]) (force simp: present_leaf_iff)
  from commit_ops_spec [OF ok this, of hart] obtain res st' k where
    r: "commit_ops hart root (map Some ops) st = Some (res, st')" "k \<le> length ops"
      "op_done lv D root st (fold tx_apply (take k ops)) st'"
      "res = Inr () \<and> k = length ops \<or> res = Inl ''TxMMU commit_map: page table walk failed'' \<and> k < length ops \<and>
       (\<exists>va pa fl. ops ! k = TxMap va pa fl \<and>
          ((\<exists>e l. fold tx_apply (take k ops) (hw_walk (phys st) root) va = Some (e, Suc l)) \<or> free_frames st' = {}))"
    unfolding commit_spec_def by blast
  obtain lv' where o: "pt_ok st' lv' D" "same_pages D (phys st) (phys st')"
    "\<forall>root' va'. lv root' = Some 2 \<longrightarrow> hw_walk (phys st') root' va' =
       (if root' = root then fold tx_apply (take k ops) (hw_walk (phys st) root) va' else hw_walk (phys st) root' va')"
    using r(3) unfolding op_done_def by blast
  have t: "tx_commit hart tx st = Some (res, (case res of Inl _ \<Rightarrow> tx | Inr _ \<Rightarrow> tx_abort tx), st')"
    using ops r(1) by (auto simp: tx_commit_def tx q tx_abort_def split: sum.splits)
  show ?thesis
    by (rule exI [of _ res], rule exI [of _ "case res of Inl _ \<Rightarrow> tx | Inr _ \<Rightarrow> tx_abort tx"], rule exI [of _ st'],
        rule exI [of _ lv'], rule exI [of _ k]) (use t o r(2,4) tx in auto)
qed

section \<open>Witnesses\<close>

text \<open>One process with the small address space of Address_Translation.\<close>

definition demo_mem :: "PageState \<Rightarrow> MemSeal list \<Rightarrow> MemSys" where
  "demo_mem st l = \<lparr>msched = (sched_init (\<lambda>_. Thread_new 0 1 5))\<lparr>current := Some 0\<rparr>, procs = [(1, 4096)], seals = l,
     cheri = [], brk_table = [], mpages = st\<rparr>"

lemma demo_mem_fields [simp]: "mpages (demo_mem st l) = st" "seals (demo_mem st l) = l" "procs (demo_mem st l) = [(1, 4096)]"
  "current_pid (demo_mem st l) = Inr 1" "get_page_table_root 1 (demo_mem st l) = Some 4096"
  "(demo_mem st l)\<lparr>seals := l'\<rparr> = demo_mem st l'"
  by (simp_all add: demo_mem_def current_pid_def get_page_table_root_def Thread_new_def sched_init_def)

abbreviation demo_seal :: MemSeal where
  "demo_seal \<equiv> \<lparr>seal_pid = 1, seal_start = 0x1000, seal_end = 0x2000\<rparr>"

theorem sealed_forever_witness:
  "\<exists>s'. sys_munmap 0x3000 4096 (demo_mem demo_pt [demo_seal]) = (Inr 0, s') \<and>
     hw_walk (phys (mpages s')) 4096 0x1234 = hw_walk (phys demo_pt) 4096 0x1234"
proof -
  let ?s = "demo_mem demo_pt [demo_seal]"
  have seal: "sys_mseal 0x1000 0x1000 (demo_mem demo_pt []) = (Inr 0, ?s)"
    by (simp add: sys_mseal_def mseal_def and_0xFFF Let_def usize_add_def)
  obtain s' where m: "sys_munmap 0x3000 4096 ?s = (Inr 0, s')"
    by (simp add: sys_munmap_def is_sealed_def usize_saturating_add_def Let_def)
  have "mem_run ?s s'" by (rule run_munmap [OF run_start _ _ m]) simp_all
  from sealed_forever [of "demo_mem demo_pt []" demo_lv "{}" 1 4096, OF _ _ _ _ _ seal _ this, of "0x1234"] m show ?thesis
    using demo_pt_ok by (simp add: demo_lv_def)
qed

lemma demo_mapped: "\<exists>st lv. pt_ok st lv {} \<and> lv 4096 = Some 2 \<and> (\<exists>e. hw_walk (phys st) 4096 0x1000 = Some (e, 0))"
proof -
  obtain st where m: "map_page 0 4096 0x1000 0x80000000 True True False True demo_pt = Some (Inr (), st)" using demo_map by blast
  have r: "demo_lv 4096 = Some 2" by (simp add: demo_lv_def)
  from map_page_spec [OF demo_pt_ok r, of True True False 0 "0x1000" "0x80000000" True] m obtain lv where
    "pt_ok st lv {}" "demo_lv \<subseteq>\<^sub>m lv" "hw_walk (phys st) 4096 0x1000 = Some (leaf_entry 0x80000000 True True False True, 0)"
    using r by (auto simp: same_page_def)
  with level_le [of demo_lv lv 4096 2] r show ?thesis by blast
qed

theorem munmap_alias_bypass_witness:
  "\<exists>s s'. is_sealed (seals s) 1 0x1000 4096 \<and> (\<exists>e. hw_walk (phys (mpages s)) 4096 0x1000 = Some (e, 0)) \<and>
     sys_munmap (0x1000 + 2 ^ 39) 4096 s = (Inr 0, s') \<and> hw_walk (phys (mpages s')) 4096 0x1000 = None"
proof -
  obtain st lv e where d: "pt_ok st lv {}" "lv 4096 = Some 2" "hw_walk (phys st) 4096 0x1000 = Some (e, 0)" using demo_mapped by blast
  let ?s = "demo_mem st [demo_seal]"
  have "is_sealed (seals ?s) 1 0x1000 4096" by (simp add: is_sealed_def usize_saturating_add_def)
  moreover from munmap_alias_bypass [of ?s lv "{}" 4096 1 "0x1000" e] d this obtain s' where
    "sys_munmap (0x1000 + 2 ^ 39) 4096 ?s = (Inr 0, s')" "hw_walk (phys (mpages s')) 4096 0x1000 = None" by auto
  ultimately show ?thesis using d(3) by (intro exI [of _ ?s] exI [of _ s']) (simp only: demo_mem_fields, blast)
qed

theorem tx_commit_refines_witness:
  "\<exists>res tx' st'. tx_commit 0 (tx_queue 4096 [TxMap 0x1000 0x80000000 11]) demo_pt = Some (res, tx', st')"
proof -
  have "rollback_on_conflict (tx_queue 4096 [TxMap 0x1000 0x80000000 11]) (phys demo_pt) = (False, tx_queue 4096 [TxMap 0x1000 0x80000000 11])"
    by (simp add: rollback_on_conflict_def tx_queue_eq present_leaf_def lookup_pt_def lookup_level_def ent_def zero_page_def vpn_levels vpn_def)
  from tx_commit_refines [OF demo_pt_ok _ _ _ this, of 0] show ?thesis by (auto simp: demo_lv_def)
qed

end
