(* ===== verification/Kernel_Heap.thy ===== *)
theory Kernel_Heap
  imports Kernel_Prelude
begin

text \<open>
  The kernel heap, kernel/src/mem/heap.rs: a bump allocator that puts an eight-byte canary
  before and after every block and checks both when the block is released. Memory is a byte
  store. A null pointer is \<open>None\<close>; the \<open>unwrap\<close> of the source panics, and a damaged canary stops
  the hart in \<open>idle_loop\<close>, which is \<open>Hang\<close>.
\<close>

section \<open>Definitions\<close>

type_synonym bmem = "usize \<Rightarrow> u8"

definition HEAP_CANARY :: u64 where "HEAP_CANARY = 0xDEADBEEFCAFEBABE"

record BumpAllocator =
  bump_next :: usize
  bump_end :: usize
  allocations :: usize

record Heap =
  bump :: BumpAllocator
  ram :: bmem

definition new_bump :: BumpAllocator where
  "new_bump = \<lparr>bump_next = 0, bump_end = 0, allocations = 0\<rparr>"

definition write_bytes :: "usize \<Rightarrow> u8 list \<Rightarrow> bmem \<Rightarrow> bmem" where
  "write_bytes p bs m = (\<lambda>a. if p \<le> a \<and> a < p + length bs then bs ! (a - p) else m a)"

definition read_bytes :: "usize \<Rightarrow> usize \<Rightarrow> bmem \<Rightarrow> u8 list" where
  "read_bytes p n m = map (\<lambda>i. m (p + i)) [0..<n]"

definition canary_bytes :: "u8 list" where
  "canary_bytes = to_le 8 HEAP_CANARY"

definition align_to :: "usize \<Rightarrow> usize \<Rightarrow> usize" where
  "align_to x align = (let y = usize_sub (usize_add x align) 1 in y - y mod align)"

definition heap_alloc :: "usize \<Rightarrow> usize \<Rightarrow> Heap \<Rightarrow> (usize option \<times> Heap) outcome" where
  "heap_alloc sz align h =
     (let aligned = align_to (bump_next (bump h)) align;
          payload = usize_add aligned 8
      in if payload + sz \<ge> 2 ^ 64 then Panic
         else
           (let payload_end = payload + sz;
                total_end = usize_add payload_end 8
            in if total_end > bump_end (bump h) then Ret (None, h)
               else Ret (Some payload,
                 \<lparr>bump = (bump h)\<lparr>bump_next := total_end, allocations := usize_add (allocations (bump h)) 1\<rparr>,
                  ram = write_bytes payload_end canary_bytes (write_bytes aligned canary_bytes (ram h))\<rparr>)))"

text \<open>\<open>alloc_zeroed\<close> of \<open>GlobalAlloc\<close>: allocate, then clear the block.\<close>

definition heap_alloc_zeroed :: "usize \<Rightarrow> usize \<Rightarrow> Heap \<Rightarrow> (usize option \<times> Heap) outcome" where
  "heap_alloc_zeroed sz align h =
     obind (heap_alloc sz align h) (\<lambda>(r, h1).
       case r of
         None \<Rightarrow> Ret (None, h1)
       | Some p \<Rightarrow> Ret (Some p, h1\<lparr>ram := write_bytes p (replicate sz 0) (ram h1)\<rparr>))"

definition heap_dealloc :: "usize \<Rightarrow> usize \<Rightarrow> Heap \<Rightarrow> Heap outcome" where
  "heap_dealloc ptr sz h =
     (let h1 = h\<lparr>bump := (bump h)\<lparr>allocations := usize_sub (allocations (bump h)) 1\<rparr>\<rparr>
      in if read_bytes (usize_sub ptr 8) 8 (ram h) \<noteq> canary_bytes \<or> read_bytes (usize_add ptr sz) 8 (ram h) \<noteq> canary_bytes
         then Hang else Ret h1)"

definition init_range :: "usize \<Rightarrow> usize \<Rightarrow> Heap \<Rightarrow> Heap" where
  "init_range start e h = h\<lparr>bump := (bump h)\<lparr>bump_next := start, bump_end := e\<rparr>\<rparr>"

section \<open>Lemmas\<close>

lemma length_canary [simp]: "length canary_bytes = 8"
  by (simp add: canary_bytes_def)

lemma length_read_bytes [simp]: "length (read_bytes p n m) = n"
  by (simp add: read_bytes_def)

lemma write_bytes_other: "a < p \<or> p + length bs \<le> a \<Longrightarrow> write_bytes p bs m a = m a"
  by (auto simp: write_bytes_def)

lemma write_bytes_in: "i < length bs \<Longrightarrow> write_bytes p bs m (p + i) = bs ! i"
  by (simp add: write_bytes_def)

lemma read_write_same [simp]: "n = length bs \<Longrightarrow> read_bytes p n (write_bytes p bs m) = bs"
  by (auto simp: read_bytes_def write_bytes_in intro!: nth_equalityI)

lemma read_bytes_cong: "(\<And>i. i < n \<Longrightarrow> m' (p + i) = m (p + i)) \<Longrightarrow> read_bytes p n m' = read_bytes p n m"
  by (simp add: read_bytes_def)

lemma read_write_other:
  "p + n \<le> q \<or> q + length bs \<le> p \<Longrightarrow> read_bytes p n (write_bytes q bs m) = read_bytes p n m"
  by (rule read_bytes_cong) (auto simp: write_bytes_def)

text \<open>A heap is well formed when its free part is inside the address space.\<close>

definition heap_ok :: "Heap \<Rightarrow> bool" where
  "heap_ok h \<longleftrightarrow> bump_next (bump h) \<le> bump_end (bump h) \<and> bump_end (bump h) + 2 ^ 32 \<le> 2 ^ 64"

text \<open>A live block, with its canaries.\<close>

definition live_block :: "Heap \<Rightarrow> usize \<Rightarrow> usize \<Rightarrow> bool" where
  "live_block h p n \<longleftrightarrow> 8 \<le> p \<and> p + n + 8 \<le> bump_next (bump h) \<and>
     read_bytes (p - 8) 8 (ram h) = canary_bytes \<and> read_bytes (p + n) 8 (ram h) = canary_bytes"

text \<open>Memory changes only where \<open>A\<close> allows it.\<close>

definition changes_only :: "usize set \<Rightarrow> bmem \<Rightarrow> bmem \<Rightarrow> bool" where
  "changes_only A m m' \<longleftrightarrow> (\<forall>a. a \<notin> A \<longrightarrow> m' a = m a)"

lemma changes_only_refl [simp]: "changes_only A m m"
  by (simp add: changes_only_def)

lemma changes_only_trans: "changes_only A m m' \<Longrightarrow> changes_only A m' m'' \<Longrightarrow> changes_only A m m''"
  by (simp add: changes_only_def)

lemma changes_only_mono: "changes_only A m m' \<Longrightarrow> A \<subseteq> B \<Longrightarrow> changes_only B m m'"
  by (auto simp: changes_only_def)

lemma changes_only_write: "{p..<p + length bs} \<subseteq> A \<Longrightarrow> changes_only A m (write_bytes p bs m)"
  by (auto simp: changes_only_def write_bytes_def)

lemma align_to_bounds:
  assumes "0 < align" and "x + align < 2 ^ 64"
  shows "x \<le> align_to x align" and "align_to x align < x + align" and "align dvd align_to x align"
proof -
  have y: "usize_sub (usize_add x align) 1 = x + align - 1"
    using assms by (simp add: usize_add_small usize_sub_small)
  have a: "align_to x align = (x + align - 1) - (x + align - 1) mod align"
    unfolding align_to_def y Let_def ..
  show "x \<le> align_to x align" using assms(1) a mod_less_divisor [OF assms(1), of "x + align - 1"] by linarith
  show "align_to x align < x + align" using assms(1) a by simp
  show "align dvd align_to x align" unfolding a by (rule dvd_minus_mod)
qed

lemma heap_alloc_spec:
  assumes ok: "heap_ok h" and al: "0 < align" "align \<le> 2 ^ 16" and szb: "sz \<le> 2 ^ 31"
  obtains (null) "heap_alloc sz align h = Ret (None, h)"
    | (block) p h' where "heap_alloc sz align h = Ret (Some p, h')" "heap_ok h'" "live_block h' p sz"
        "bump_next (bump h) + 8 \<le> p" "bump_end (bump h') = bump_end (bump h)"
        "bump_next (bump h') = p + sz + 8"
        "changes_only {bump_next (bump h)..<bump_next (bump h')} (ram h) (ram h')"
proof -
  let ?n = "bump_next (bump h)"
  let ?a = "align_to ?n align"
  have b: "?n \<le> bump_end (bump h)" "bump_end (bump h) + 2 ^ 32 \<le> 2 ^ 64" using ok by (simp_all add: heap_ok_def)
  have "?n + align < 2 ^ 64" using b al by simp
  note a = align_to_bounds [OF al(1) this]
  have p: "usize_add ?a 8 = ?a + 8" using a(2) b al by (intro usize_add_small) simp
  have s: "?a + 8 + sz < 2 ^ 64" using a(2) b al szb by simp
  have t: "usize_add (?a + 8 + sz) 8 = ?a + 8 + sz + 8" using a(2) b al szb by (intro usize_add_small) simp
  show thesis
  proof (cases "?a + 8 + sz + 8 > bump_end (bump h)")
    case True
    then show thesis using p s t by (intro null) (simp add: heap_alloc_def Let_def)
  next
    case False
    define h' where "h' = \<lparr>bump = (bump h)\<lparr>bump_next := ?a + 8 + sz + 8, allocations := usize_add (allocations (bump h)) 1\<rparr>,
      ram = write_bytes (?a + 8 + sz) canary_bytes (write_bytes ?a canary_bytes (ram h))\<rparr>"
    show thesis
    proof (rule block [of "?a + 8" h'])
      show "heap_alloc sz align h = Ret (Some (?a + 8), h')"
        using p s t False by (simp add: heap_alloc_def Let_def h'_def)
      show "heap_ok h'" using False b by (simp add: heap_ok_def h'_def)
      show "live_block h' (?a + 8) sz" by (simp add: live_block_def h'_def read_write_other)
      show "bump_next (bump h) + 8 \<le> ?a + 8" using a(1) by simp
      show "bump_end (bump h') = bump_end (bump h)" "bump_next (bump h') = ?a + 8 + sz + 8" by (simp_all add: h'_def)
      show "changes_only {bump_next (bump h)..<bump_next (bump h')} (ram h) (ram h')"
        unfolding h'_def using a(1)
        by (auto intro!: changes_only_trans [OF changes_only_write changes_only_write])
    qed
  qed
qed

lemma heap_alloc_zeroed_spec:
  assumes ok: "heap_ok h" and al: "0 < align" "align \<le> 2 ^ 16" and szb: "sz \<le> 2 ^ 31"
  obtains (null) "heap_alloc_zeroed sz align h = Ret (None, h)"
    | (block) p h' where "heap_alloc_zeroed sz align h = Ret (Some p, h')" "heap_ok h'" "live_block h' p sz"
        "bump_next (bump h) + 8 \<le> p" "bump_end (bump h') = bump_end (bump h)"
        "bump_next (bump h') = p + sz + 8"
        "changes_only {bump_next (bump h)..<bump_next (bump h')} (ram h) (ram h')"
        "read_bytes p sz (ram h') = replicate sz 0"
proof (cases rule: heap_alloc_spec [OF assms])
  case 1
  then show thesis by (intro null) (simp add: heap_alloc_zeroed_def)
next
  case (2 p h1)
  define h' where "h' = h1\<lparr>ram := write_bytes p (replicate sz 0) (ram h1)\<rparr>"
  have l: "8 \<le> p" using 2(3) by (simp add: live_block_def)
  show thesis
  proof (rule block [of p h'])
    show "heap_alloc_zeroed sz align h = Ret (Some p, h')" using 2(1) by (simp add: heap_alloc_zeroed_def h'_def)
    show "heap_ok h'" using 2(2) by (simp add: heap_ok_def h'_def)
    show "live_block h' p sz" using 2(3) l by (simp add: live_block_def h'_def read_write_other)
    show "bump_next (bump h) + 8 \<le> p" "bump_end (bump h') = bump_end (bump h)" "bump_next (bump h') = p + sz + 8"
      using 2 by (simp_all add: h'_def)
    show "changes_only {bump_next (bump h)..<bump_next (bump h')} (ram h) (ram h')"
      using 2(4,6) changes_only_trans [OF 2(7) changes_only_write [of p "replicate sz 0"]] by (simp add: h'_def)
    show "read_bytes p sz (ram h') = replicate sz 0" by (simp add: h'_def)
  qed
qed

section \<open>What a client relies on\<close>

text \<open>
  The contract of the heap: a block it hands out is fresh, cleared and framed by canaries, a live
  block stays live while nobody writes over its canaries, and releasing a live block succeeds. \<open>lo\<close>
  is the start and \<open>hi\<close> the end of the free part. A client can then move its block to a larger one:
  allocate, copy, release.
\<close>

locale block_heap =
  fixes ok :: "'h \<Rightarrow> bool" and live :: "'h \<Rightarrow> usize \<Rightarrow> usize \<Rightarrow> bool" and mem :: "'h \<Rightarrow> bmem"
    and set_mem :: "bmem \<Rightarrow> 'h \<Rightarrow> 'h" and lo :: "'h \<Rightarrow> usize" and hi :: "'h \<Rightarrow> usize"
    and alloc :: "usize \<Rightarrow> 'h \<Rightarrow> (usize option \<times> 'h) outcome" and dealloc :: "usize \<Rightarrow> usize \<Rightarrow> 'h \<Rightarrow> 'h outcome"
  assumes alloc_fresh: "ok h \<Longrightarrow> sz \<le> 2 ^ 31 \<Longrightarrow> alloc sz h = Ret (Some p, h1) \<Longrightarrow>
      ok h1 \<and> live h1 p sz \<and> lo h + 8 \<le> p \<and> hi h1 = hi h \<and> lo h1 = p + sz + 8 \<and>
      changes_only {lo h..<lo h1} (mem h) (mem h1) \<and> read_bytes p sz (mem h1) = replicate sz 0"
    and live_frame: "live h p n \<Longrightarrow> changes_only A (mem h) (mem h') \<Longrightarrow> lo h \<le> lo h' \<Longrightarrow>
      A \<inter> {p - 8..<p} = {} \<Longrightarrow> A \<inter> {p + n..<p + n + 8} = {} \<Longrightarrow> live h' p n"
    and live_below: "live h p n \<Longrightarrow> p + n + 8 \<le> lo h"
    and dealloc_live: "live h p n \<Longrightarrow> ok h \<Longrightarrow> \<exists>h'. dealloc p n h = Ret h' \<and> mem h' = mem h \<and> lo h' = lo h \<and> hi h' = hi h"
    and ok_bounds: "ok h \<Longrightarrow> lo h \<le> hi h"
    and ok_frame: "ok h \<Longrightarrow> lo h' = lo h \<Longrightarrow> hi h' = hi h \<Longrightarrow> ok h'"
    and set_mem: "mem (set_mem m h) = m" "lo (set_mem m h) = lo h" "hi (set_mem m h) = hi h"
begin

lemma live_same: "live h p n \<Longrightarrow> mem h' = mem h \<Longrightarrow> lo h' = lo h \<Longrightarrow> live h' p n"
  by (rule live_frame [of h p n "{}"]) auto

lemma regrow:
  assumes b: "live h q k" and ok: "ok h" and sz: "k \<le> sz" "sz \<le> 2 ^ 31" and al: "alloc sz h = Ret (Some p, h1)"
  obtains h2 where "dealloc q k (set_mem (write_bytes p (read_bytes q k (mem h1)) (mem h1)) h1) = Ret h2"
    "ok h2" "live h2 p sz" "lo h + 8 \<le> p" "hi h2 = hi h" "lo h2 = p + sz + 8" "changes_only {lo h..<hi h} (mem h) (mem h2)"
    "read_bytes p sz (mem h2) = read_bytes q k (mem h) @ replicate (sz - k) 0"
proof -
  have c: "ok h1" "live h1 p sz" "lo h + 8 \<le> p" "hi h1 = hi h" "lo h1 = p + sz + 8"
    "changes_only {lo h..<lo h1} (mem h) (mem h1)" "read_bytes p sz (mem h1) = replicate sz 0"
    using alloc_fresh [OF ok sz(2) al] by auto
  let ?m = "write_bytes p (read_bytes q k (mem h1)) (mem h1)"
  let ?h = "set_mem ?m h1"
  have q: "q + k + 8 \<le> lo h" by (rule live_below [OF b])
  have w: "changes_only {p..<p + sz} (mem h1) ?m" using sz(1) by (intro changes_only_write) auto
  have w': "changes_only {lo h..<lo h1} (mem h) ?m"
    by (rule changes_only_trans [OF c(6) changes_only_mono [OF w]]) (use c(3,5) in auto)
  have lq: "live ?h q k"
    using b by (rule live_frame) (use w' c(3,5) q in \<open>auto simp: set_mem disjoint_iff\<close>)
  have lp: "live ?h p sz"
    using c(2) by (rule live_frame) (use w in \<open>auto simp: set_mem disjoint_iff\<close>)
  obtain h2 where d: "dealloc q k ?h = Ret h2" "mem h2 = ?m" "lo h2 = lo h1" "hi h2 = hi h1"
    using dealloc_live [OF lq] ok_frame [OF c(1), of ?h] by (auto simp: set_mem)
  have same: "read_bytes q k (mem h1) = read_bytes q k (mem h)"
    using c(6) q by (intro read_bytes_cong) (auto simp: changes_only_def)
  have "read_bytes p sz ?m = read_bytes q k (mem h) @ replicate (sz - k) 0"
  proof (rule nth_equalityI)
    fix j assume "j < length (read_bytes p sz ?m)"
    then have j: "j < sz" by simp
    have "mem h1 (p + j) = 0" using arg_cong [OF c(7), of "\<lambda>xs. xs ! j"] j by (simp add: read_bytes_def)
    then show "read_bytes p sz ?m ! j = (read_bytes q k (mem h) @ replicate (sz - k) 0) ! j"
      using j sz(1) same by (simp add: nth_append read_bytes_def write_bytes_def)
  qed (use sz(1) in simp)
  moreover have "changes_only {lo h..<hi h} (mem h) ?m"
    using w' by (rule changes_only_mono) (use ok_bounds [OF c(1)] c(4) in auto)
  ultimately show thesis
    using that [OF d(1)] ok_frame [OF c(1), of h2] live_same [OF lp, of h2] c d by (simp add: set_mem)
qed

end

lemma live_block_ram:
  assumes "live_block h p n" "changes_only A (ram h) (ram h')" "bump_next (bump h) \<le> bump_next (bump h')"
    "A \<inter> {p - 8..<p} = {}" "A \<inter> {p + n..<p + n + 8} = {}"
  shows "live_block h' p n"
proof -
  have "ram h' (p - 8 + k) = ram h (p - 8 + k)" if "k < 8" for k
  proof -
    have "p - 8 + k \<in> {p - 8..<p}" using assms(1) that by (auto simp: live_block_def)
    then show ?thesis using assms(2,4) unfolding changes_only_def by blast
  qed
  moreover have "ram h' (p + n + k) = ram h (p + n + k)" if "k < 8" for k
    using assms(2,5) that by (auto simp: changes_only_def)
  ultimately show ?thesis
    using assms(1,3) read_bytes_cong [of 8 "ram h'" "p - 8" "ram h"] read_bytes_cong [of 8 "ram h'" "p + n" "ram h"]
    by (auto simp: live_block_def)
qed

lemma heap_dealloc_cases:
  obtains (hang) "heap_dealloc p n h = Hang"
    | (freed) h' where "heap_dealloc p n h = Ret h'" "ram h' = ram h" "bump_next (bump h') = bump_next (bump h)"
        "bump_end (bump h') = bump_end (bump h)"
  by (cases "heap_dealloc p n h") (auto simp: heap_dealloc_def Let_def split: if_splits)

lemma heap_ok_bump: "bump_next (bump h') = bump_next (bump h) \<Longrightarrow> bump_end (bump h') = bump_end (bump h) \<Longrightarrow> heap_ok h' = heap_ok h"
  by (simp add: heap_ok_def)

lemma heap_dealloc_live:
  assumes "live_block h p n" "heap_ok h"
  shows "heap_dealloc p n h = Ret (h\<lparr>bump := (bump h)\<lparr>allocations := usize_sub (allocations (bump h)) 1\<rparr>\<rparr>)"
proof -
  have "usize_sub p 8 = p - 8" "usize_add p n = p + n"
    using assms by (auto simp: live_block_def heap_ok_def intro!: usize_sub_small usize_add_small)
  then show ?thesis using assms(1) by (simp add: heap_dealloc_def live_block_def Let_def)
qed

lemma heap_alloc_block:
  assumes ok: "heap_ok h" and sz: "sz \<le> 2 ^ 31" and al: "heap_alloc_zeroed sz 16 h = Ret (Some p, h1)"
  shows "heap_ok h1 \<and> live_block h1 p sz \<and> bump_next (bump h) + 8 \<le> p \<and> bump_end (bump h1) = bump_end (bump h) \<and>
    bump_next (bump h1) = p + sz + 8 \<and> changes_only {bump_next (bump h)..<bump_next (bump h1)} (ram h) (ram h1) \<and>
    read_bytes p sz (ram h1) = replicate sz 0"
proof -
  have a: "(16 :: usize) \<le> 2 ^ 16" by simp
  show ?thesis by (cases rule: heap_alloc_zeroed_spec [OF ok zero_less_numeral a sz]) (use al in auto)
qed

interpretation kh: block_heap heap_ok live_block ram "\<lambda>m h. h\<lparr>ram := m\<rparr>" "\<lambda>h. bump_next (bump h)" "\<lambda>h. bump_end (bump h)"
  "\<lambda>sz. heap_alloc_zeroed sz 16" heap_dealloc
proof unfold_locales
  fix h :: Heap and sz p h1
  assume "heap_ok h" "sz \<le> 2 ^ 31" "heap_alloc_zeroed sz 16 h = Ret (Some p, h1)"
  then show "heap_ok h1 \<and> live_block h1 p sz \<and> bump_next (bump h) + 8 \<le> p \<and> bump_end (bump h1) = bump_end (bump h) \<and>
    bump_next (bump h1) = p + sz + 8 \<and> changes_only {bump_next (bump h)..<bump_next (bump h1)} (ram h) (ram h1) \<and>
    read_bytes p sz (ram h1) = replicate sz 0" by (rule heap_alloc_block)
next
  fix h h' :: Heap and p n A
  assume "live_block h p n" "changes_only A (ram h) (ram h')" "bump_next (bump h) \<le> bump_next (bump h')"
    "A \<inter> {p - 8..<p} = {}" "A \<inter> {p + n..<p + n + 8} = {}"
  then show "live_block h' p n" by (rule live_block_ram)
next
  fix h :: Heap and p n
  assume "live_block h p n" "heap_ok h"
  then show "\<exists>h'. heap_dealloc p n h = Ret h' \<and> ram h' = ram h \<and> bump_next (bump h') = bump_next (bump h) \<and>
    bump_end (bump h') = bump_end (bump h)" by (simp add: heap_dealloc_live)
qed (auto simp: live_block_def heap_ok_def)

end
