(* ===== verification/Wasm_Module.thy ===== *)
theory Wasm_Module
  imports Kernel_Heap
begin

unbundle bit_operations_syntax

text \<open>
  WebAssembly modules, kernel/src/wasm/mod.rs and kernel/src/wasm/hostcall.rs: the module
  table, the LEB128 decoder, the section parsers, the scan for the end of a block, loading,
  unloading and hot reload, the host functions and the system-call table. Fixed-size arrays
  are lists of their length. An index out of range is \<open>Panic\<close>, as in the source; shifts past the
  width of the type are masked, as in a release build. The linear memory of a module is a
  block of the kernel heap.
\<close>

section \<open>Constants and data\<close>

type_synonym i64 = "64 word"
type_synonym i32 = "32 word"

definition MAX_WASM_MODULES :: usize where "MAX_WASM_MODULES = 8"
definition MAX_WASM_SIZE :: usize where "MAX_WASM_SIZE = 4096"
definition MEM_PAGE_SIZE :: usize where "MEM_PAGE_SIZE = 65536"
definition MAX_MEM_PAGES :: usize where "MAX_MEM_PAGES = 4"
definition VALUE_STACK_SIZE :: usize where "VALUE_STACK_SIZE = 256"
definition CALL_STACK_SIZE :: usize where "CALL_STACK_SIZE = 32"
definition MAX_LOCALS :: usize where "MAX_LOCALS = 16"
definition WASM_CYCLE_BUDGET :: nat where "WASM_CYCLE_BUDGET = 10000"
definition MAX_FUNCTIONS :: usize where "MAX_FUNCTIONS = 64"
definition MAX_TYPES :: usize where "MAX_TYPES = 16"
definition MAX_EXPORTS :: usize where "MAX_EXPORTS = 32"
definition MAX_HOST_FUNCS :: usize where "MAX_HOST_FUNCS = 16"
definition MAX_IMPORTS :: usize where "MAX_IMPORTS = 16"

lemmas wasm_consts = MAX_WASM_MODULES_def MAX_WASM_SIZE_def MEM_PAGE_SIZE_def MAX_MEM_PAGES_def VALUE_STACK_SIZE_def
  CALL_STACK_SIZE_def MAX_LOCALS_def MAX_FUNCTIONS_def MAX_TYPES_def MAX_EXPORTS_def MAX_HOST_FUNCS_def MAX_IMPORTS_def

record WasmPerfStats =
  invocations :: u64
  total_cycles :: u64
  avg_cycles :: u64
  max_cycles :: u64
  syscall_forward_count :: u64

definition new_perf :: WasmPerfStats where
  "new_perf = \<lparr>invocations = 0, total_cycles = 0, avg_cycles = 0, max_cycles = 0, syscall_forward_count = 0\<rparr>"

definition record_invocation :: "u64 \<Rightarrow> WasmPerfStats \<Rightarrow> WasmPerfStats" where
  "record_invocation cycles s =
     (let inv = invocations s + 1; tot = total_cycles s + cycles
      in s\<lparr>invocations := inv, total_cycles := tot,
           max_cycles := (if cycles > max_cycles s then cycles else max_cycles s),
           avg_cycles := (if inv > 0 then tot div inv else 0)\<rparr>)"

definition reset_perf :: "WasmPerfStats \<Rightarrow> WasmPerfStats" where
  "reset_perf s = s\<lparr>invocations := 0, total_cycles := 0, avg_cycles := 0, max_cycles := 0, syscall_forward_count := 0\<rparr>"

record WasmModule =
  wname :: "u8 list"
  wpid :: u32
  bytecode :: "u8 list"
  bc_len :: usize
  loaded :: bool
  num_types :: usize
  type_params :: "u8 list"
  type_results :: "u8 list"
  num_imports :: usize
  import_names :: "u8 list list"
  import_types :: "u8 list"
  num_functions :: usize
  func_types :: "u8 list"
  code_offsets :: "usize list"
  code_sizes :: "usize list"
  num_locals :: "u8 list"
  num_exports :: usize
  export_names :: "u8 list list"
  export_funcs :: "u8 list"
  mem_ptr :: usize
  mem_pages :: usize
  mem_max_pages :: usize

definition empty_name :: "u8 list" where "empty_name = replicate 32 0"

definition clear_sections :: "WasmModule \<Rightarrow> WasmModule" where
  "clear_sections w = w\<lparr>
     num_types := 0, type_params := replicate MAX_TYPES 0, type_results := replicate MAX_TYPES 0,
     num_imports := 0, import_names := replicate MAX_IMPORTS empty_name, import_types := replicate MAX_IMPORTS 0,
     num_functions := 0, func_types := replicate MAX_FUNCTIONS 0, code_offsets := replicate MAX_FUNCTIONS 0,
     code_sizes := replicate MAX_FUNCTIONS 0, num_locals := replicate MAX_FUNCTIONS 0,
     num_exports := 0, export_names := replicate MAX_EXPORTS empty_name, export_funcs := replicate MAX_EXPORTS 0\<rparr>"

definition empty_module :: WasmModule where
  "empty_module = \<lparr>wname = empty_name, wpid = 0, bytecode = replicate MAX_WASM_SIZE 0, bc_len = 0, loaded = False,
     num_types = 0, type_params = replicate MAX_TYPES 0, type_results = replicate MAX_TYPES 0,
     num_imports = 0, import_names = replicate MAX_IMPORTS empty_name, import_types = replicate MAX_IMPORTS 0,
     num_functions = 0, func_types = replicate MAX_FUNCTIONS 0, code_offsets = replicate MAX_FUNCTIONS 0,
     code_sizes = replicate MAX_FUNCTIONS 0, num_locals = replicate MAX_FUNCTIONS 0,
     num_exports = 0, export_names = replicate MAX_EXPORTS empty_name, export_funcs = replicate MAX_EXPORTS 0,
     mem_ptr = 0, mem_pages = 0, mem_max_pages = 0\<rparr>"

text \<open>A host function is a pointer to native code: the address of that code.\<close>

type_synonym HostFunc = usize

record HostFuncEntry =
  hname :: "u8 list"
  hname_len :: u8
  hfunc :: "HostFunc option"

record WasmSyscallEntry =
  smodule_name :: "u8 list"
  sfunction_name :: "u8 list"
  syscall_nr :: usize

record WasmSys =
  modules :: "WasmModule list"
  wasm_count :: usize
  host_funcs :: "HostFuncEntry list"
  host_func_count :: usize
  perf_stats :: "WasmPerfStats list"
  syscall_table :: "WasmSyscallEntry list"
  heap :: Heap

text \<open>
  The native code an import ends in: the code at the address of a host function, and
  \<open>syscall_dispatch_wasm\<close> (syscall/mod.rs). It runs in the kernel, so it may do anything to the
  state, the kernel heap and the module table included, and it may panic or never come back.
\<close>

record Native =
  call_host :: "HostFunc \<Rightarrow> i64 list \<Rightarrow> WasmSys \<Rightarrow> (i64 \<times> WasmSys) outcome"
  call_syscall :: "usize \<Rightarrow> u64 list \<Rightarrow> u32 \<Rightarrow> WasmSys \<Rightarrow> (u64 \<times> WasmSys) outcome"

definition boot_wasm :: "Heap \<Rightarrow> WasmSys" where
  "boot_wasm h = \<lparr>modules = replicate MAX_WASM_MODULES empty_module, wasm_count = 0,
     host_funcs = replicate MAX_HOST_FUNCS \<lparr>hname = empty_name, hname_len = 0, hfunc = None\<rparr>, host_func_count = 0,
     perf_stats = replicate MAX_WASM_MODULES new_perf, syscall_table = [], heap = h\<rparr>"

definition upd_module :: "usize \<Rightarrow> (WasmModule \<Rightarrow> WasmModule) \<Rightarrow> WasmSys \<Rightarrow> WasmSys" where
  "upd_module i f s = s\<lparr>modules := (modules s)[i := f (modules s ! i)]\<rparr>"

section \<open>LEB128\<close>

function leb_u_loop :: "u8 list \<Rightarrow> usize \<Rightarrow> nat \<Rightarrow> u32 \<Rightarrow> (u32 \<times> usize) outcome" where
  "leb_u_loop buf offset shift r =
     (if offset < length buf then
        (let byte = buf ! offset; r' = r OR push_bit (shift mod 32) (ucast (byte AND 0x7F))
         in if byte AND 0x80 = 0 then Ret (r', offset + 1) else leb_u_loop buf (offset + 1) (shift + 7) r')
      else Panic)"
  by pat_completeness auto
termination by (relation "measure (\<lambda>(buf, offset, shift, r). length buf - offset)") auto

function leb_s_loop :: "u8 list \<Rightarrow> usize \<Rightarrow> nat \<Rightarrow> i32 \<Rightarrow> (i32 \<times> usize) outcome" where
  "leb_s_loop buf offset shift r =
     (if offset < length buf then
        (let byte = buf ! offset; r' = r OR push_bit (shift mod 32) (ucast (byte AND 0x7F)); sh = shift + 7
         in if byte AND 0x80 = 0
            then Ret (if sh < 32 \<and> byte AND 0x40 \<noteq> 0 then r' OR push_bit sh (- 1) else r', offset + 1)
            else leb_s_loop buf (offset + 1) sh r')
      else Panic)"
  by pat_completeness auto
termination by (relation "measure (\<lambda>(buf, offset, shift, r). length buf - offset)") auto

function leb_s64_loop :: "u8 list \<Rightarrow> usize \<Rightarrow> nat \<Rightarrow> i64 \<Rightarrow> (i64 \<times> usize) outcome" where
  "leb_s64_loop buf offset shift r =
     (if offset < length buf then
        (let byte = buf ! offset; r' = r OR push_bit (shift mod 64) (ucast (byte AND 0x7F)); sh = shift + 7
         in if byte AND 0x80 = 0
            then Ret (if sh < 64 \<and> byte AND 0x40 \<noteq> 0 then r' OR push_bit sh (- 1) else r', offset + 1)
            else leb_s64_loop buf (offset + 1) sh r')
      else Panic)"
  by pat_completeness auto
termination by (relation "measure (\<lambda>(buf, offset, shift, r). length buf - offset)") auto

declare leb_u_loop.simps [simp del] leb_s_loop.simps [simp del] leb_s64_loop.simps [simp del]

definition leb128_u :: "u8 list \<Rightarrow> usize \<Rightarrow> (u32 \<times> usize) outcome" where
  "leb128_u buf offset = leb_u_loop buf offset 0 0"

definition leb128_s :: "u8 list \<Rightarrow> usize \<Rightarrow> (i32 \<times> usize) outcome" where
  "leb128_s buf offset = leb_s_loop buf offset 0 0"

definition leb128_s64 :: "u8 list \<Rightarrow> usize \<Rightarrow> (i64 \<times> usize) outcome" where
  "leb128_s64 buf offset = leb_s64_loop buf offset 0 0"

text \<open>The result as a \<open>usize\<close>, as most callers use it.\<close>

definition leb128_size_u :: "u8 list \<Rightarrow> usize \<Rightarrow> (usize \<times> usize) outcome" where
  "leb128_size_u buf offset = obind (leb128_u buf offset) (\<lambda>(v, o'). Ret (unat v, o'))"

function skip_leb128 :: "u8 list \<Rightarrow> usize \<Rightarrow> usize" where
  "skip_leb128 bc pc = (if pc < length bc \<and> bc ! pc AND 0x80 \<noteq> 0 then skip_leb128 bc (pc + 1) else pc + 1)"
  by pat_completeness auto
termination by (relation "measure (\<lambda>(bc, pc). length bc - pc)") auto

declare skip_leb128.simps [simp del]

definition leb128_size :: "u8 list \<Rightarrow> usize \<Rightarrow> usize" where
  "leb128_size buf offset = skip_leb128 buf offset - offset"

definition leb128_s_size :: "u8 list \<Rightarrow> usize \<Rightarrow> usize" where
  "leb128_s_size buf offset = leb128_size buf offset"

definition byte_at :: "u8 list \<Rightarrow> usize \<Rightarrow> u8 outcome" where
  "byte_at bc i = (if i < length bc then Ret (bc ! i) else Panic)"

section \<open>Section parsers\<close>

text \<open>
  Each parser gets the whole 4096-byte array; reading past it panics. The loop counters bound
  the recursion: every iteration uses up one entry of the fixed table.
\<close>

function parse_types :: "u8 list \<Rightarrow> usize \<Rightarrow> usize \<Rightarrow> usize \<Rightarrow> WasmModule \<Rightarrow> WasmModule outcome" where
  "parse_types bc offset e count w =
     (if offset < e \<and> count < MAX_TYPES then
        obind (byte_at bc offset) (\<lambda>func_type.
          if func_type \<noteq> 0x60 then Ret (w\<lparr>num_types := count\<rparr>)
          else
            obind (leb128_u bc (offset + 1)) (\<lambda>(np, o1).
              let nparams = (ucast np :: u8) in
              obind (leb128_u bc (o1 + unat nparams)) (\<lambda>(nr, o2).
                let nresults = (ucast nr :: u8) in
                parse_types bc (o2 + unat nresults) e (count + 1)
                  (w\<lparr>type_params := (type_params w)[count := nparams],
                     type_results := (type_results w)[count := nresults]\<rparr>))))
      else Ret (w\<lparr>num_types := count\<rparr>))"
  by pat_completeness auto
termination by (relation "measure (\<lambda>(bc, offset, e, count, w). MAX_TYPES - count)") auto

definition parse_type_section :: "u8 list \<Rightarrow> usize \<Rightarrow> usize \<Rightarrow> WasmModule \<Rightarrow> WasmModule outcome" where
  "parse_type_section bc offset sz w = parse_types bc offset (offset + sz) 0 w"

text \<open>Copying a name of at most 31 bytes out of the bytecode into a 32-byte field.\<close>

definition copy_name :: "u8 list \<Rightarrow> usize \<Rightarrow> usize \<Rightarrow> u8 list \<Rightarrow> (u8 list) outcome" where
  "copy_name bc start len field =
     (let n = min len 31 in
      if start + n \<le> length bc \<or> n = 0
      then Ret (overwrite 0 (take n (drop start bc) @ [0]) field) else Panic)"

function parse_imports :: "u8 list \<Rightarrow> usize \<Rightarrow> usize \<Rightarrow> usize \<Rightarrow> WasmModule \<Rightarrow> WasmModule outcome" where
  "parse_imports bc offset e count w =
     (if offset < e \<and> count < MAX_IMPORTS then
        obind (leb128_size_u bc offset) (\<lambda>(mod_len, o1).
        obind (leb128_size_u bc (o1 + mod_len)) (\<lambda>(field_len, field_start).
        obind (copy_name bc field_start field_len (import_names w ! count)) (\<lambda>nm.
          let w1 = w\<lparr>import_names := (import_names w)[count := nm]\<rparr>; o2 = field_start + field_len in
          obind (byte_at bc o2) (\<lambda>kind.
            if kind = 0 then
              obind (leb128_u bc (o2 + 1)) (\<lambda>(type_idx, o3).
                parse_imports bc o3 e (count + 1) (w1\<lparr>import_types := (import_types w1)[count := ucast type_idx]\<rparr>))
            else parse_imports bc (o2 + 1) e (count + 1) w1))))
      else Ret (w\<lparr>num_imports := count\<rparr>))"
  by pat_completeness auto
termination by (relation "measure (\<lambda>(bc, offset, e, count, w). MAX_IMPORTS - count)") auto

definition parse_import_section :: "u8 list \<Rightarrow> usize \<Rightarrow> usize \<Rightarrow> WasmModule \<Rightarrow> WasmModule outcome" where
  "parse_import_section bc offset sz w = parse_imports bc offset (offset + sz) 0 w"

function parse_functions :: "u8 list \<Rightarrow> usize \<Rightarrow> usize \<Rightarrow> usize \<Rightarrow> WasmModule \<Rightarrow> WasmModule outcome" where
  "parse_functions bc offset e count w =
     (if offset < e \<and> count < MAX_FUNCTIONS then
        obind (leb128_u bc offset) (\<lambda>(type_idx, o1).
          parse_functions bc o1 e (count + 1) (w\<lparr>func_types := (func_types w)[count := ucast type_idx]\<rparr>))
      else Ret (w\<lparr>num_functions := count\<rparr>))"
  by pat_completeness auto
termination by (relation "measure (\<lambda>(bc, offset, e, count, w). MAX_FUNCTIONS - count)") auto

definition parse_function_section :: "u8 list \<Rightarrow> usize \<Rightarrow> usize \<Rightarrow> WasmModule \<Rightarrow> WasmModule outcome" where
  "parse_function_section bc offset sz w = parse_functions bc offset (offset + sz) 0 w"

function parse_exports :: "u8 list \<Rightarrow> usize \<Rightarrow> usize \<Rightarrow> usize \<Rightarrow> WasmModule \<Rightarrow> WasmModule outcome" where
  "parse_exports bc offset e count w =
     (if offset < e \<and> count < MAX_EXPORTS then
        obind (leb128_size_u bc offset) (\<lambda>(name_len, name_start).
        obind (copy_name bc name_start name_len (export_names w ! count)) (\<lambda>nm.
        obind (byte_at bc (name_start + name_len)) (\<lambda>_.
        obind (leb128_u bc (name_start + name_len + 1)) (\<lambda>(idx, o1).
          parse_exports bc o1 e (count + 1)
            (w\<lparr>export_names := (export_names w)[count := nm], export_funcs := (export_funcs w)[count := ucast idx]\<rparr>)))))
      else Ret (w\<lparr>num_exports := count\<rparr>))"
  by pat_completeness auto
termination by (relation "measure (\<lambda>(bc, offset, e, count, w). MAX_EXPORTS - count)") auto

definition parse_export_section :: "u8 list \<Rightarrow> usize \<Rightarrow> usize \<Rightarrow> WasmModule \<Rightarrow> WasmModule outcome" where
  "parse_export_section bc offset sz w = parse_exports bc offset (offset + sz) 0 w"

text \<open>The local declarations of a function body: their number saturates at 255.\<close>

fun parse_locals :: "u8 list \<Rightarrow> nat \<Rightarrow> usize \<Rightarrow> u8 \<Rightarrow> (u8 \<times> usize) outcome" where
  "parse_locals bc 0 offset tot = Ret (tot, offset)"
| "parse_locals bc (Suc n) offset tot =
     obind (leb128_u bc offset) (\<lambda>(count, o1).
     obind (byte_at bc o1) (\<lambda>_.
       parse_locals bc n (o1 + 1) (of_nat (min 255 (unat tot + unat (ucast count :: u8))))))"

function parse_codes :: "u8 list \<Rightarrow> usize \<Rightarrow> usize \<Rightarrow> usize \<Rightarrow> WasmModule \<Rightarrow> WasmModule outcome" where
  "parse_codes bc offset e func_idx w =
     (if offset < e \<and> func_idx < MAX_FUNCTIONS then
        obind (leb128_size_u bc offset) (\<lambda>(body_size, body_start).
        obind (leb128_u bc body_start) (\<lambda>(decls, o1).
        obind (parse_locals bc (unat decls) o1 0) (\<lambda>(total_locals, code_start).
          let body_end = min e (body_start + body_size) in
          parse_codes bc body_end e (func_idx + 1)
            (w\<lparr>code_offsets := (code_offsets w)[func_idx := code_start],
               num_locals := (num_locals w)[func_idx := total_locals],
               code_sizes := (code_sizes w)[func_idx := usize_sub body_end code_start]\<rparr>))))
      else Ret w)"
  by pat_completeness auto
termination by (relation "measure (\<lambda>(bc, offset, e, func_idx, w). MAX_FUNCTIONS - func_idx)") auto

definition parse_code_section :: "u8 list \<Rightarrow> usize \<Rightarrow> usize \<Rightarrow> WasmModule \<Rightarrow> WasmModule outcome" where
  "parse_code_section bc offset sz w = parse_codes bc offset (offset + sz) 0 w"

definition parse_section :: "u8 \<Rightarrow> u8 list \<Rightarrow> usize \<Rightarrow> usize \<Rightarrow> WasmModule \<Rightarrow> WasmModule outcome" where
  "parse_section section_id bc offset sz w =
     (if section_id = 1 then parse_type_section bc offset sz w
      else if section_id = 2 then parse_import_section bc offset sz w
      else if section_id = 3 then parse_function_section bc offset sz w
      else if section_id = 7 then parse_export_section bc offset sz w
      else if section_id = 10 then parse_code_section bc offset sz w
      else Ret w)"

lemma leb_u_loop_grows: "leb_u_loop buf offset shift r = Ret (v, o') \<Longrightarrow> offset < o'"
proof (induction buf offset shift r rule: leb_u_loop.induct)
  case (1 buf offset shift r)
  from "1.prems" show ?case
    by (subst (asm) leb_u_loop.simps) (auto simp: Let_def split: if_splits dest!: "1.IH" [OF _ refl refl])
qed

lemma leb128_u_grows: "leb128_u buf offset = Ret (v, o') \<Longrightarrow> offset < o'"
  by (simp add: leb128_u_def leb_u_loop_grows)

lemma leb128_size_u_grows: "leb128_size_u buf offset = Ret (v, o') \<Longrightarrow> offset < o'"
  by (auto simp: leb128_size_u_def dest: leb128_u_grows)

text \<open>
  The loop over the sections. The guard on the new offset always holds, because the size of a
  section is decoded from at least one byte; it makes the recursion well-founded.
\<close>

function parse_sections :: "u8 list \<Rightarrow> usize \<Rightarrow> usize \<Rightarrow> WasmModule \<Rightarrow> WasmModule outcome" where
  "parse_sections bc len offset w =
     (if offset < len then
        obind (byte_at bc offset) (\<lambda>section_id.
          (case leb128_size_u bc (offset + 1) of
             Ret (section_size, o1) \<Rightarrow>
               obind (parse_section section_id bc o1 section_size w) (\<lambda>w1.
                 if offset < o1 + section_size then parse_sections bc len (o1 + section_size) w1 else Hang)
           | Panic \<Rightarrow> Panic
           | Hang \<Rightarrow> Hang))
      else Ret w)"
  by pat_completeness auto
termination by (relation "measure (\<lambda>(bc, len, offset, w). len - offset)") auto

definition parse_module :: "WasmModule \<Rightarrow> WasmModule outcome" where
  "parse_module w = parse_sections (bytecode w) (bc_len w) 8 w"

declare parse_types.simps [simp del] parse_imports.simps [simp del] parse_functions.simps [simp del]
  parse_exports.simps [simp del] parse_codes.simps [simp del] parse_sections.simps [simp del]

section \<open>Scanning for the end of a block\<close>

text \<open>What the scan does at one opcode: the change of the nesting depth and the next position.\<close>

definition scan_next :: "u8 list \<Rightarrow> usize \<Rightarrow> usize" where
  "scan_next bc pc =
     (let c = bc ! pc in
      if c \<in> {0x02, 0x03, 0x04} then pc + 2
      else if c \<in> {0x0C, 0x0D, 0x10, 0x20, 0x21, 0x41, 0x42} then skip_leb128 bc (pc + 1)
      else if c \<in> {0x28, 0x29} \<or> 0x2C \<le> c \<and> c \<le> 0x37 \<or> 0x3A \<le> c \<and> c \<le> 0x3E
      then skip_leb128 bc (skip_leb128 bc (pc + 1))
      else if c \<in> {0x3F, 0x40} then pc + 2
      else pc + 1)"

lemma skip_leb128_grows: "pc < skip_leb128 bc pc"
proof (induction bc pc rule: skip_leb128.induct)
  case (1 bc pc)
  then show ?case by (subst skip_leb128.simps) force
qed

lemma scan_next_grows: "pc < scan_next bc pc"
  unfolding scan_next_def Let_def
  using skip_leb128_grows [of "pc + 1" bc] skip_leb128_grows [of "skip_leb128 bc (pc + 1)" bc] by auto

function find_end_loop :: "u8 list \<Rightarrow> usize \<Rightarrow> nat \<Rightarrow> usize result" where
  "find_end_loop bc pc depth =
     (if pc < length bc then
        (if bc ! pc = 0x0B then
           (if depth = 1 then Inr (pc + 1) else find_end_loop bc (pc + 1) (depth - 1))
         else find_end_loop bc (scan_next bc pc) (if bc ! pc \<in> {0x02, 0x03, 0x04} then depth + 1 else depth))
      else Inl ''find_end: end not found'')"
  by pat_completeness auto
termination
  by (relation "measure (\<lambda>(bc, pc, depth). length bc - pc)") (auto intro!: diff_less_mono2 scan_next_grows)

definition find_matching_end :: "u8 list \<Rightarrow> usize \<Rightarrow> usize result" where
  "find_matching_end bc pc =
     (if pc \<ge> length bc then Inl ''find_end: pc OOB'' else find_end_loop bc (pc + 2) 1)"

function find_if_loop :: "u8 list \<Rightarrow> usize \<Rightarrow> nat \<Rightarrow> usize \<Rightarrow> (usize \<times> usize) result" where
  "find_if_loop bc pc depth else_pc =
     (if pc < length bc then
        (if bc ! pc = 0x05 then
           find_if_loop bc (pc + 1) depth (if depth = 1 \<and> else_pc = 0 then pc else else_pc)
         else if bc ! pc = 0x0B then
           (if depth = 1 then Inr (else_pc, pc + 1) else find_if_loop bc (pc + 1) (depth - 1) else_pc)
         else find_if_loop bc (scan_next bc pc) (if bc ! pc \<in> {0x02, 0x03, 0x04} then depth + 1 else depth) else_pc)
      else Inl ''if_else_end: end not found'')"
  by pat_completeness auto
termination
  by (relation "measure (\<lambda>(bc, pc, depth, else_pc). length bc - pc)") (auto intro!: diff_less_mono2 scan_next_grows)

definition find_if_else_end :: "u8 list \<Rightarrow> usize \<Rightarrow> (usize \<times> usize) result" where
  "find_if_else_end bc pc =
     (if pc \<ge> length bc then Inl ''if_else_end: pc OOB'' else find_if_loop bc (pc + 2) 1 0)"

declare find_end_loop.simps [simp del] find_if_loop.simps [simp del]

section \<open>Loading and unloading\<close>

definition wasm_validate :: "u8 list \<Rightarrow> bool" where
  "wasm_validate bc \<longleftrightarrow> length bc \<ge> 8 \<and> take 8 bc = [0x00, 0x61, 0x73, 0x6D, 0x01, 0x00, 0x00, 0x00]"

definition alloc_module_memory :: "usize \<Rightarrow> WasmSys \<Rightarrow> (bool \<times> WasmSys) outcome" where
  "alloc_module_memory i s =
     obind (heap_alloc_zeroed MEM_PAGE_SIZE 16 (heap s)) (\<lambda>(r, h).
       let s1 = s\<lparr>heap := h\<rparr> in
       case r of
         None \<Rightarrow> Ret (False, s1)
       | Some p \<Rightarrow> Ret (True, upd_module i (\<lambda>w. w\<lparr>mem_ptr := p, mem_pages := 1, mem_max_pages := MAX_MEM_PAGES\<rparr>) s1))"

definition free_module_memory :: "usize \<Rightarrow> WasmSys \<Rightarrow> WasmSys outcome" where
  "free_module_memory i s =
     (let w = modules s ! i in
      if mem_ptr w \<noteq> 0 then
        obind (heap_dealloc (mem_ptr w) MEM_PAGE_SIZE (heap s)) (\<lambda>h.
          Ret (upd_module i (\<lambda>w. w\<lparr>mem_ptr := 0, mem_pages := 0\<rparr>) (s\<lparr>heap := h\<rparr>)))
      else Ret s)"

definition set_name :: "u8 list \<Rightarrow> u8 list \<Rightarrow> u8 list" where
  "set_name nm field = overwrite 0 (take 31 nm @ [0]) field"

definition wasm_load :: "u32 \<Rightarrow> u8 list \<Rightarrow> u8 list \<Rightarrow> WasmSys \<Rightarrow> (usize option \<times> WasmSys) outcome" where
  "wasm_load pid nm bc s =
     (if \<not> wasm_validate bc then Ret (None, s)
      else if wasm_count s \<ge> MAX_WASM_MODULES then Ret (None, s)
      else
        (let i = wasm_count s; w = modules s ! i;
             w1 = w\<lparr>wname := set_name nm (wname w), bytecode := overwrite 0 (take MAX_WASM_SIZE bc) (bytecode w),
                    bc_len := min (length bc) MAX_WASM_SIZE, wpid := pid, loaded := True\<rparr>
         in obind (parse_module w1) (\<lambda>w2.
            obind (alloc_module_memory i (upd_module i (\<lambda>_. w2) s)) (\<lambda>(ok, s1).
              if \<not> ok then Ret (None, upd_module i (\<lambda>w. w\<lparr>loaded := False\<rparr>) s1)
              else Ret (Some i, s1\<lparr>wasm_count := wasm_count s1 + 1\<rparr>)))))"

definition is_module_loaded :: "usize \<Rightarrow> WasmSys \<Rightarrow> bool" where
  "is_module_loaded i s \<longleftrightarrow> i < MAX_WASM_MODULES \<and> loaded (modules s ! i)"

definition wasm_unload :: "usize \<Rightarrow> WasmSys \<Rightarrow> (bool \<times> WasmSys) outcome" where
  "wasm_unload i s =
     (if i \<ge> MAX_WASM_MODULES \<or> \<not> loaded (modules s ! i) then Ret (False, s)
      else obind (free_module_memory i s) (\<lambda>s1. Ret (True, upd_module i (\<lambda>w. w\<lparr>loaded := False, bc_len := 0\<rparr>) s1)))"

text \<open>One 36-byte record per loaded module, as long as the buffer has room.\<close>

definition list_record :: "WasmModule \<Rightarrow> u8 list" where
  "list_record w = to_le 4 (wpid w) @ wname w"

definition wasm_list :: "u8 list \<Rightarrow> WasmSys \<Rightarrow> usize \<times> u8 list" where
  "wasm_list buf s =
     fold (\<lambda>i (pos, b). if loaded (modules s ! i) \<and> pos + 36 \<le> length b
                        then (pos + 36, overwrite pos (list_record (modules s ! i)) b) else (pos, b))
       [0..<wasm_count s] (0, buf)"

definition wasm_register_host_func :: "u8 list \<Rightarrow> HostFunc \<Rightarrow> WasmSys \<Rightarrow> bool \<times> WasmSys" where
  "wasm_register_host_func nm f s =
     (if host_func_count s \<ge> MAX_HOST_FUNCS then (False, s)
      else
        (let k = host_func_count s; e = host_funcs s ! k in
         (True, s\<lparr>host_funcs := (host_funcs s)[k := \<lparr>hname = set_name nm (hname e),
                    hname_len = of_nat (min (length nm) 31), hfunc = Some f\<rparr>],
                  host_func_count := k + 1\<rparr>)))"

text \<open>The bounds check adds with wrap-around; a range that wraps is then caught by the slice index, which panics.\<close>

definition wasm_memory_read :: "usize \<Rightarrow> usize \<Rightarrow> usize \<Rightarrow> WasmSys \<Rightarrow> (u8 list) result outcome" where
  "wasm_memory_read i off len s =
     (if i \<ge> MAX_WASM_MODULES \<or> \<not> loaded (modules s ! i) then Ret (Inl ''invalid module'')
      else
        (let w = modules s ! i in
         if usize_add off len > mem_pages w * MEM_PAGE_SIZE then Ret (Inl ''memory read out of bounds'')
         else if mem_ptr w = 0 then Ret (Inl ''no memory allocated'')
         else if usize_add off len < off then Panic
         else Ret (Inr (read_bytes (mem_ptr w + off) len (ram (heap s))))))"

definition set_ram :: "bmem \<Rightarrow> WasmSys \<Rightarrow> WasmSys" where
  "set_ram m s = s\<lparr>heap := (heap s)\<lparr>ram := m\<rparr>\<rparr>"

definition wasm_memory_write :: "usize \<Rightarrow> usize \<Rightarrow> u8 list \<Rightarrow> WasmSys \<Rightarrow> (unit result \<times> WasmSys) outcome" where
  "wasm_memory_write i off bs s =
     (if i \<ge> MAX_WASM_MODULES \<or> \<not> loaded (modules s ! i) then Ret (Inl ''invalid module'', s)
      else
        (let w = modules s ! i in
         if usize_add off (length bs) > mem_pages w * MEM_PAGE_SIZE then Ret (Inl ''memory write out of bounds'', s)
         else if mem_ptr w = 0 then Ret (Inl ''no memory allocated'', s)
         else if usize_add off (length bs) < off then Panic
         else Ret (Inr (), set_ram (write_bytes (mem_ptr w + off) bs (ram (heap s))) s)))"

text \<open>
  Whether an export name (a 32-byte field, zero-terminated) equals the name asked for. The
  comparison stops at a zero byte of the name; a name of more than 32 bytes that agrees with
  the field so far indexes past it.
\<close>

fun name_prefix :: "u8 list \<Rightarrow> u8 list \<Rightarrow> bool outcome" where
  "name_prefix ename [] = Ret True"
| "name_prefix [] (c # cs) = Panic"
| "name_prefix (e # es) (c # cs) =
     (if e \<noteq> c then Ret False else if c = 0 then Ret True else name_prefix es cs)"

definition name_longer :: "u8 list \<Rightarrow> u8 list \<Rightarrow> bool" where
  "name_longer ename nm \<longleftrightarrow> length nm < 32 \<and> ename ! length nm \<noteq> 0"

fun find_export_from :: "(u8 list \<times> u8) list \<Rightarrow> u8 list \<Rightarrow> u8 option outcome" where
  "find_export_from [] nm = Ret None"
| "find_export_from ((ename, f) # es) nm =
     obind (name_prefix ename nm) (\<lambda>m.
       if m \<and> \<not> name_longer ename nm then Ret (Some f) else find_export_from es nm)"

definition find_export :: "WasmModule \<Rightarrow> u8 list \<Rightarrow> u8 option outcome" where
  "find_export w nm = find_export_from (take (num_exports w) (zip (export_names w) (export_funcs w))) nm"

definition wasm_hot_reload :: "usize \<Rightarrow> u8 list \<Rightarrow> WasmSys \<Rightarrow> (unit result \<times> WasmSys) outcome" where
  "wasm_hot_reload i bc s =
     (if i \<ge> MAX_WASM_MODULES \<or> \<not> loaded (modules s ! i) then Ret (Inl ''invalid module id'', s)
      else if \<not> wasm_validate bc then Ret (Inl ''invalid magic/version in new bytecode'', s)
      else if length bc > MAX_WASM_SIZE then Ret (Inl ''new bytecode exceeds maximum size'', s)
      else
        (let w = clear_sections (modules s ! i);
             w1 = w\<lparr>bytecode := overwrite 0 bc (bytecode w), bc_len := length bc\<rparr>
         in obind (parse_module w1) (\<lambda>w2.
            Ret (Inr (), (upd_module i (\<lambda>_. w2) s)\<lparr>perf_stats := (perf_stats s)[i := reset_perf (perf_stats s ! i)]\<rparr>))))"

definition wasm_perf_stats :: "usize \<Rightarrow> WasmSys \<Rightarrow> WasmPerfStats option" where
  "wasm_perf_stats i s =
     (if i \<ge> MAX_WASM_MODULES \<or> \<not> loaded (modules s ! i) then None else Some (perf_stats s ! i))"

definition wasm_reset_perf_stats :: "usize \<Rightarrow> WasmSys \<Rightarrow> bool \<times> WasmSys" where
  "wasm_reset_perf_stats i s =
     (if i \<ge> MAX_WASM_MODULES \<or> \<not> loaded (modules s ! i) then (False, s)
      else (True, s\<lparr>perf_stats := (perf_stats s)[i := reset_perf (perf_stats s ! i)]\<rparr>))"

section \<open>The system-call table\<close>

definition MAX_SYSCALL_ENTRIES :: usize where "MAX_SYSCALL_ENTRIES = 256"

text \<open>The entries below \<open>count\<close> are the list \<open>syscall_table\<close>; the others are never read.\<close>

definition table_register :: "u8 list \<Rightarrow> u8 list \<Rightarrow> usize \<Rightarrow> WasmSyscallEntry list \<Rightarrow> WasmSyscallEntry list" where
  "table_register m f nr t =
     (if length t \<ge> MAX_SYSCALL_ENTRIES then t
      else t @ [\<lparr>smodule_name = set_name m empty_name, sfunction_name = set_name f empty_name, syscall_nr = nr\<rparr>])"

fun name_matches_from :: "u8 list \<Rightarrow> u8 list \<Rightarrow> bool" where
  "name_matches_from stored [] = True"
| "name_matches_from [] (c # cs) = True"
| "name_matches_from (e # es) (c # cs) = (if e \<noteq> c then False else if e = 0 then False else name_matches_from es cs)"

definition name_matches :: "u8 list \<Rightarrow> u8 list \<Rightarrow> bool" where
  "name_matches stored inp =
     (if inp = [] \<or> hd inp = 0 then hd stored = 0 else name_matches_from stored inp)"

definition table_lookup :: "WasmSyscallEntry list \<Rightarrow> u8 list \<Rightarrow> u8 list \<Rightarrow> usize option" where
  "table_lookup t m f =
     map_option syscall_nr (find (\<lambda>e. name_matches (smodule_name e) m \<and> name_matches (sfunction_name e) f) t)"

definition lookup_by_func :: "WasmSyscallEntry list \<Rightarrow> u8 list \<Rightarrow> usize option" where
  "lookup_by_func t f = map_option syscall_nr (find (\<lambda>e. name_matches (sfunction_name e) f) t)"

definition name_to_slice :: "u8 list \<Rightarrow> u8 list" where
  "name_to_slice nm = takeWhile (\<lambda>b. b \<noteq> 0) nm"

text \<open>\<open>dispatch_syscall\<close>: at most six arguments, padded with zero.\<close>

definition dispatch_syscall :: "Native \<Rightarrow> usize \<Rightarrow> i64 list \<Rightarrow> u32 \<Rightarrow> WasmSys \<Rightarrow> (i64 \<times> WasmSys) outcome" where
  "dispatch_syscall N nr args pid s = call_syscall N nr (take 6 args @ replicate (6 - length args) 0) pid s"

text \<open>The aliases registered at boot, with the numbers of kernel/src/syscall/mod.rs.\<close>

definition ascii :: "string \<Rightarrow> u8 list" where
  "ascii s = map (\<lambda>c. of_nat (of_char c)) s"

definition default_syscalls :: "(string \<times> string \<times> usize) list" where
  "default_syscalls =
     [(''tros:io'', ''fd_read'', 51), (''tros:io'', ''fd_write'', 52), (''tros:io'', ''fd_close'', 53),
      (''tros:io'', ''fd_seek'', 55), (''tros:io'', ''fd_open'', 50), (''tros:io'', ''fd_stat'', 54),
      (''tros:io'', ''fd_dup'', 56), (''tros:io'', ''fd_sync'', 121), (''tros:io'', ''fd_truncate'', 82),
      (''tros:io'', ''fd_ioctl'', 74), (''tros:io'', ''fd_fcntl'', 73), (''tros:fs'', ''getcwd'', 57),
      (''tros:fs'', ''chdir'', 80), (''tros:fs'', ''mkdir'', 76), (''tros:fs'', ''rmdir'', 77),
      (''tros:fs'', ''unlink'', 78), (''tros:fs'', ''rename'', 79), (''tros:fs'', ''access'', 81),
      (''tros:fs'', ''getdents'', 75), (''tros:fs'', ''chmod'', 62), (''tros:proc'', ''exit'', 0),
      (''tros:proc'', ''getpid'', 5), (''tros:proc'', ''getppid'', 65), (''tros:proc'', ''gettid'', 66),
      (''tros:proc'', ''spawn'', 3), (''tros:proc'', ''fork'', 4), (''tros:proc'', ''exec'', 7),
      (''tros:proc'', ''kill'', 42), (''tros:proc'', ''waitpid'', 64), (''tros:proc'', ''signal'', 63),
      (''tros:proc'', ''yield'', 6), (''tros:mem'', ''mmap'', 83), (''tros:mem'', ''munmap'', 84),
      (''tros:mem'', ''mprotect'', 85), (''tros:mem'', ''brk'', 86), (''tros:mem'', ''shm_map'', 25),
      (''tros:clock'', ''time_get'', 68), (''tros:clock'', ''nanosleep'', 67), (''tros:clock'', ''uptime'', 46),
      (''tros:net'', ''socket'', 90), (''tros:net'', ''bind'', 91), (''tros:net'', ''listen'', 92),
      (''tros:net'', ''accept'', 93), (''tros:net'', ''connect'', 94), (''tros:net'', ''sendto'', 95),
      (''tros:net'', ''recvfrom'', 96), (''tros:ipc'', ''ep_create'', 10), (''tros:ipc'', ''send'', 11),
      (''tros:ipc'', ''recv'', 12), (''tros:ipc'', ''call'', 13), (''tros:ipc'', ''reply'', 14),
      (''tros:cap'', ''mint'', 30), (''tros:cap'', ''copy_cap'', 31), (''tros:cap'', ''move_cap'', 32),
      (''tros:cap'', ''delete_cap'', 33), (''tros:sys'', ''sysinfo'', 71), (''tros:sys'', ''getuid'', 60),
      (''tros:sys'', ''setuid'', 61), (''tros:sys'', ''umask'', 69), (''tros:sys'', ''reboot'', 122),
      (''tros:sys'', ''proclist'', 41), (''tros:sys'', ''meminfo'', 43), (''tros:res'', ''times'', 116),
      (''tros:res'', ''getrusage'', 117), (''tros:ns'', ''unshare'', 110), (''tros:ns'', ''sethostname'', 111),
      (''tros:ns'', ''gethostname'', 112), (''tros:aio'', ''pipe'', 72), (''tros:aio'', ''epoll_create'', 100),
      (''tros:aio'', ''epoll_ctl'', 101), (''tros:aio'', ''epoll_wait'', 102), (''tros:aio'', ''io_uring_setup'', 140)]"

definition register_default_set :: "WasmSyscallEntry list \<Rightarrow> WasmSyscallEntry list" where
  "register_default_set t = fold (\<lambda>(m, f, nr). table_register (ascii m) (ascii f) nr) default_syscalls t"

end
