(* ===== verification/Wasm_Vm.thy ===== *)
theory Wasm_Vm
  imports Wasm_Module "HOL-Library.Signed_Division"
begin

unbundle bit_operations_syntax

text \<open>
  The WebAssembly interpreter, \<open>wasm_execute\<close> of kernel/src/wasm/mod.rs: the three stacks, one
  definition per group of opcodes, and the loop with its cycle budget. A value is a 64-bit word;
  \<open>as i32\<close> is \<open>ucast\<close> to 32 bits, widening is \<open>scast\<close> or \<open>ucast\<close> as the cast of the source is signed
  or not. The native code behind the imports is the argument \<open>N\<close>. Every array of the source is
  indexed through \<open>at_idx\<close>, \<open>set_idx\<close> or \<open>with_range\<close>, which panic outside the array, and the stack
  pointers are lowered with wrap-around, so the guards of the source are what keeps the
  interpreter from panicking.
\<close>

section \<open>The machine\<close>

record Frame =
  fr_func :: usize
  fr_pc :: usize
  fr_sp :: usize
  locals :: "i64 list"

record CtrlFrame =
  kind :: u8
  pc_cont :: usize
  ctrl_sp :: usize

definition CTRL_FUNC :: u8 where "CTRL_FUNC = 0"
definition CTRL_BLOCK :: u8 where "CTRL_BLOCK = 1"
definition CTRL_LOOP :: u8 where "CTRL_LOOP = 2"
definition CTRL_IF :: u8 where "CTRL_IF = 3"

text \<open>\<open>vm_imports\<close> is the local \<open>num_imports\<close>, read once before the loop.\<close>

record WasmVm =
  value_stack :: "i64 list"
  vsp :: usize
  call_stack :: "Frame list"
  vfp :: usize
  ctrl_stack :: "CtrlFrame list"
  vcp :: usize
  vm_imports :: usize
  wsys :: WasmSys

text \<open>
  What one iteration of the loop does: go on, leave the loop, return an error, panic, or stop the hart.
\<close>

datatype wstep = Go WasmVm | Stop WasmVm | Trap string WasmSys | Crash | Wedge

definition the_module :: "usize \<Rightarrow> WasmVm \<Rightarrow> WasmModule" where
  "the_module i v = modules (wsys v) ! i"

definition the_code :: "usize \<Rightarrow> WasmVm \<Rightarrow> u8 list" where
  "the_code i v = take (bc_len (the_module i v)) (bytecode (the_module i v))"

text \<open>Reading and writing an array at an index, and reading a range of it.\<close>

definition at_idx :: "'a list \<Rightarrow> usize \<Rightarrow> ('a \<Rightarrow> wstep) \<Rightarrow> wstep" where
  "at_idx xs k f = (if k < length xs then f (xs ! k) else Crash)"

definition set_idx :: "'a list \<Rightarrow> usize \<Rightarrow> 'a \<Rightarrow> ('a list \<Rightarrow> wstep) \<Rightarrow> wstep" where
  "set_idx xs k x f = (if k < length xs then f (xs[k := x]) else Crash)"

definition with_range :: "'a list \<Rightarrow> usize \<Rightarrow> usize \<Rightarrow> ('a list \<Rightarrow> wstep) \<Rightarrow> wstep" where
  "with_range xs k n f = (if n = 0 \<or> k + n \<le> length xs then f (take n (drop k xs)) else Crash)"

text \<open>The current frame, and the top of the value stack: \<open>value_stack[sp - k]\<close>.\<close>

definition with_frame :: "WasmVm \<Rightarrow> (Frame \<Rightarrow> wstep) \<Rightarrow> wstep" where
  "with_frame v f = at_idx (call_stack v) (vfp v) f"

definition put_frame :: "Frame \<Rightarrow> WasmVm \<Rightarrow> (WasmVm \<Rightarrow> wstep) \<Rightarrow> wstep" where
  "put_frame fr v f = set_idx (call_stack v) (vfp v) fr (\<lambda>cs. f (v\<lparr>call_stack := cs\<rparr>))"

definition with_top :: "usize \<Rightarrow> WasmVm \<Rightarrow> (i64 \<Rightarrow> wstep) \<Rightarrow> wstep" where
  "with_top k v f = at_idx (value_stack v) (usize_sub (vsp v) k) f"

definition drop_top :: "usize \<Rightarrow> WasmVm \<Rightarrow> WasmVm" where
  "drop_top k v = v\<lparr>vsp := usize_sub (vsp v) k\<rparr>"

text \<open>Writing at the stack pointer and raising it.\<close>

definition put :: "i64 \<Rightarrow> WasmVm \<Rightarrow> (WasmVm \<Rightarrow> wstep) \<Rightarrow> wstep" where
  "put x v f = set_idx (value_stack v) (vsp v) x (\<lambda>vs. f (v\<lparr>value_stack := vs, vsp := usize_add (vsp v) 1\<rparr>))"

text \<open>The end of an iteration: the new program counter goes into the current frame.\<close>

definition goto :: "usize \<Rightarrow> WasmVm \<Rightarrow> wstep" where
  "goto pc v = with_frame v (\<lambda>fr. put_frame (fr\<lparr>fr_pc := pc\<rparr>) v Go)"

definition err :: "string \<Rightarrow> WasmVm \<Rightarrow> wstep" where
  "err msg v = Trap msg (wsys v)"

definition push_goto :: "i64 \<Rightarrow> usize \<Rightarrow> WasmVm \<Rightarrow> wstep" where
  "push_goto x pc v = (if vsp v \<ge> VALUE_STACK_SIZE then err ''value stack overflow'' v else put x v (goto pc))"

definition with_leb :: "u8 list \<Rightarrow> usize \<Rightarrow> (usize \<Rightarrow> usize \<Rightarrow> wstep) \<Rightarrow> wstep" where
  "with_leb bc pc f = (case leb128_u bc pc of Ret (x, pc') \<Rightarrow> f (unat x) pc' | Panic \<Rightarrow> Crash | Hang \<Rightarrow> Wedge)"

section \<open>Control flow\<close>

definition push_ctrl :: "u8 \<Rightarrow> usize \<Rightarrow> usize \<Rightarrow> WasmVm \<Rightarrow> wstep" where
  "push_ctrl k cont pc v =
     (if vcp v \<ge> CALL_STACK_SIZE then err ''ctrl stack overflow'' v
      else set_idx (ctrl_stack v) (vcp v) \<lparr>kind = k, pc_cont = cont, ctrl_sp = vsp v\<rparr> (\<lambda>cs.
        goto pc (v\<lparr>ctrl_stack := cs, vcp := usize_add (vcp v) 1\<rparr>)))"

definition op_block :: "u8 list \<Rightarrow> usize \<Rightarrow> WasmVm \<Rightarrow> wstep" where
  "op_block bc pc v =
     (if pc + 1 \<ge> length bc then err ''block: OOB'' v
      else at_idx bc (pc + 1) (\<lambda>_.
        case find_matching_end bc pc of
          Inl e \<Rightarrow> err e v
        | Inr cont \<Rightarrow> push_ctrl CTRL_BLOCK cont (pc + 2) v))"

definition op_loop :: "u8 list \<Rightarrow> usize \<Rightarrow> WasmVm \<Rightarrow> wstep" where
  "op_loop bc pc v =
     (if pc + 1 \<ge> length bc then err ''loop: OOB'' v
      else at_idx bc (pc + 1) (\<lambda>_. push_ctrl CTRL_LOOP (pc + 2) (pc + 2) v))"

definition op_if :: "u8 list \<Rightarrow> usize \<Rightarrow> WasmVm \<Rightarrow> wstep" where
  "op_if bc pc v =
     (if pc + 1 \<ge> length bc then err ''if: OOB'' v
      else at_idx bc (pc + 1) (\<lambda>_.
        if vsp v = 0 then err ''if: empty stack'' v
        else with_top 1 v (\<lambda>x.
          let cond = (ucast x :: i32); v1 = drop_top 1 v in
          case find_if_else_end bc pc of
            Inl e \<Rightarrow> err e v1
          | Inr (else_pc, end_pc) \<Rightarrow>
              (if cond \<noteq> 0 then push_ctrl CTRL_IF end_pc (pc + 2) v1
               else if else_pc > 0 then push_ctrl CTRL_IF end_pc (else_pc + 1) v1
               else goto end_pc v1))))"

definition op_else :: "u8 list \<Rightarrow> usize \<Rightarrow> WasmVm \<Rightarrow> wstep" where
  "op_else bc pc v = (case find_matching_end bc pc of Inl e \<Rightarrow> err e v | Inr target \<Rightarrow> goto target v)"

definition op_end :: "usize \<Rightarrow> WasmVm \<Rightarrow> wstep" where
  "op_end pc v =
     (if vcp v = 0 then Stop v
      else at_idx (ctrl_stack v) (usize_sub (vcp v) 1) (\<lambda>entry.
         let v1 = v\<lparr>vcp := usize_sub (vcp v) 1\<rparr> in
         if kind entry = CTRL_FUNC then Stop v1
         else if kind entry = CTRL_LOOP then goto (pc + 1) v1
         else if kind entry = CTRL_BLOCK \<or> kind entry = CTRL_IF then goto (pc_cont entry) v1
         else goto (pc + 1) v1))"

definition branch_to :: "string \<Rightarrow> usize \<Rightarrow> WasmVm \<Rightarrow> wstep" where
  "branch_to msg label v =
     (if label \<ge> vcp v then err msg v
      else
        (let target_idx = usize_sub (usize_sub (vcp v) 1) label in
         at_idx (ctrl_stack v) target_idx (\<lambda>target.
           if kind target = CTRL_LOOP then goto (pc_cont target) (v\<lparr>vcp := usize_add target_idx 1\<rparr>)
           else goto (pc_cont target) (v\<lparr>vcp := target_idx, vsp := ctrl_sp target\<rparr>))))"

definition op_br :: "u8 list \<Rightarrow> usize \<Rightarrow> WasmVm \<Rightarrow> wstep" where
  "op_br bc pc v = with_leb bc (pc + 1) (\<lambda>label _. branch_to ''br: label out of range'' label v)"

definition op_br_if :: "u8 list \<Rightarrow> usize \<Rightarrow> WasmVm \<Rightarrow> wstep" where
  "op_br_if bc pc v =
     with_leb bc (pc + 1) (\<lambda>label new_pc.
       if vsp v = 0 then err ''br_if: empty stack'' v
       else with_top 1 v (\<lambda>x.
         let cond = (ucast x :: i32); v1 = drop_top 1 v in
         if cond \<noteq> 0 then branch_to ''br_if: label out of range'' label v1 else goto new_pc v1))"

section \<open>Calls\<close>

definition type_get :: "u8 list \<Rightarrow> usize \<Rightarrow> usize" where
  "type_get ts k = (if k < length ts then unat (ts ! k) else 0)"

fun name_eq32 :: "u8 list \<Rightarrow> u8 list \<Rightarrow> bool" where
  "name_eq32 (a # as) (b # bs) = (if a \<noteq> b then False else if a = 0 then True else name_eq32 as bs)"
| "name_eq32 _ _ = True"

text \<open>
  The first entry of the host table with the name decides, also when it has no function. A count
  beyond the table is found out when the loop runs past its end.
\<close>

definition find_host :: "WasmSys \<Rightarrow> u8 list \<Rightarrow> HostFunc option outcome" where
  "find_host s nm =
     (case find (\<lambda>e. name_eq32 (hname e) nm) (take (host_func_count s) (host_funcs s)) of
        Some e \<Rightarrow> Ret (hfunc e)
      | None \<Rightarrow> if host_func_count s > length (host_funcs s) then Panic else Ret None)"

definition count_forward :: "usize \<Rightarrow> WasmSys \<Rightarrow> WasmSys" where
  "count_forward i s =
     s\<lparr>perf_stats := (perf_stats s)[i := (perf_stats s ! i)\<lparr>syscall_forward_count := syscall_forward_count (perf_stats s ! i) + 1\<rparr>]\<rparr>"

text \<open>What answers an imported call: a registered host function, or else a forwarded system call.\<close>

definition host_answer :: "Native \<Rightarrow> usize \<Rightarrow> u8 list \<Rightarrow> i64 list \<Rightarrow> WasmSys \<Rightarrow> (i64 \<times> WasmSys) option outcome" where
  "host_answer N i nm args s =
     obind (find_host s nm) (\<lambda>h.
       case h of
         Some f \<Rightarrow> obind (call_host N f args s) (\<lambda>(r, s1). Ret (Some (r, s1)))
       | None \<Rightarrow>
           (case lookup_by_func (syscall_table s) (name_to_slice nm) of
              None \<Rightarrow> Ret None
            | Some nr \<Rightarrow>
                obind (dispatch_syscall N nr args (wpid (modules s ! i)) s) (\<lambda>(r, s1).
                  if i < length (perf_stats s1) then Ret (Some (r, count_forward i s1)) else Panic)))"

definition op_call_host :: "Native \<Rightarrow> usize \<Rightarrow> usize \<Rightarrow> usize \<Rightarrow> WasmVm \<Rightarrow> wstep" where
  "op_call_host N i func_idx new_pc v =
     (let w = the_module i v in
      at_idx (import_types w) func_idx (\<lambda>ty.
        let nparams = type_get (type_params w) (unat ty); nresults = type_get (type_results w) (unat ty) in
        if vsp v < nparams then err ''call: not enough args'' v
        else with_range (value_stack v) (vsp v - nparams) (min nparams MAX_LOCALS) (\<lambda>args.
          let v1 = drop_top nparams v in
          at_idx (import_names w) func_idx (\<lambda>nm.
            case host_answer N i nm args (wsys v1) of
              Panic \<Rightarrow> Crash
            | Hang \<Rightarrow> Wedge
            | Ret None \<Rightarrow> err ''host function not found'' v1
            | Ret (Some (r, s)) \<Rightarrow>
                (let v2 = v1\<lparr>wsys := s\<rparr> in if nresults > 0 then push_goto r new_pc v2 else goto new_pc v2)))))"

definition op_call_def :: "usize \<Rightarrow> usize \<Rightarrow> usize \<Rightarrow> WasmVm \<Rightarrow> wstep" where
  "op_call_def i def_idx new_pc v =
     (let w = the_module i v in
      if def_idx \<ge> num_functions w then err ''call: func index OOB'' v
      else at_idx (func_types w) def_idx (\<lambda>ty.
        let nparams = type_get (type_params w) (unat ty) in
        if vsp v < nparams then err ''call: not enough args on stack'' v
        else with_frame v (\<lambda>fr. put_frame (fr\<lparr>fr_pc := new_pc\<rparr>) v (\<lambda>v1.
          let v2 = v1\<lparr>vfp := usize_add (vfp v) 1\<rparr> in
          if vfp v2 \<ge> CALL_STACK_SIZE then err ''call stack overflow'' v2
          else at_idx (code_offsets w) def_idx (\<lambda>start.
            let n = min nparams MAX_LOCALS in
            with_range (value_stack v) (vsp v - nparams) n (\<lambda>args.
              put_frame \<lparr>fr_func = def_idx, fr_pc = start, fr_sp = vsp v - nparams,
                         locals = args @ replicate (MAX_LOCALS - n) 0\<rparr> v2 (\<lambda>v3.
                push_ctrl CTRL_FUNC 0 start (v3\<lparr>vsp := vsp v - nparams\<rparr>))))))))"

definition op_call :: "Native \<Rightarrow> usize \<Rightarrow> u8 list \<Rightarrow> usize \<Rightarrow> WasmVm \<Rightarrow> wstep" where
  "op_call N i bc pc v =
     with_leb bc (pc + 1) (\<lambda>func_idx new_pc.
       if func_idx < vm_imports v then op_call_host N i func_idx new_pc v
       else op_call_def i (func_idx - vm_imports v) new_pc v)"

text \<open>The value a function returns, given its frame.\<close>

definition with_result :: "Frame \<Rightarrow> WasmVm \<Rightarrow> (i64 \<Rightarrow> wstep) \<Rightarrow> wstep" where
  "with_result fr v f = (if vsp v > fr_sp fr then with_top 1 v f else f 0)"

text \<open>Popping control frames down to the frame of the function; \<open>None\<close> is an index out of range.\<close>

fun unwind :: "CtrlFrame list \<Rightarrow> usize \<Rightarrow> usize option" where
  "unwind cs 0 = Some 0"
| "unwind cs (Suc n) =
     (if n \<ge> length cs then None else if kind (cs ! n) \<noteq> CTRL_FUNC then unwind cs n else Some n)"

definition op_return :: "WasmVm \<Rightarrow> wstep" where
  "op_return v =
     with_frame v (\<lambda>fr. with_result fr v (\<lambda>ret_val.
       case unwind (ctrl_stack v) (vcp v) of
         None \<Rightarrow> Crash
       | Some cp \<Rightarrow>
           (let v1 = v\<lparr>vcp := cp\<rparr> in
            if vfp v = 0 then err ''return from main function'' v1
            else put ret_val (v1\<lparr>vfp := usize_sub (vfp v) 1, vsp := fr_sp fr\<rparr>) (\<lambda>v2.
              with_frame v2 (\<lambda>caller. goto (fr_pc caller) v2)))))"

text \<open>Running past the end of the code.\<close>

definition fall_off :: "WasmVm \<Rightarrow> wstep" where
  "fall_off v =
     (if vfp v = 0 then Stop v
      else with_frame v (\<lambda>fr. with_result fr v (\<lambda>ret_val.
        put ret_val (v\<lparr>vsp := fr_sp fr, vfp := usize_sub (vfp v) 1\<rparr>) (\<lambda>v1.
          if vfp v1 = 0 then Stop v1 else Go v1))))"

section \<open>Locals, constants, arithmetic\<close>

definition op_local_get :: "u8 list \<Rightarrow> usize \<Rightarrow> WasmVm \<Rightarrow> wstep" where
  "op_local_get bc pc v =
     with_leb bc (pc + 1) (\<lambda>idx new_pc.
       if idx \<ge> MAX_LOCALS then err ''local.get: index OOB'' v
       else if vsp v \<ge> VALUE_STACK_SIZE then err ''value stack overflow'' v
       else with_frame v (\<lambda>fr. at_idx (locals fr) idx (\<lambda>x. put x v (goto new_pc))))"

text \<open>Writing a local of the current frame.\<close>

definition put_local :: "usize \<Rightarrow> i64 \<Rightarrow> usize \<Rightarrow> WasmVm \<Rightarrow> wstep" where
  "put_local idx x new_pc v =
     with_frame v (\<lambda>fr. set_idx (locals fr) idx x (\<lambda>ls. put_frame (fr\<lparr>locals := ls\<rparr>) v (goto new_pc)))"

definition op_local_set :: "u8 list \<Rightarrow> usize \<Rightarrow> WasmVm \<Rightarrow> wstep" where
  "op_local_set bc pc v =
     with_leb bc (pc + 1) (\<lambda>idx new_pc.
       if idx \<ge> MAX_LOCALS then err ''local.set: index OOB'' v
       else if vsp v = 0 then err ''local.set: empty stack'' v
       else with_top 1 v (\<lambda>x. put_local idx x new_pc (drop_top 1 v)))"

definition op_local_tee :: "u8 list \<Rightarrow> usize \<Rightarrow> WasmVm \<Rightarrow> wstep" where
  "op_local_tee bc pc v =
     with_leb bc (pc + 1) (\<lambda>idx new_pc.
       if idx \<ge> MAX_LOCALS then err ''local.tee: index OOB'' v
       else if vsp v = 0 then err ''local.tee: empty stack'' v
       else with_top 1 v (\<lambda>x. put_local idx x new_pc v))"

definition op_i32_const :: "u8 list \<Rightarrow> usize \<Rightarrow> WasmVm \<Rightarrow> wstep" where
  "op_i32_const bc pc v =
     (case leb128_s bc (pc + 1) of
        Ret (x, new_pc) \<Rightarrow> push_goto (scast x) new_pc v | Panic \<Rightarrow> Crash | Hang \<Rightarrow> Wedge)"

definition op_i64_const :: "u8 list \<Rightarrow> usize \<Rightarrow> WasmVm \<Rightarrow> wstep" where
  "op_i64_const bc pc v =
     (case leb128_s64 bc (pc + 1) of
        Ret (x, new_pc) \<Rightarrow> push_goto x new_pc v | Panic \<Rightarrow> Crash | Hang \<Rightarrow> Wedge)"

text \<open>An operation on the top of the stack, in place.\<close>

definition op_unary :: "string \<Rightarrow> (i64 \<Rightarrow> i64) \<Rightarrow> usize \<Rightarrow> WasmVm \<Rightarrow> wstep" where
  "op_unary nm f pc v =
     (if vsp v = 0 then err (nm @ '': empty stack'') v
      else with_top 1 v (\<lambda>x. set_idx (value_stack v) (usize_sub (vsp v) 1) (f x) (\<lambda>vs.
        goto (pc + 1) (v\<lparr>value_stack := vs\<rparr>))))"

definition unary_ops :: "(u8 \<times> string \<times> (i64 \<Rightarrow> i64)) list" where
  "unary_ops =
     [(0xA7, ''i32.wrap_i64'', \<lambda>x. scast (ucast x :: i32)),
      (0xAC, ''i64.extend_i32_s'', \<lambda>x. scast (ucast x :: i32)),
      (0xAD, ''i64.extend_i32_u'', \<lambda>x. ucast (ucast x :: u32)),
      (0x45, ''i32.eqz'', \<lambda>x. of_bool ((ucast x :: i32) = 0))]"

definition cmp_ops :: "(u8 \<times> string \<times> (i32 \<Rightarrow> i32 \<Rightarrow> bool)) list" where
  "cmp_ops =
     [(0x46, ''i32.eq'', \<lambda>a b. a = b), (0x47, ''i32.ne'', \<lambda>a b. a \<noteq> b),
      (0x48, ''i32.lt_s'', \<lambda>a b. a <s b), (0x49, ''i32.lt_u'', \<lambda>a b. a < b),
      (0x4A, ''i32.gt_s'', \<lambda>a b. b <s a), (0x4B, ''i32.gt_u'', \<lambda>a b. a > b),
      (0x4C, ''i32.le_s'', \<lambda>a b. a \<le>s b), (0x4D, ''i32.le_u'', \<lambda>a b. a \<le> b),
      (0x4E, ''i32.ge_s'', \<lambda>a b. b \<le>s a), (0x4F, ''i32.ge_u'', \<lambda>a b. a \<ge> b)]"

text \<open>Signed results are widened with their sign, unsigned ones with zeros.\<close>

definition arith_ops :: "(u8 \<times> string \<times> (i32 \<Rightarrow> i32 \<Rightarrow> i64 result)) list" where
  "arith_ops =
     [(0x6A, ''i32.add'', \<lambda>a b. Inr (scast (a + b))),
      (0x6B, ''i32.sub'', \<lambda>a b. Inr (scast (a - b))),
      (0x6C, ''i32.mul'', \<lambda>a b. Inr (scast (a * b))),
      (0x6D, ''i32.div_s'', \<lambda>a b. if b = 0 then Inl ''i32.div_s: divide by zero''
         else if a = 0x80000000 \<and> b = - 1 then Inl ''i32.div_s: overflow''
         else Inr (scast (word_of_int (sint a sdiv sint b) :: i32))),
      (0x6E, ''i32.div_u'', \<lambda>a b. if b = 0 then Inl ''i32.div_u: divide by zero'' else Inr (ucast (a div b))),
      (0x6F, ''i32.rem_s'', \<lambda>a b. if b = 0 then Inl ''i32.rem_s: divide by zero''
         else if a = 0x80000000 \<and> b = - 1 then Inr 0
         else Inr (scast (word_of_int (sint a smod sint b) :: i32))),
      (0x70, ''i32.rem_u'', \<lambda>a b. if b = 0 then Inl ''i32.rem_u: divide by zero'' else Inr (ucast (a mod b)))]"

definition shift_of :: "i32 \<Rightarrow> nat" where
  "shift_of b = unat (b AND 31)"

definition bit_ops :: "(u8 \<times> string \<times> (i32 \<Rightarrow> i32 \<Rightarrow> i64 result)) list" where
  "bit_ops =
     [(0x71, ''i32.and'', \<lambda>a b. Inr (scast (a AND b))),
      (0x72, ''i32.or'', \<lambda>a b. Inr (scast (a OR b))),
      (0x73, ''i32.xor'', \<lambda>a b. Inr (scast (a XOR b))),
      (0x74, ''i32.shl'', \<lambda>a b. Inr (ucast (push_bit (shift_of b) a))),
      (0x75, ''i32.shr_s'', \<lambda>a b. Inr (scast (signed_drop_bit (shift_of b) a))),
      (0x76, ''i32.shr_u'', \<lambda>a b. Inr (ucast (drop_bit (shift_of b) a))),
      (0x77, ''i32.rotl'', \<lambda>a b. Inr (ucast (word_rotl (shift_of b) a))),
      (0x78, ''i32.rotr'', \<lambda>a b. Inr (ucast (word_rotr (shift_of b) a)))]"

definition binary_ops :: "(u8 \<times> string \<times> (i32 \<Rightarrow> i32 \<Rightarrow> i64 result)) list" where
  "binary_ops = map (\<lambda>(c, nm, p). (c, nm, \<lambda>a b. Inr (of_bool (p a b)))) cmp_ops @ arith_ops @ bit_ops"

definition op_binary :: "string \<Rightarrow> (i32 \<Rightarrow> i32 \<Rightarrow> i64 result) \<Rightarrow> usize \<Rightarrow> WasmVm \<Rightarrow> wstep" where
  "op_binary nm f pc v =
     (if vsp v < 2 then err (nm @ '': need 2 operands'') v
      else with_top 2 v (\<lambda>a. with_top 1 v (\<lambda>b.
        case f (ucast a) (ucast b) of
          Inl e \<Rightarrow> err e v
        | Inr x \<Rightarrow> put x (drop_top 2 v) (goto (pc + 1)))))"

text \<open>
  \<open>select\<close> lowers the stack pointer twice and writes over the second operand: the first one stays
  below the result.
\<close>

definition op_select :: "usize \<Rightarrow> WasmVm \<Rightarrow> wstep" where
  "op_select pc v =
     (if vsp v < 3 then err ''select: need 3 operands'' v
      else with_top 1 v (\<lambda>x. with_top 2 v (\<lambda>val2. with_top 3 v (\<lambda>val1.
        let cond = (ucast x :: i32) in
        put (if cond \<noteq> 0 then val1 else val2) (drop_top 2 v) (goto (pc + 1))))))"

section \<open>Linear memory\<close>

text \<open>The loads: width in bytes and whether the value is widened with its sign.\<close>

definition load_ops :: "(u8 \<times> string \<times> nat \<times> bool) list" where
  "load_ops =
     [(0x28, ''i32.load'', 4, False), (0x29, ''i64.load'', 8, False),
      (0x2C, ''i32.load8_s'', 1, True), (0x2D, ''i32.load8_u'', 1, False),
      (0x2E, ''i32.load16_s'', 2, True), (0x2F, ''i32.load16_u'', 2, False),
      (0x30, ''i64.load8_s'', 1, True), (0x31, ''i64.load8_u'', 1, False),
      (0x32, ''i64.load16_s'', 2, True), (0x33, ''i64.load16_u'', 2, False),
      (0x34, ''i64.load32_s'', 4, True), (0x35, ''i64.load32_u'', 4, False)]"

definition store_ops :: "(u8 \<times> string \<times> nat) list" where
  "store_ops =
     [(0x36, ''i32.store'', 4), (0x37, ''i64.store'', 8), (0x3A, ''i32.store8'', 1), (0x3B, ''i32.store16'', 2),
      (0x3C, ''i64.store8'', 1), (0x3D, ''i64.store16'', 2), (0x3E, ''i64.store32'', 4)]"

definition load_value :: "nat \<Rightarrow> bool \<Rightarrow> u8 list \<Rightarrow> i64" where
  "load_value n sx bs =
     (let x = (of_nat (from_le bs) :: i64) in if sx then signed_take_bit (8 * n - 1) x else x)"

definition op_load :: "string \<Rightarrow> nat \<Rightarrow> bool \<Rightarrow> usize \<Rightarrow> u8 list \<Rightarrow> usize \<Rightarrow> WasmVm \<Rightarrow> wstep" where
  "op_load nm n sx i bc pc v =
     with_leb bc (pc + 1) (\<lambda>_ pc1. with_leb bc pc1 (\<lambda>offset new_pc.
       if vsp v = 0 then err (nm @ '': empty stack'') v
       else with_top 1 v (\<lambda>x.
          let addr = unat (ucast x :: u32); v1 = drop_top 1 v; ea = usize_add addr offset; w = the_module i v in
          if ea + n > mem_pages w * MEM_PAGE_SIZE then err (nm @ '': OOB'') v1
          else if mem_ptr w = 0 then err (nm @ '': no memory'') v1
          else push_goto (load_value n sx (read_bytes (mem_ptr w + ea) n (ram (heap (wsys v))))) new_pc v1)))"

definition op_store :: "string \<Rightarrow> nat \<Rightarrow> usize \<Rightarrow> u8 list \<Rightarrow> usize \<Rightarrow> WasmVm \<Rightarrow> wstep" where
  "op_store nm n i bc pc v =
     with_leb bc (pc + 1) (\<lambda>_ pc1. with_leb bc pc1 (\<lambda>offset new_pc.
       if vsp v < 2 then err (nm @ '': need 2 operands'') v
       else with_top 2 v (\<lambda>x. with_top 1 v (\<lambda>val.
          let addr = unat (ucast x :: u32); v1 = drop_top 2 v; ea = usize_add addr offset; w = the_module i v in
          if ea + n > mem_pages w * MEM_PAGE_SIZE then err (nm @ '': OOB'') v1
          else if mem_ptr w = 0 then err (nm @ '': no memory'') v1
          else goto new_pc (v1\<lparr>wsys := set_ram (write_bytes (mem_ptr w + ea) (to_le n val) (ram (heap (wsys v)))) (wsys v)\<rparr>)))))"

definition op_memory_size :: "usize \<Rightarrow> usize \<Rightarrow> WasmVm \<Rightarrow> wstep" where
  "op_memory_size i pc v = push_goto (of_nat (mem_pages (the_module i v))) (pc + 2) v"

definition layout_ok :: "usize \<Rightarrow> bool" where
  "layout_ok sz \<longleftrightarrow> sz \<le> 2 ^ 63 - 16"

text \<open>
  \<open>memory.grow\<close>. The number of pages asked for is added with wrap-around before it is compared
  with the maximum; the copy always takes the old size. Two unreachable \<open>continue\<close>s for an
  impossible layout leave the program counter where it was.
\<close>

definition grow_to :: "usize \<Rightarrow> usize \<Rightarrow> usize \<Rightarrow> usize \<Rightarrow> WasmVm \<Rightarrow> wstep" where
  "grow_to i cur_pages new_pages new_pc v =
     (let w = the_module i v; new_size = (new_pages * MEM_PAGE_SIZE) mod 2 ^ 64; old_size = cur_pages * MEM_PAGE_SIZE in
      if \<not> layout_ok new_size then put (- 1) v Go
      else
        (case heap_alloc_zeroed new_size 16 (heap (wsys v)) of
           Panic \<Rightarrow> Crash
         | Hang \<Rightarrow> Wedge
         | Ret (None, h) \<Rightarrow> put (- 1) (v\<lparr>wsys := (wsys v)\<lparr>heap := h\<rparr>\<rparr>) (goto new_pc)
         | Ret (Some new_mem, h) \<Rightarrow>
             (let h1 = (if mem_ptr w \<noteq> 0 then h\<lparr>ram := write_bytes new_mem (read_bytes (mem_ptr w) old_size (ram h)) (ram h)\<rparr>
                        else h)
              in if mem_ptr w \<noteq> 0 \<and> \<not> layout_ok old_size
                 then put (of_nat cur_pages) (v\<lparr>wsys := (wsys v)\<lparr>heap := h1\<rparr>\<rparr>) Go
                 else
                   (case (if mem_ptr w \<noteq> 0 then heap_dealloc (mem_ptr w) old_size h1 else Ret h1) of
                      Panic \<Rightarrow> Crash
                    | Hang \<Rightarrow> Wedge
                    | Ret h2 \<Rightarrow>
                        put (of_nat cur_pages)
                          (v\<lparr>wsys := upd_module i (\<lambda>w. w\<lparr>mem_ptr := new_mem, mem_pages := new_pages\<rparr>)
                               ((wsys v)\<lparr>heap := h2\<rparr>)\<rparr>) (goto new_pc)))))"

definition op_memory_grow :: "usize \<Rightarrow> usize \<Rightarrow> WasmVm \<Rightarrow> wstep" where
  "op_memory_grow i pc v =
     (if vsp v = 0 then err ''memory.grow: empty stack'' v
      else with_top 1 v (\<lambda>x.
        let request = unat x; v1 = drop_top 1 v; w = the_module i v; cur_pages = mem_pages w in
        if request = 0 then put (of_nat cur_pages) v1 (goto (pc + 2))
        else if usize_add cur_pages request \<le> mem_max_pages w
        then grow_to i cur_pages (usize_add cur_pages request) (pc + 2) v1
        else put (- 1) v1 (goto (pc + 2))))"

section \<open>The interpreter loop\<close>

definition wasm_control :: "Native \<Rightarrow> usize \<Rightarrow> u8 list \<Rightarrow> usize \<Rightarrow> u8 \<Rightarrow> WasmVm \<Rightarrow> wstep option" where
  "wasm_control N i bc pc c v =
     (if c = 0x00 then Some (err ''unreachable'' v)
      else if c = 0x01 then Some (goto (pc + 1) v)
      else if c = 0x02 then Some (op_block bc pc v)
      else if c = 0x03 then Some (op_loop bc pc v)
      else if c = 0x04 then Some (op_if bc pc v)
      else if c = 0x05 then Some (op_else bc pc v)
      else if c = 0x0B then Some (op_end pc v)
      else if c = 0x0C then Some (op_br bc pc v)
      else if c = 0x0D then Some (op_br_if bc pc v)
      else if c = 0x0F then Some (op_return v)
      else if c = 0x10 then Some (op_call N i bc pc v)
      else None)"

definition wasm_plain :: "usize \<Rightarrow> u8 list \<Rightarrow> usize \<Rightarrow> u8 \<Rightarrow> WasmVm \<Rightarrow> wstep option" where
  "wasm_plain i bc pc c v =
     (if c = 0x1B then Some (op_select pc v)
      else if c = 0x20 then Some (op_local_get bc pc v)
      else if c = 0x21 then Some (op_local_set bc pc v)
      else if c = 0x22 then Some (op_local_tee bc pc v)
      else if c = 0x3F then Some (op_memory_size i pc v)
      else if c = 0x40 then Some (op_memory_grow i pc v)
      else if c = 0x41 then Some (op_i32_const bc pc v)
      else if c = 0x42 then Some (op_i64_const bc pc v)
      else None)"

definition wasm_table :: "usize \<Rightarrow> u8 list \<Rightarrow> usize \<Rightarrow> u8 \<Rightarrow> WasmVm \<Rightarrow> wstep" where
  "wasm_table i bc pc c v =
     (case map_of unary_ops c of
        Some (nm, f) \<Rightarrow> op_unary nm f pc v
      | None \<Rightarrow>
          (case map_of binary_ops c of
             Some (nm, f) \<Rightarrow> op_binary nm f pc v
           | None \<Rightarrow>
               (case map_of load_ops c of
                  Some (nm, n, sx) \<Rightarrow> op_load nm n sx i bc pc v
                | None \<Rightarrow>
                    (case map_of store_ops c of
                       Some (nm, n) \<Rightarrow> op_store nm n i bc pc v
                     | None \<Rightarrow> err ''unknown opcode'' v))))"

definition wasm_step :: "Native \<Rightarrow> usize \<Rightarrow> WasmVm \<Rightarrow> wstep" where
  "wasm_step N i v =
     with_frame v (\<lambda>fr.
       let pc = fr_pc fr; bc = the_code i v in
       if bc_len (the_module i v) > length (bytecode (the_module i v)) then Crash
       else if pc \<ge> length bc then fall_off v
       else
         (case wasm_control N i bc pc (bc ! pc) v of
            Some r \<Rightarrow> r
          | None \<Rightarrow> (case wasm_plain i bc pc (bc ! pc) v of Some r \<Rightarrow> r | None \<Rightarrow> wasm_table i bc pc (bc ! pc) v)))"

text \<open>Leaving the loop: the statistics are updated, and the top of the stack is the result.\<close>

definition finish :: "usize \<Rightarrow> nat \<Rightarrow> WasmVm \<Rightarrow> (i32 result \<times> WasmSys) outcome" where
  "finish i cycles v =
     (let s = wsys v; k = usize_sub (vsp v) 1 in
      if i \<ge> length (perf_stats s) then Panic
      else
        (let s1 = s\<lparr>perf_stats := (perf_stats s)[i := record_invocation (of_nat cycles) (perf_stats s ! i)]\<rparr> in
         if vsp v = 0 then Ret (Inr 0, s1)
         else if k \<ge> length (value_stack v) then Panic
         else Ret (Inr (ucast (value_stack v ! k)), s1)))"

text \<open>
  What an execution returns: a result or an error with the system state, a panic, or a stopped hart.
\<close>

fun wasm_loop :: "Native \<Rightarrow> usize \<Rightarrow> nat \<Rightarrow> WasmVm \<Rightarrow> (i32 result \<times> WasmSys) outcome" where
  "wasm_loop N i 0 v = Ret (Inl ''cycle budget exceeded'', wsys v)"
| "wasm_loop N i (Suc n) v =
     (case wasm_step N i v of
        Go v' \<Rightarrow> wasm_loop N i n v'
      | Stop v' \<Rightarrow> finish i (WASM_CYCLE_BUDGET - n) v'
      | Trap e s \<Rightarrow> Ret (Inl e, s)
      | Crash \<Rightarrow> Panic
      | Wedge \<Rightarrow> Hang)"

definition init_vm :: "usize \<Rightarrow> usize \<Rightarrow> i64 list \<Rightarrow> WasmSys \<Rightarrow> WasmVm" where
  "init_vm i def_idx args s =
     (let w = modules s ! i; n = min (type_get (type_params w) (unat (func_types w ! def_idx))) MAX_LOCALS;
          blank = \<lparr>fr_func = 0, fr_pc = 0, fr_sp = 0, locals = replicate MAX_LOCALS 0\<rparr>;
          f = \<lparr>fr_func = def_idx, fr_pc = code_offsets w ! def_idx, fr_sp = 0,
               locals = take n args @ replicate (MAX_LOCALS - min n (length args)) 0\<rparr>
      in \<lparr>value_stack = overwrite 0 args (replicate VALUE_STACK_SIZE 0), vsp = length args,
          call_stack = (replicate CALL_STACK_SIZE blank)[0 := f], vfp = 0,
          ctrl_stack = (replicate CALL_STACK_SIZE \<lparr>kind = 0, pc_cont = 0, ctrl_sp = 0\<rparr>)
            [0 := \<lparr>kind = CTRL_FUNC, pc_cont = 0, ctrl_sp = 0\<rparr>], vcp = 1, vm_imports = num_imports w, wsys = s\<rparr>)"

definition wasm_execute :: "Native \<Rightarrow> usize \<Rightarrow> u8 list \<Rightarrow> i64 list \<Rightarrow> WasmSys \<Rightarrow> (i32 result \<times> WasmSys) outcome" where
  "wasm_execute N i fname args s =
     (if i \<ge> MAX_WASM_MODULES \<or> \<not> loaded (modules s ! i) then Ret (Inl ''invalid module id'', s)
      else
        (let w = modules s ! i in
         obind (find_export w fname) (\<lambda>r.
           case r of
             None \<Rightarrow> Ret (Inl ''export not found'', s)
           | Some g \<Rightarrow>
               (if unat g < num_imports w then Ret (Inl ''cannot execute imported function directly'', s)
                else if unat g - num_imports w \<ge> num_functions w then Ret (Inl ''function index out of range'', s)
                else if length args > VALUE_STACK_SIZE then Ret (Inl ''value stack overflow'', s)
                else if unat g - num_imports w \<ge> length (func_types w) \<or> unat g - num_imports w \<ge> length (code_offsets w) then Panic
                else wasm_loop N i WASM_CYCLE_BUDGET (init_vm i (unat g - num_imports w) args s)))))"

definition wasm_call_export :: "Native \<Rightarrow> usize \<Rightarrow> u8 list \<Rightarrow> WasmSys \<Rightarrow> (i32 result \<times> WasmSys) outcome" where
  "wasm_call_export N i nm s = wasm_execute N i nm [] s"

end
