(* ===== verification/Wasm_Safety.thy ===== *)
theory Wasm_Safety
  imports Wasm_Vm
begin

unbundle bit_operations_syntax

text \<open>
  What the WebAssembly runtime keeps: the well-formedness of the module table and of the
  interpreter's stacks, and the confinement of a module to its linear memory.
\<close>

section \<open>Well-formedness\<close>

definition module_wf :: "WasmModule \<Rightarrow> bool" where
  "module_wf w \<longleftrightarrow>
     length (wname w) = 32 \<and> length (bytecode w) = MAX_WASM_SIZE \<and> bc_len w \<le> MAX_WASM_SIZE \<and>
     length (type_params w) = MAX_TYPES \<and> length (type_results w) = MAX_TYPES \<and> num_types w \<le> MAX_TYPES \<and>
     length (import_names w) = MAX_IMPORTS \<and> length (import_types w) = MAX_IMPORTS \<and> num_imports w \<le> MAX_IMPORTS \<and>
     (\<forall>nm\<in>set (import_names w). length nm = 32) \<and>
     length (func_types w) = MAX_FUNCTIONS \<and> length (code_offsets w) = MAX_FUNCTIONS \<and>
     length (code_sizes w) = MAX_FUNCTIONS \<and> length (num_locals w) = MAX_FUNCTIONS \<and> num_functions w \<le> MAX_FUNCTIONS \<and>
     length (export_names w) = MAX_EXPORTS \<and> length (export_funcs w) = MAX_EXPORTS \<and> num_exports w \<le> MAX_EXPORTS \<and>
     (\<forall>nm\<in>set (export_names w). length nm = 32) \<and>
     mem_pages w \<le> MAX_MEM_PAGES \<and> mem_max_pages w \<le> MAX_MEM_PAGES"

definition sys_wf :: "WasmSys \<Rightarrow> bool" where
  "sys_wf s \<longleftrightarrow>
     length (modules s) = MAX_WASM_MODULES \<and> wasm_count s \<le> MAX_WASM_MODULES \<and> (\<forall>w\<in>set (modules s). module_wf w) \<and>
     length (host_funcs s) = MAX_HOST_FUNCS \<and> host_func_count s \<le> MAX_HOST_FUNCS \<and>
     (\<forall>e\<in>set (host_funcs s). length (hname e) = 32) \<and>
     length (perf_stats s) = MAX_WASM_MODULES \<and> length (syscall_table s) \<le> MAX_SYSCALL_ENTRIES \<and> heap_ok (heap s)"

text \<open>The linear memory of a loaded module is a live block of the kernel heap.\<close>

definition mem_ok :: "usize \<Rightarrow> WasmSys \<Rightarrow> bool" where
  "mem_ok i s \<longleftrightarrow>
     (let w = modules s ! i in
      live_block (heap s) (mem_ptr w) (mem_pages w * MEM_PAGE_SIZE) \<and> 1 \<le> mem_pages w \<and> mem_pages w \<le> mem_max_pages w \<and>
      mem_max_pages w = MAX_MEM_PAGES)"

definition frame_wf :: "Frame \<Rightarrow> bool" where
  "frame_wf f \<longleftrightarrow> length (locals f) = MAX_LOCALS \<and> fr_sp f \<le> VALUE_STACK_SIZE"

definition vm_wf :: "usize \<Rightarrow> WasmVm \<Rightarrow> bool" where
  "vm_wf i v \<longleftrightarrow>
     length (value_stack v) = VALUE_STACK_SIZE \<and> vsp v \<le> VALUE_STACK_SIZE \<and>
     length (call_stack v) = CALL_STACK_SIZE \<and> vfp v < CALL_STACK_SIZE \<and> (\<forall>f\<in>set (call_stack v). frame_wf f) \<and>
     length (ctrl_stack v) = CALL_STACK_SIZE \<and> vcp v \<le> CALL_STACK_SIZE \<and>
     (\<forall>c\<in>set (ctrl_stack v). ctrl_sp c \<le> VALUE_STACK_SIZE) \<and>
     vm_imports v \<le> MAX_IMPORTS \<and> i < MAX_WASM_MODULES \<and> sys_wf (wsys v)"

subsection \<open>The parsers fill the fixed tables within their bounds\<close>

lemma module_wf_upd:
  assumes "module_wf w"
  shows "module_wf (w\<lparr>type_params := (type_params w)[k := a], type_results := (type_results w)[k := b]\<rparr>)"
    and "module_wf (w\<lparr>func_types := (func_types w)[k := a]\<rparr>)"
    and "module_wf (w\<lparr>code_offsets := (code_offsets w)[k := p], num_locals := (num_locals w)[k := a],
           code_sizes := (code_sizes w)[k := q]\<rparr>)"
    and "length nm = 32 \<Longrightarrow> module_wf (w\<lparr>import_names := (import_names w)[k := nm]\<rparr>)"
    and "module_wf (w\<lparr>import_types := (import_types w)[k := a]\<rparr>)"
    and "length nm = 32 \<Longrightarrow> module_wf (w\<lparr>export_names := (export_names w)[k := nm], export_funcs := (export_funcs w)[k := a]\<rparr>)"
    and "n \<le> MAX_TYPES \<Longrightarrow> module_wf (w\<lparr>num_types := n\<rparr>)"
    and "n \<le> MAX_IMPORTS \<Longrightarrow> module_wf (w\<lparr>num_imports := n\<rparr>)"
    and "n \<le> MAX_FUNCTIONS \<Longrightarrow> module_wf (w\<lparr>num_functions := n\<rparr>)"
    and "n \<le> MAX_EXPORTS \<Longrightarrow> module_wf (w\<lparr>num_exports := n\<rparr>)"
  using assms
  by (auto simp: module_wf_def dest!: subsetD [OF set_update_subset_insert])

lemma copy_name_length: "copy_name bc st len field = Ret nm \<Longrightarrow> length field = 32 \<Longrightarrow> length nm = 32"
  by (auto simp: copy_name_def Let_def split: if_splits)

text \<open>A property of the value an outcome returns, when it returns.\<close>

definition returns :: "('a \<Rightarrow> bool) \<Rightarrow> 'a outcome \<Rightarrow> bool" where
  "returns P r \<longleftrightarrow> (\<forall>x. r = Ret x \<longrightarrow> P x)"

lemma returns_simps [simp]: "returns P (Ret x) = P x" "returns P Panic" "returns P Hang"
  by (simp_all add: returns_def)

lemma returns_bind: "(\<And>x. m = Ret x \<Longrightarrow> returns P (f x)) \<Longrightarrow> returns P (obind m f)"
  by (cases m) simp_all

lemma returns_bind2: "(\<And>x y. m = Ret (x, y) \<Longrightarrow> returns P (f x y)) \<Longrightarrow> returns P (obind m (\<lambda>(x, y). f x y))"
  by (cases m) auto

lemma parse_types_wf: "module_wf w \<Longrightarrow> count \<le> MAX_TYPES \<Longrightarrow> returns module_wf (parse_types bc offset e count w)"
proof (induction bc offset e count w rule: parse_types.induct)
  case (1 bc offset e count w)
  show ?case
  proof (cases "offset < e \<and> count < MAX_TYPES")
    case True
    then show ?thesis
      by (subst parse_types.simps, simp only: if_True simp_thms Let_def, intro returns_bind returns_bind2)
        (auto simp del: One_nat_def simp: "1.prems" module_wf_upd intro!: returns_bind2 "1.IH")
  qed (subst parse_types.simps, auto simp: "1.prems" module_wf_upd)
qed

lemma parse_functions_wf: "module_wf w \<Longrightarrow> count \<le> MAX_FUNCTIONS \<Longrightarrow> returns module_wf (parse_functions bc offset e count w)"
proof (induction bc offset e count w rule: parse_functions.induct)
  case (1 bc offset e count w)
  show ?case
  proof (cases "offset < e \<and> count < MAX_FUNCTIONS")
    case True
    then show ?thesis
      by (subst parse_functions.simps, simp only: if_True simp_thms)
        (auto simp del: One_nat_def simp: "1.prems" module_wf_upd intro!: returns_bind2 "1.IH")
  qed (subst parse_functions.simps, auto simp: "1.prems" module_wf_upd)
qed

lemma parse_exports_wf: "module_wf w \<Longrightarrow> count \<le> MAX_EXPORTS \<Longrightarrow> returns module_wf (parse_exports bc offset e count w)"
proof (induction bc offset e count w rule: parse_exports.induct)
  case (1 bc offset e count w)
  show ?case
  proof (cases "offset < e \<and> count < MAX_EXPORTS")
    case True
    then have f: "length (export_names w ! count) = 32" using "1.prems"(1) by (auto simp: module_wf_def)
    show ?thesis
      using True
      by (subst parse_exports.simps, simp only: if_True simp_thms)
        (auto simp del: One_nat_def simp: "1.prems" module_wf_upd copy_name_length [OF _ f]
          intro!: returns_bind returns_bind2 "1.IH")
  qed (subst parse_exports.simps, auto simp: "1.prems" module_wf_upd)
qed

lemma parse_imports_wf: "module_wf w \<Longrightarrow> count \<le> MAX_IMPORTS \<Longrightarrow> returns module_wf (parse_imports bc offset e count w)"
proof (induction bc offset e count w rule: parse_imports.induct)
  case (1 bc offset e count w)
  show ?case
  proof (cases "offset < e \<and> count < MAX_IMPORTS")
    case True
    then have f: "length (import_names w ! count) = 32" using "1.prems"(1) by (auto simp: module_wf_def)
    have u: "module_wf (w\<lparr>import_names := (import_names w)[count := nm]\<rparr>)"
      if "copy_name bc a b (import_names w ! count) = Ret nm" for a b nm
      using module_wf_upd(4) [OF "1.prems"(1) copy_name_length [OF that f]] .
    note u' = module_wf_upd(5) [OF u, simplified]
    show ?thesis
      using True
      by (subst parse_imports.simps, simp only: if_True simp_thms Let_def)
        (auto simp del: One_nat_def simp: "1.prems" intro!: returns_bind returns_bind2 "1.IH"(1) [OF _ refl refl, simplified]
          "1.IH"(2) [OF _ refl refl] u u')
  qed (subst parse_imports.simps, auto simp: "1.prems" module_wf_upd)
qed

lemma parse_codes_wf: "module_wf w \<Longrightarrow> returns module_wf (parse_codes bc offset e k w)"
proof (induction bc offset e k w rule: parse_codes.induct)
  case (1 bc offset e k w)
  show ?case
  proof (cases "offset < e \<and> k < MAX_FUNCTIONS")
    case True
    then show ?thesis
      by (subst parse_codes.simps, simp only: if_True simp_thms Let_def)
        (auto simp del: One_nat_def simp: "1.prems" module_wf_upd intro!: returns_bind2 "1.IH")
  qed (subst parse_codes.simps, auto simp: "1.prems")
qed

lemma parse_section_wf: "module_wf w \<Longrightarrow> returns module_wf (parse_section c bc offset n w)"
  by (simp add: parse_section_def parse_type_section_def parse_import_section_def parse_function_section_def
      parse_export_section_def parse_code_section_def parse_types_wf parse_imports_wf parse_functions_wf
      parse_exports_wf parse_codes_wf)

lemma parse_sections_wf: "module_wf w \<Longrightarrow> returns module_wf (parse_sections bc len offset w)"
proof (induction bc len offset w rule: parse_sections.induct)
  case (1 bc len offset w)
  have sec: "module_wf w1" if "parse_section c bc a n w = Ret w1" for c a n w1
    using parse_section_wf [OF "1.prems", of c bc a n] that by simp
  show ?case
    by (subst parse_sections.simps, auto simp del: One_nat_def simp: "1.prems" split: outcome.split
        intro!: returns_bind "1.IH" [OF _ _ refl]) (rule sec)
qed

lemma parse_module_wf: "module_wf w \<Longrightarrow> returns module_wf (parse_module w)"
  by (simp add: parse_module_def parse_sections_wf)

subsection \<open>Updates of the machine\<close>

text \<open>
  The frame in use and the stack seen from the top, and the updates the checked accesses of the
  interpreter come down to when they stay inside the stacks.
\<close>

definition cur_frame :: "WasmVm \<Rightarrow> Frame" where
  "cur_frame v = call_stack v ! vfp v"

definition top_at :: "usize \<Rightarrow> WasmVm \<Rightarrow> i64" where
  "top_at k v = value_stack v ! (vsp v - k)"

definition set_frame :: "Frame \<Rightarrow> WasmVm \<Rightarrow> WasmVm" where
  "set_frame f v = v\<lparr>call_stack := (call_stack v)[vfp v := f]\<rparr>"

definition popped :: "usize \<Rightarrow> WasmVm \<Rightarrow> WasmVm" where
  "popped k v = v\<lparr>vsp := vsp v - k\<rparr>"

definition pushed :: "i64 \<Rightarrow> WasmVm \<Rightarrow> WasmVm" where
  "pushed x v = v\<lparr>value_stack := (value_stack v)[vsp v := x], vsp := vsp v + 1\<rparr>"

lemma vm_frames [simp]:
  "vsp (set_frame f v) = vsp v" "vfp (set_frame f v) = vfp v" "vcp (set_frame f v) = vcp v" "wsys (set_frame f v) = wsys v"
  "ctrl_stack (set_frame f v) = ctrl_stack v" "value_stack (set_frame f v) = value_stack v"
  by (simp_all add: set_frame_def)

lemma vm_popped [simp]:
  "vsp (popped k v) = vsp v - k" "vfp (popped k v) = vfp v" "vcp (popped k v) = vcp v" "wsys (popped k v) = wsys v"
  "ctrl_stack (popped k v) = ctrl_stack v" "value_stack (popped k v) = value_stack v"
  "call_stack (popped k v) = call_stack v" "cur_frame (popped k v) = cur_frame v"
  by (simp_all add: popped_def cur_frame_def)

lemma vm_pushed [simp]:
  "vsp (pushed x v) = vsp v + 1" "vfp (pushed x v) = vfp v" "vcp (pushed x v) = vcp v" "wsys (pushed x v) = wsys v"
  "ctrl_stack (pushed x v) = ctrl_stack v" "call_stack (pushed x v) = call_stack v" "cur_frame (pushed x v) = cur_frame v"
  by (simp_all add: pushed_def cur_frame_def)

text \<open>The stacks have their sizes and the pointers are inside: no access panics.\<close>

definition stacks_ok :: "WasmVm \<Rightarrow> bool" where
  "stacks_ok v \<longleftrightarrow>
     length (value_stack v) = 256 \<and> vsp v \<le> 256 \<and> length (call_stack v) = 32 \<and> vfp v < 32 \<and>
     length (ctrl_stack v) = 32 \<and> vcp v \<le> 32"

lemma vm_wf_stacks: "vm_wf i v \<Longrightarrow> stacks_ok v"
  by (simp add: vm_wf_def stacks_ok_def wasm_consts)

lemma stacks_ok_upd [simp]:
  "stacks_ok v \<Longrightarrow> stacks_ok (set_frame f v)" "stacks_ok v \<Longrightarrow> stacks_ok (popped k v)"
  "stacks_ok v \<Longrightarrow> vsp v < 256 \<Longrightarrow> stacks_ok (pushed x v)" "stacks_ok (v\<lparr>wsys := s\<rparr>) = stacks_ok v"
  "stacks_ok v \<Longrightarrow> c \<le> vcp v \<Longrightarrow> stacks_ok (v\<lparr>vcp := c\<rparr>)"
  by (auto simp: stacks_ok_def set_frame_def popped_def pushed_def)

lemma at_idx_in [simp]: "k < length xs \<Longrightarrow> at_idx xs k f = f (xs ! k)"
  by (simp add: at_idx_def)

lemma set_idx_in [simp]: "k < length xs \<Longrightarrow> set_idx xs k x f = f (xs[k := x])"
  by (simp add: set_idx_def)

lemma with_range_in [simp]: "k + n \<le> length xs \<Longrightarrow> with_range xs k n f = f (take n (drop k xs))"
  by (simp add: with_range_def)

lemma stacks_idx [simp]:
  assumes "stacks_ok v"
  shows "with_frame v f = f (cur_frame v)"
    and "put_frame fr v g = g (set_frame fr v)"
    and "0 < k \<Longrightarrow> k \<le> vsp v \<Longrightarrow> with_top k v h = h (top_at k v)"
    and "k \<le> vsp v \<Longrightarrow> drop_top k v = popped k v"
    and "vsp v < 256 \<Longrightarrow> put x v g = g (pushed x v)"
    and "k \<le> vsp v \<Longrightarrow> usize_sub (vsp v) k = vsp v - k"
    and "k \<le> vcp v \<Longrightarrow> usize_sub (vcp v) k = vcp v - k"
    and "usize_add (vcp v) (Suc 0) = Suc (vcp v)" and "usize_add (vfp v) (Suc 0) = Suc (vfp v)"
    and "0 < vfp v \<Longrightarrow> usize_sub (vfp v) (Suc 0) = vfp v - 1"
  using assms
  by (auto simp: stacks_ok_def with_frame_def put_frame_def with_top_def drop_top_def put_def kernel_arith
      cur_frame_def set_frame_def top_at_def popped_def pushed_def)

lemma sys_wf_module: "sys_wf s \<Longrightarrow> i < MAX_WASM_MODULES \<Longrightarrow> module_wf (modules s ! i)"
  by (auto simp: sys_wf_def)

lemma the_module_wf: "vm_wf i v \<Longrightarrow> module_wf (the_module i v)"
  by (simp add: the_module_def vm_wf_def sys_wf_module)

lemma stacks_ctrl: "stacks_ok v \<Longrightarrow> vcp v \<noteq> 0 \<Longrightarrow> vcp v - Suc 0 < length (ctrl_stack v)"
  and stacks_value: "stacks_ok v \<Longrightarrow> vsp v \<noteq> 0 \<Longrightarrow> vsp v - Suc 0 < length (value_stack v)"
  by (auto simp: stacks_ok_def)

lemma goto_in: "stacks_ok v \<Longrightarrow> goto pc v = Go (set_frame ((cur_frame v)\<lparr>fr_pc := pc\<rparr>) v)"
  by (simp add: goto_def)

lemma cur_frame_wf: "vm_wf i v \<Longrightarrow> frame_wf (cur_frame v)"
  by (simp add: vm_wf_def cur_frame_def)

lemma vm_wf_sp: "vm_wf i v \<Longrightarrow> vsp v \<le> 256" "vm_wf i v \<Longrightarrow> vcp v \<le> 32"
  by (simp_all add: vm_wf_def wasm_consts)

lemma vm_wf_push: "vm_wf i v \<Longrightarrow> vsp v < 256 \<Longrightarrow> vm_wf i (pushed x v)"
  by (simp add: vm_wf_def pushed_def wasm_consts)

lemma vm_wf_popped: "vm_wf i v \<Longrightarrow> vm_wf i (popped k v)"
  by (auto simp: vm_wf_def popped_def)

lemma vm_wf_frame: "vm_wf i v \<Longrightarrow> frame_wf f \<Longrightarrow> vm_wf i (set_frame f v)"
  by (auto simp: vm_wf_def set_frame_def dest!: subsetD [OF set_update_subset_insert])

lemma vm_wf_cut: "vm_wf i v \<Longrightarrow> c \<le> vcp v \<Longrightarrow> vm_wf i (v\<lparr>vcp := c\<rparr>)"
  by (simp add: vm_wf_def)

lemma vm_wf_branch: "vm_wf i v \<Longrightarrow> c < vcp v \<Longrightarrow> vm_wf i (v\<lparr>vcp := c, vsp := ctrl_sp (ctrl_stack v ! c)\<rparr>)"
  by (simp add: vm_wf_def)

lemma vm_wf_ctrl:
  "vm_wf i v \<Longrightarrow> vcp v < 32 \<Longrightarrow>
   vm_wf i (v\<lparr>ctrl_stack := (ctrl_stack v)[vcp v := \<lparr>kind = k, pc_cont = p, ctrl_sp = vsp v\<rparr>], vcp := Suc (vcp v)\<rparr>)"
  by (auto simp: vm_wf_def wasm_consts dest!: subsetD [OF set_update_subset_insert])

lemma vm_wf_pop:
  "vm_wf i v \<Longrightarrow> c \<le> vcp v \<Longrightarrow> vm_wf i (v\<lparr>vcp := c, vfp := vfp v - Suc 0, vsp := fr_sp (cur_frame v)\<rparr>)"
  "vm_wf i v \<Longrightarrow> vm_wf i (v\<lparr>vsp := fr_sp (cur_frame v), vfp := vfp v - Suc 0\<rparr>)"
  using cur_frame_wf [of i v] by (auto simp: vm_wf_def frame_wf_def)

lemma vm_wf_stack: "vm_wf i v \<Longrightarrow> vm_wf i (v\<lparr>value_stack := (value_stack v)[k := x]\<rparr>)"
  by (simp add: vm_wf_def)

lemma vm_wf_sys: "vm_wf i v \<Longrightarrow> sys_wf s \<Longrightarrow> vm_wf i (v\<lparr>wsys := s\<rparr>)"
  by (simp add: vm_wf_def)

lemma vm_wf_sysD: "vm_wf i v \<Longrightarrow> sys_wf (wsys v)"
  by (simp add: vm_wf_def)

lemmas vm_wf_upd = vm_wf_push vm_wf_popped vm_wf_frame vm_wf_cut vm_wf_branch vm_wf_ctrl vm_wf_pop vm_wf_stack vm_wf_sys vm_wf_sysD

subsection \<open>Immediates\<close>

fun imm_end :: "u8 list \<Rightarrow> nat \<Rightarrow> usize \<Rightarrow> usize" where
  "imm_end bc 0 pc = pc"
| "imm_end bc (Suc k) pc = imm_end bc k (skip_leb128 bc pc)"

text \<open>How many LEB128 immediates the interpreter decodes after an opcode.\<close>

definition num_imms :: "u8 \<Rightarrow> nat" where
  "num_imms c =
     (if c \<in> {0x0C, 0x0D, 0x10, 0x20, 0x21, 0x22, 0x41, 0x42} then 1
      else if c \<in> {0x28, 0x29} \<or> 0x2C \<le> c \<and> c \<le> 0x37 \<or> 0x3A \<le> c \<and> c \<le> 0x3E then 2
      else 0)"

definition imm_cut :: "usize \<Rightarrow> WasmVm \<Rightarrow> bool" where
  "imm_cut i v \<longleftrightarrow>
     (let bc = the_code i v; pc = fr_pc (cur_frame v) in
      pc < length bc \<and> imm_end bc (num_imms (bc ! pc)) (pc + 1) > length bc)"

text \<open>A return to a caller whose value stack is full.\<close>

definition return_full :: "WasmVm \<Rightarrow> bool" where
  "return_full v \<longleftrightarrow> vfp v > 0 \<and> fr_sp (cur_frame v) \<ge> VALUE_STACK_SIZE"

text \<open>The three decoders read exactly the bytes the scan skips, or run off the end of the code.\<close>

definition decodes :: "u8 list \<Rightarrow> usize \<Rightarrow> ('a \<times> usize) outcome \<Rightarrow> bool" where
  "decodes bc pc r \<longleftrightarrow>
     (\<exists>x. r = Ret (x, skip_leb128 bc pc) \<and> skip_leb128 bc pc \<le> length bc) \<or> r = Panic \<and> length bc < skip_leb128 bc pc"

lemma decodes_end: "\<not> pc < length bc \<Longrightarrow> decodes bc pc Panic"
  by (simp add: decodes_def skip_leb128.simps)

lemma decodes_last: "pc < length bc \<Longrightarrow> bc ! pc AND 0x80 = 0 \<Longrightarrow> decodes bc pc (Ret (x, pc + 1))"
  by (simp add: decodes_def skip_leb128.simps)

lemma decodes_more: "pc < length bc \<Longrightarrow> bc ! pc AND 0x80 \<noteq> 0 \<Longrightarrow> decodes bc (pc + 1) r \<Longrightarrow> decodes bc pc r"
  by (simp add: decodes_def skip_leb128.simps [of bc pc])

lemma leb_u_loop_decodes: "decodes bc pc (leb_u_loop bc pc sh r)"
proof (induction bc pc sh r rule: leb_u_loop.induct)
  case (1 bc pc sh r)
  then show ?case
    by (subst leb_u_loop.simps) (auto simp: Let_def simp del: One_nat_def intro: decodes_end decodes_last decodes_more)
qed

lemma leb_s_loop_decodes: "decodes bc pc (leb_s_loop bc pc sh r)"
proof (induction bc pc sh r rule: leb_s_loop.induct)
  case (1 bc pc sh r)
  then show ?case
    by (subst leb_s_loop.simps) (auto simp: Let_def simp del: One_nat_def intro: decodes_end decodes_last decodes_more)
qed

lemma leb_s64_loop_decodes: "decodes bc pc (leb_s64_loop bc pc sh r)"
proof (induction bc pc sh r rule: leb_s64_loop.induct)
  case (1 bc pc sh r)
  then show ?case
    by (subst leb_s64_loop.simps) (auto simp: Let_def simp del: One_nat_def intro: decodes_end decodes_last decodes_more)
qed

lemma decodesE:
  assumes "decodes bc pc r"
  obtains (got) x where "r = Ret (x, skip_leb128 bc pc)" "skip_leb128 bc pc \<le> length bc"
    | (cut) "r = Panic" "length bc < skip_leb128 bc pc"
  using assms by (auto simp: decodes_def)

section \<open>One step\<close>

text \<open>
  What a step promises: the machine stays well formed, the system state is related by \<open>R\<close>, a panic
  has one of the two causes or \<open>C\<close>, and the hart stops only if \<open>W\<close>.
\<close>

definition good :: "(WasmSys \<Rightarrow> WasmSys \<Rightarrow> bool) \<Rightarrow> bool \<Rightarrow> bool \<Rightarrow> usize \<Rightarrow> WasmVm \<Rightarrow> wstep \<Rightarrow> bool" where
  "good R C W i v r =
     (case r of
        Go v' \<Rightarrow> vm_wf i v' \<and> R (wsys v) (wsys v')
      | Stop v' \<Rightarrow> vm_wf i v' \<and> R (wsys v) (wsys v')
      | Trap e s' \<Rightarrow> sys_wf s' \<and> R (wsys v) s'
      | Crash \<Rightarrow> imm_cut i v \<or> return_full v \<or> C
      | Wedge \<Rightarrow> W)"

definition at_op :: "usize \<Rightarrow> WasmVm \<Rightarrow> u8 list \<Rightarrow> usize \<Rightarrow> u8 \<Rightarrow> bool" where
  "at_op i v bc pc c \<longleftrightarrow> bc = the_code i v \<and> pc = fr_pc (cur_frame v) \<and> pc < length bc \<and> bc ! pc = c"

lemma good_goto: "vm_wf i v' \<Longrightarrow> R (wsys v) (wsys v') \<Longrightarrow> good R C W i v (goto pc v')"
  using cur_frame_wf [of i v'] by (simp add: good_def goto_in vm_wf_stacks vm_wf_frame frame_wf_def)

lemma good_err: "sys_wf (wsys v') \<Longrightarrow> R (wsys v) (wsys v') \<Longrightarrow> good R C W i v (err msg v')"
  by (simp add: good_def err_def)

lemma good_stop: "vm_wf i v' \<Longrightarrow> R (wsys v) (wsys v') \<Longrightarrow> good R C W i v (Stop v')"
  by (simp add: good_def)

lemma good_go: "vm_wf i v' \<Longrightarrow> R (wsys v) (wsys v') \<Longrightarrow> good R C W i v (Go v')"
  by (simp add: good_def)

lemma good_push: "vm_wf i v' \<Longrightarrow> R (wsys v) (wsys v') \<Longrightarrow> good R C W i v (push_goto x pc v')"
  using vm_wf_stacks [of i v']
  by (auto simp: push_goto_def wasm_consts intro!: good_goto good_err vm_wf_push dest: vm_wf_sysD)

lemma good_ctrl: "vm_wf i v' \<Longrightarrow> R (wsys v) (wsys v') \<Longrightarrow> good R C W i v (push_ctrl k p pc v')"
  using vm_wf_stacks [of i v']
  by (auto simp: push_ctrl_def wasm_consts set_idx_def stacks_ok_def kernel_arith intro!: good_goto good_err vm_wf_ctrl dest: vm_wf_sysD)

lemmas good_intros = good_goto good_err good_stop good_go good_push good_ctrl

lemma good_cut: "at_op i v bc pc c \<Longrightarrow> length bc < imm_end bc (num_imms c) (pc + 1) \<Longrightarrow> good R C W i v Crash"
  by (auto simp: good_def imm_cut_def at_op_def Let_def)

lemma good_leb1:
  assumes "at_op i v bc pc c" "num_imms c = 1" "\<And>x new_pc. good R C W i v (f x new_pc)"
  shows "good R C W i v (with_leb bc (pc + 1) f)"
  using leb_u_loop_decodes [of bc "pc + 1" 0 0]
proof (cases rule: decodesE)
  case (got x)
  then show ?thesis using assms(3) by (simp add: with_leb_def leb128_u_def)
next
  case cut
  then show ?thesis using good_cut [OF assms(1)] assms(2) by (simp add: with_leb_def leb128_u_def)
qed

lemma good_leb2:
  assumes "at_op i v bc pc c" "num_imms c = 2" "\<And>x new_pc. good R C W i v (f x new_pc)"
  shows "good R C W i v (with_leb bc (pc + 1) (\<lambda>_ pc1. with_leb bc pc1 f))"
  using leb_u_loop_decodes [of bc "pc + 1" 0 0]
proof (cases rule: decodesE)
  case (got x)
  have "good R C W i v (with_leb bc (skip_leb128 bc (pc + 1)) f)"
    using leb_u_loop_decodes [of bc "skip_leb128 bc (pc + 1)" 0 0]
  proof (cases rule: decodesE)
    case (got x)
    then show ?thesis using assms(3) by (simp add: with_leb_def leb128_u_def)
  next
    case cut
    then show ?thesis using good_cut [OF assms(1)] assms(2) by (simp add: with_leb_def leb128_u_def numeral_2_eq_2)
  qed
  then show ?thesis using got by (simp add: with_leb_def [of bc "Suc pc"] leb128_u_def)
next
  case cut
  then show ?thesis using good_cut [OF assms(1)] assms(2) skip_leb128_grows [of "skip_leb128 bc (pc + 1)" bc]
    by (simp add: with_leb_def leb128_u_def numeral_2_eq_2)
qed

lemma good_const:
  assumes "at_op i v bc pc c" "num_imms c = 1" "vm_wf i v" "R (wsys v) (wsys v)"
  shows "good R C W i v (op_i32_const bc pc v)" "good R C W i v (op_i64_const bc pc v)"
proof -
  show "good R C W i v (op_i32_const bc pc v)"
    using leb_s_loop_decodes [of bc "pc + 1" 0 0]
  proof (cases rule: decodesE)
    case (got x)
    then show ?thesis using assms(3,4) by (simp add: op_i32_const_def leb128_s_def good_push)
  next
    case cut
    then show ?thesis using good_cut [OF assms(1)] assms(2) by (simp add: op_i32_const_def leb128_s_def)
  qed
  show "good R C W i v (op_i64_const bc pc v)"
    using leb_s64_loop_decodes [of bc "pc + 1" 0 0]
  proof (cases rule: decodesE)
    case (got x)
    then show ?thesis using assms(3,4) by (simp add: op_i64_const_def leb128_s64_def good_push)
  next
    case cut
    then show ?thesis using good_cut [OF assms(1)] assms(2) by (simp add: op_i64_const_def leb128_s64_def)
  qed
qed

subsection \<open>Control flow and calls\<close>

lemma good_branch:
  assumes wf: "vm_wf i v'" and R: "R (wsys v) (wsys v')"
  shows "good R C W i v (branch_to msg label v')"
proof (cases "label < vcp v'")
  case True
  have st: "stacks_ok v'" by (rule vm_wf_stacks [OF wf])
  have t: "usize_sub (usize_sub (vcp v') 1) label = vcp v' - 1 - label" "vcp v' - 1 - label < length (ctrl_stack v')"
    "usize_add (vcp v' - 1 - label) 1 = vcp v' - label" "vcp v' - 1 - label < vcp v'"
    using st True by (auto simp: stacks_ok_def kernel_arith)
  show ?thesis
    unfolding branch_to_def Let_def t(1,3) at_idx_in [OF t(2)]
    using True t(4) R by (auto intro!: good_goto vm_wf_cut [OF wf] vm_wf_branch [OF wf])
qed (use assms in \<open>auto simp: branch_to_def intro!: good_err vm_wf_sysD\<close>)

lemma good_control:
  assumes "vm_wf i v" "R (wsys v) (wsys v)"
  shows "good R C W i v (op_block bc pc v)" "good R C W i v (op_loop bc pc v)" "good R C W i v (op_if bc pc v)"
    "good R C W i v (op_else bc pc v)" "good R C W i v (op_end pc v)"
  using assms vm_wf_stacks [OF assms(1)]
  by (auto simp: op_block_def op_loop_def op_if_def op_else_def op_end_def stacks_ctrl Let_def split: sum.split
      intro!: good_intros vm_wf_upd)

lemma good_branches:
  assumes "vm_wf i v" "R (wsys v) (wsys v)"
  shows "at_op i v bc pc 0x0C \<Longrightarrow> good R C W i v (op_br bc pc v)"
    and "at_op i v bc pc 0x0D \<Longrightarrow> good R C W i v (op_br_if bc pc v)"
  using assms vm_wf_stacks [OF assms(1)] unfolding op_br_def op_br_if_def Let_def
  by (auto simp: num_imms_def simp del: One_nat_def intro!: good_leb1 good_branch good_intros vm_wf_upd)

lemma unwind_in: "n \<le> length cs \<Longrightarrow> \<exists>c. unwind cs n = Some c \<and> c \<le> n"
  by (induction n) (auto simp: le_Suc_eq)

text \<open>Writing the result of a function and going on with the caller.\<close>

lemma vm_wf_less: "vm_wf i v \<Longrightarrow> n \<le> vsp v \<Longrightarrow> vm_wf i (v\<lparr>vsp := n\<rparr>)"
  by (simp add: vm_wf_def)

lemma good_put_result:
  assumes "vm_wf i (v\<lparr>vcp := c, vfp := k, vsp := fr_sp (cur_frame v)\<rparr>)" "0 < vfp v"
    and "\<And>v'. vm_wf i v' \<Longrightarrow> wsys v' = wsys v \<Longrightarrow> good R C W i v (f v')"
  shows "good R C W i v (put x (v\<lparr>vcp := c, vfp := k, vsp := fr_sp (cur_frame v)\<rparr>) f)"
proof (cases "fr_sp (cur_frame v) < 256")
  case True
  then show ?thesis using assms(1,3) vm_wf_push [OF assms(1), of x] vm_wf_stacks [OF assms(1)] by simp
next
  case False
  then show ?thesis using assms(2) vm_wf_stacks [OF assms(1)]
    by (simp add: put_def set_idx_def stacks_ok_def good_def return_full_def wasm_consts)
qed

lemma good_result:
  "stacks_ok v \<Longrightarrow> (\<And>x. good R C W i v (f x)) \<Longrightarrow> good R C W i v (with_result fr v f)"
  by (simp add: with_result_def)

lemma good_return:
  assumes wf: "vm_wf i v" and R: "R (wsys v) (wsys v)"
  shows "good R C W i v (op_return v)"
proof -
  have st: "stacks_ok v" by (rule vm_wf_stacks [OF wf])
  obtain c where c: "unwind (ctrl_stack v) (vcp v) = Some c" "c \<le> vcp v"
    using unwind_in [of "vcp v" "ctrl_stack v"] st by (auto simp: stacks_ok_def)
  have go: "good R C W i v (with_frame v' (\<lambda>caller. goto (fr_pc caller) v'))" if "vm_wf i v'" "wsys v' = wsys v" for v'
    using that R vm_wf_stacks [OF that(1)] by (auto intro: good_goto)
  have "good R C W i v (put x (v\<lparr>vcp := c, vfp := vfp v - Suc 0, vsp := fr_sp (cur_frame v)\<rparr>)
      (\<lambda>v2. with_frame v2 (\<lambda>caller. goto (fr_pc caller) v2)))" if "0 < vfp v" for x
    by (rule good_put_result [OF vm_wf_pop(1) [OF wf c(2)] that go])
  then show ?thesis
    using st c R vm_wf_sysD [OF wf]
    by (auto simp: op_return_def Let_def intro!: good_result good_err)
qed

lemma good_fall_off:
  assumes wf: "vm_wf i v" and R: "R (wsys v) (wsys v)"
  shows "good R C W i v (fall_off v)"
proof -
  have st: "stacks_ok v" by (rule vm_wf_stacks [OF wf])
  have go: "good R C W i v (if vfp v' = 0 then Stop v' else Go v')" if "vm_wf i v'" "wsys v' = wsys v" for v'
    using that R by (auto intro: good_stop good_go)
  have e: "v\<lparr>vsp := a, vfp := b\<rparr> = v\<lparr>vcp := vcp v, vfp := b, vsp := a\<rparr>" for a b by (cases v) simp
  have "good R C W i v (put x (v\<lparr>vsp := fr_sp (cur_frame v), vfp := vfp v - Suc 0\<rparr>)
      (\<lambda>v1. if vfp v1 = 0 then Stop v1 else Go v1))" if "0 < vfp v" for x
    unfolding e by (rule good_put_result [OF vm_wf_pop(1) [OF wf order_refl] that go])
  then show ?thesis
    using st wf R by (auto simp: fall_off_def intro!: good_result good_stop)
qed

lemma good_call_def:
  assumes wf: "vm_wf i v" and R: "R (wsys v) (wsys v)"
  shows "good R C W i v (op_call_def i k pc v)"
proof (cases "k < num_functions (the_module i v)")
  case True
  let ?w = "the_module i v"
  let ?n = "type_get (type_params ?w) (unat (func_types ?w ! k))"
  let ?v1 = "set_frame ((cur_frame v)\<lparr>fr_pc := pc\<rparr>) v"
  let ?v2 = "?v1\<lparr>vfp := Suc (vfp v)\<rparr>"
  have st: "stacks_ok v" by (rule vm_wf_stacks [OF wf])
  have k: "k < length (func_types ?w)" "k < length (code_offsets ?w)"
    using True the_module_wf [OF wf] by (auto simp: module_wf_def)
  have v1: "vm_wf i ?v1" using cur_frame_wf [OF wf] by (intro vm_wf_frame wf) (simp add: frame_wf_def)
  have v2: "vm_wf i ?v2" if "Suc (vfp v) < 32"
    using v1 that by (auto simp: vm_wf_def wasm_consts)
  have f: "frame_wf \<lparr>fr_func = k, fr_pc = p, fr_sp = vsp v - ?n,
      locals = take (min ?n MAX_LOCALS) (drop (vsp v - ?n) (value_stack v)) @ replicate (MAX_LOCALS - min ?n MAX_LOCALS) 0\<rparr>"
    if "?n \<le> vsp v" for p
    using wf that by (auto simp: frame_wf_def vm_wf_def wasm_consts)
  have r: "vsp v - ?n + min ?n MAX_LOCALS \<le> length (value_stack v)" if "?n \<le> vsp v"
    using st that by (auto simp: stacks_ok_def)
  have c: "good R C W i v (push_ctrl CTRL_FUNC 0 p ((set_frame fr ?v2)\<lparr>vsp := vsp v - ?n\<rparr>))"
    if "frame_wf fr" "Suc (vfp v) < 32" for fr p
    using vm_wf_frame [OF v2 [OF that(2)] that(1)] R by (intro good_ctrl vm_wf_less) simp_all
  show ?thesis
    using True st k v1 R c f r vm_wf_stacks [OF v2] vm_wf_sysD [OF wf]
    by (auto simp: op_call_def_def Let_def not_less not_le wasm_consts intro!: good_err)
qed (use assms vm_wf_sysD [OF assms(1)] in \<open>auto simp: op_call_def_def Let_def intro: good_err\<close>)

lemma good_call:
  assumes "vm_wf i v" "R (wsys v) (wsys v)" "at_op i v bc pc 0x10"
    and "\<And>k pc. k < MAX_IMPORTS \<Longrightarrow> good R C W i v (op_call_host N i k pc v)"
  shows "good R C W i v (op_call N i bc pc v)"
proof -
  have "vm_imports v \<le> MAX_IMPORTS" using assms(1) by (simp add: vm_wf_def)
  then show ?thesis
    unfolding op_call_def using assms(1,2,4)
    by (intro good_leb1 [OF assms(3)]) (auto simp: num_imms_def intro: good_call_def)
qed

subsection \<open>Operands\<close>

lemma good_put_local:
  assumes wf: "vm_wf i v'" and R: "R (wsys v) (wsys v')" and k: "k < MAX_LOCALS"
  shows "good R C W i v (put_local k x pc v')"
  using assms cur_frame_wf [OF wf] vm_wf_stacks [OF wf]
  by (auto simp: put_local_def frame_wf_def intro!: good_goto vm_wf_frame)

lemma good_locals:
  assumes "vm_wf i v" "R (wsys v) (wsys v)"
  shows "at_op i v bc pc 0x20 \<Longrightarrow> good R C W i v (op_local_get bc pc v)"
    and "at_op i v bc pc 0x21 \<Longrightarrow> good R C W i v (op_local_set bc pc v)"
    and "at_op i v bc pc 0x22 \<Longrightarrow> good R C W i v (op_local_tee bc pc v)"
  using assms cur_frame_wf [OF assms(1)] vm_wf_stacks [OF assms(1)]
  unfolding op_local_get_def op_local_set_def op_local_tee_def
  by (auto simp: num_imms_def frame_wf_def VALUE_STACK_SIZE_def simp del: One_nat_def
      intro!: good_leb1 good_put_local good_intros vm_wf_upd)

lemma good_arith:
  assumes wf: "vm_wf i v" and R: "R (wsys v) (wsys v)"
  shows "good R C W i v (op_unary nm f pc v)" "good R C W i v (op_binary nm g pc v)" "good R C W i v (op_select pc v)"
    "good R C W i v (op_memory_size i pc v)"
  using assms vm_wf_sp(1) [OF wf] vm_wf_stacks [OF wf]
  by (auto simp: op_unary_def op_binary_def op_select_def op_memory_size_def stacks_value Let_def split: sum.split
      intro!: good_intros vm_wf_upd)

lemma good_load:
  assumes "vm_wf i v" "R (wsys v) (wsys v)" "at_op i v bc pc c" "num_imms c = 2"
  shows "good R C W i v (op_load nm n sx i bc pc v)"
  unfolding op_load_def Let_def using assms(1,2) vm_wf_stacks [OF assms(1)]
  by (intro good_leb2 [OF assms(3,4)]) (auto intro!: good_intros vm_wf_upd)

section \<open>Confinement\<close>

text \<open>
  A module may change its linear memory and take blocks from the free part of the kernel heap.
  \<open>mem_block\<close> is its linear memory with the canaries on both sides.
\<close>

definition lin_mem :: "usize \<Rightarrow> WasmSys \<Rightarrow> usize set" where
  "lin_mem i s = (let w = modules s ! i in {mem_ptr w..<mem_ptr w + mem_pages w * MEM_PAGE_SIZE})"

definition mem_block :: "usize \<Rightarrow> WasmSys \<Rightarrow> usize set" where
  "mem_block i s = (let w = modules s ! i in {mem_ptr w - 8..<mem_ptr w + mem_pages w * MEM_PAGE_SIZE + 8})"

definition free_heap :: "WasmSys \<Rightarrow> usize set" where
  "free_heap s = {bump_next (bump (heap s))..<bump_end (bump (heap s))}"

text \<open>Nothing of the system state changes but the memory, its allocator and the statistics.\<close>

definition same_sys :: "usize \<Rightarrow> WasmSys \<Rightarrow> WasmSys \<Rightarrow> bool" where
  "same_sys i s s' \<longleftrightarrow>
     host_funcs s' = host_funcs s \<and> host_func_count s' = host_func_count s \<and> syscall_table s' = syscall_table s \<and>
     wasm_count s' = wasm_count s \<and> (\<forall>j. j \<noteq> i \<longrightarrow> modules s' ! j = modules s ! j) \<and>
     (modules s' ! i)\<lparr>mem_ptr := 0, mem_pages := 0\<rparr> = (modules s ! i)\<lparr>mem_ptr := 0, mem_pages := 0\<rparr>"

definition confined :: "usize set \<Rightarrow> usize \<Rightarrow> WasmSys \<Rightarrow> WasmSys \<Rightarrow> bool" where
  "confined H i s s' \<longleftrightarrow>
     mem_ok i s' \<and> lin_mem i s' \<union> free_heap s' \<subseteq> lin_mem i s \<union> free_heap s \<and>
     mem_block i s' \<union> free_heap s' \<subseteq> mem_block i s \<union> free_heap s \<and>
     changes_only (lin_mem i s \<union> free_heap s \<union> H) (ram (heap s)) (ram (heap s')) \<and> same_sys i s s'"

text \<open>
  What a call into native code may give in a state: the code of a host function of the table, or the
  system-call dispatcher with a number of the table and the process of the module, on any arguments.
\<close>

definition native_gives :: "Native \<Rightarrow> usize \<Rightarrow> WasmSys \<Rightarrow> (i64 \<times> WasmSys) outcome \<Rightarrow> bool" where
  "native_gives N i s r \<longleftrightarrow>
     (\<exists>e\<in>set (host_funcs s). \<exists>f args. hfunc e = Some f \<and> call_host N f args s = r) \<or>
     (\<exists>e\<in>set (syscall_table s). \<exists>args. call_syscall N (syscall_nr e) args (wpid (modules s ! i)) s = r)"

text \<open>
  Native code that keeps its hands off the module: it leaves the tables of the runtime as they are,
  may allocate from the kernel heap, and writes in what it allocates, in the linear memory of the
  module and in \<open>H\<close>.
\<close>

definition native_ok :: "usize set \<Rightarrow> usize \<Rightarrow> WasmSys \<Rightarrow> WasmSys \<Rightarrow> bool" where
  "native_ok H i s s' \<longleftrightarrow>
     sys_wf s' \<and> modules s' = modules s \<and> wasm_count s' = wasm_count s \<and> host_funcs s' = host_funcs s \<and>
     host_func_count s' = host_func_count s \<and> syscall_table s' = syscall_table s \<and>
     bump_end (bump (heap s')) = bump_end (bump (heap s)) \<and> bump_next (bump (heap s)) \<le> bump_next (bump (heap s')) \<and>
     changes_only (lin_mem i s \<union> free_heap s \<union> H) (ram (heap s)) (ram (heap s'))"

lemma same_sys_refl: "same_sys i s s"
  by (simp add: same_sys_def)

lemma same_sys_trans: "same_sys i s s' \<Longrightarrow> same_sys i s' s'' \<Longrightarrow> same_sys i s s''"
  by (auto simp: same_sys_def)

lemma confined_refl: "mem_ok i s \<Longrightarrow> confined H i s s"
  by (simp add: confined_def same_sys_refl)

lemma confined_trans:
  assumes "confined H i s s'" "confined H i s' s''"
  shows "confined H i s s''"
proof -
  have "changes_only (lin_mem i s \<union> free_heap s \<union> H) (ram (heap s')) (ram (heap s''))"
    using assms by (auto simp: confined_def elim!: changes_only_mono)
  then have "changes_only (lin_mem i s \<union> free_heap s \<union> H) (ram (heap s)) (ram (heap s''))"
    using assms(1) by (auto simp: confined_def elim: changes_only_trans)
  then show ?thesis using assms same_sys_trans [of i s s' s''] by (auto simp: confined_def)
qed

subsection \<open>Changes of the system state\<close>

lemma set_ram_simps [simp]:
  "modules (set_ram m s) = modules s" "host_funcs (set_ram m s) = host_funcs s"
  "host_func_count (set_ram m s) = host_func_count s" "syscall_table (set_ram m s) = syscall_table s"
  "wasm_count (set_ram m s) = wasm_count s" "perf_stats (set_ram m s) = perf_stats s"
  "bump (heap (set_ram m s)) = bump (heap s)" "ram (heap (set_ram m s)) = m"
  by (simp_all add: set_ram_def)

lemma count_forward_simps [simp]:
  "modules (count_forward i s) = modules s" "host_funcs (count_forward i s) = host_funcs s"
  "host_func_count (count_forward i s) = host_func_count s" "syscall_table (count_forward i s) = syscall_table s"
  "wasm_count (count_forward i s) = wasm_count s" "heap (count_forward i s) = heap s"
  "length (perf_stats (count_forward i s)) = length (perf_stats s)"
  by (simp_all add: count_forward_def)

lemma sys_wf_set_ram [simp]: "sys_wf (set_ram m s) = sys_wf s"
  by (simp add: sys_wf_def heap_ok_def)

lemma sys_wf_count_forward [simp]: "sys_wf (count_forward i s) = sys_wf s"
  by (simp add: sys_wf_def)

lemma confined_count_forward: "confined H i s s' \<Longrightarrow> confined H i s (count_forward i s')"
  by (simp add: confined_def mem_ok_def lin_mem_def free_heap_def mem_block_def same_sys_def)

text \<open>Native code that keeps its hands off the module confines it.\<close>

lemma confined_native:
  assumes ok: "mem_ok i s" and H: "H \<inter> (mem_block i s \<union> free_heap s) = {}" and n: "native_ok H i s s'"
  shows "confined H i s s'"
proof -
  let ?w = "modules s ! i"
  have b: "live_block (heap s) (mem_ptr ?w) (mem_pages ?w * MEM_PAGE_SIZE)" using ok by (simp add: mem_ok_def Let_def)
  have e: "mem_ptr ?w + mem_pages ?w * MEM_PAGE_SIZE + 8 \<le> bump_next (bump (heap s))" "8 \<le> mem_ptr ?w"
    using b by (auto simp: live_block_def)
  have s: "modules s' = modules s" "bump_end (bump (heap s')) = bump_end (bump (heap s))"
    "bump_next (bump (heap s)) \<le> bump_next (bump (heap s'))"
    "changes_only (lin_mem i s \<union> free_heap s \<union> H) (ram (heap s)) (ram (heap s'))"
    using n by (simp_all add: native_ok_def)
  have "live_block (heap s') (mem_ptr ?w) (mem_pages ?w * MEM_PAGE_SIZE)"
    by (rule live_block_ram [OF b s(4,3)])
      (use H e in \<open>auto simp: lin_mem_def free_heap_def mem_block_def Let_def disjoint_iff\<close>)
  then have "mem_ok i s'" using ok s(1) by (simp add: mem_ok_def Let_def)
  moreover have "free_heap s' \<subseteq> free_heap s" using s(2,3) by (auto simp: free_heap_def)
  ultimately show ?thesis
    using n s by (auto simp: confined_def lin_mem_def mem_block_def same_sys_def native_ok_def)
qed

lemma confined_set_ram:
  assumes "mem_ok i s" "sys_wf s" "H \<inter> (mem_block i s \<union> free_heap s) = {}" "changes_only (lin_mem i s) (ram (heap s)) m"
  shows "confined H i s (set_ram m s)"
  using assms(2,4) by (intro confined_native [OF assms(1,3)]) (auto simp: native_ok_def elim: changes_only_mono)

subsection \<open>Host calls\<close>

lemma find_host_native:
  assumes "sys_wf s" "find_host s nm = r"
  obtains "r = Ret None" | f e where "r = Ret (Some f)" "e \<in> set (host_funcs s)" "hfunc e = Some f"
proof (cases "find (\<lambda>e. name_eq32 (hname e) nm) (take (host_func_count s) (host_funcs s))")
  case None
  then show thesis using assms that(1) by (auto simp: find_host_def sys_wf_def)
next
  case (Some e)
  then have "e \<in> set (host_funcs s)" by (auto simp: find_Some_iff dest!: nth_mem in_set_takeD)
  then show thesis using Some assms(2) that by (cases "hfunc e") (auto simp: find_host_def)
qed

lemma lookup_by_func_in: "lookup_by_func t nm = Some nr \<Longrightarrow> \<exists>e\<in>set t. syscall_nr e = nr"
  by (auto simp: lookup_by_func_def find_Some_iff)

lemma host_answer_cases:
  assumes wf: "sys_wf s" "i < MAX_WASM_MODULES" and keep: "\<forall>r s'. native_gives N i s (Ret (r, s')) \<longrightarrow> sys_wf s'"
  obtains (none) "host_answer N i nm args s = Ret None"
    | (panic) "host_answer N i nm args s = Panic" "native_gives N i s Panic"
    | (hang) "host_answer N i nm args s = Hang" "native_gives N i s Hang"
    | (some) r s1 s' where "host_answer N i nm args s = Ret (Some (r, s'))" "native_gives N i s (Ret (r, s1))"
        "s' = s1 \<or> s' = count_forward i s1"
proof (cases rule: find_host_native [OF wf(1) refl, of nm])
  case 1
  show thesis
  proof (cases "lookup_by_func (syscall_table s) (name_to_slice nm)")
    case None
    then show thesis using 1 by (intro none) (simp add: host_answer_def)
  next
    case (Some nr)
    then have g: "native_gives N i s (dispatch_syscall N nr args (wpid (modules s ! i)) s)"
      using lookup_by_func_in [OF Some] by (auto simp: native_gives_def dispatch_syscall_def)
    show thesis
    proof (cases "dispatch_syscall N nr args (wpid (modules s ! i)) s")
      case (Ret x)
      obtain r s1 where x: "x = (r, s1)" by (cases x)
      have n: "native_gives N i s (Ret (r, s1))" using g Ret x by simp
      have "i < length (perf_stats s1)" using keep n wf(2) by (simp add: sys_wf_def)
      then show thesis using 1 Some Ret x n by (intro some [of r "count_forward i s1" s1]) (simp_all add: host_answer_def)
    next
      case Panic
      then show thesis using 1 Some g by (intro panic) (simp_all add: host_answer_def)
    next
      case Hang
      then show thesis using 1 Some g by (intro hang) (simp_all add: host_answer_def)
    qed
  qed
next
  case (2 f e)
  then have g: "native_gives N i s (call_host N f args s)" by (auto simp: native_gives_def)
  show thesis
  proof (cases "call_host N f args s")
    case (Ret x)
    then show thesis using 2(1) g by (intro some [of "fst x" "snd x" "snd x"]) (auto simp: host_answer_def split: prod.split)
  qed (use 2(1) g panic hang in \<open>simp_all add: host_answer_def\<close>)
qed

lemma good_call_host:
  assumes wf: "vm_wf i v" and R: "R (wsys v) (wsys v)" and k: "k < MAX_IMPORTS"
    and keep: "\<And>r s'. native_gives N i (wsys v) (Ret (r, s')) \<Longrightarrow> sys_wf s' \<and> R (wsys v) s' \<and> R (wsys v) (count_forward i s')"
  shows "good R (native_gives N i (wsys v) Panic) (native_gives N i (wsys v) Hang) i v (op_call_host N i k pc v)"
proof -
  let ?g = "good R (native_gives N i (wsys v) Panic) (native_gives N i (wsys v) Hang) i v"
  have st: "stacks_ok v" by (rule vm_wf_stacks [OF wf])
  have i: "sys_wf (wsys v)" "i < MAX_WASM_MODULES" using wf by (simp_all add: vm_wf_def)
  have l: "k < length (import_types (the_module i v))" "k < length (import_names (the_module i v))"
    using k the_module_wf [OF wf] by (simp_all add: module_wf_def)
  have keep': "\<forall>r s'. native_gives N i (wsys v) (Ret (r, s')) \<longrightarrow> sys_wf s'" using keep by blast
  have a: "?g (case host_answer N i nm args (wsys v) of
          Panic \<Rightarrow> Crash | Hang \<Rightarrow> Wedge | Ret None \<Rightarrow> err msg (popped n v)
        | Ret (Some (r, s)) \<Rightarrow> (let v2 = (popped n v)\<lparr>wsys := s\<rparr> in if nr > 0 then push_goto r pc v2 else goto pc v2))"
    for nm args msg n and nr :: nat
    using i keep'
  proof (cases rule: host_answer_cases [of "wsys v" i N nm args])
    case (some r s1 s')
    then have "sys_wf s'" "R (wsys v) s'" using keep [OF some(2)] by auto
    then show ?thesis using some(1) wf by (auto simp: Let_def intro!: good_intros vm_wf_sys vm_wf_popped)
  qed (use keep R i in \<open>auto simp: good_def err_def\<close>)
  show ?thesis
    using R st l i a
    by (auto simp: op_call_host_def Let_def not_less stacks_ok_def [of v] intro!: good_err)
qed

lemma good_store:
  assumes wf: "vm_wf i v" and R: "R (wsys v) (wsys v)" and a: "at_op i v bc pc c" "num_imms c = 2"
    and Rm: "\<And>m. changes_only (lin_mem i (wsys v)) (ram (heap (wsys v))) m \<Longrightarrow> R (wsys v) (set_ram m (wsys v))"
  shows "good R C W i v (op_store nm n i bc pc v)"
proof -
  let ?w = "modules (wsys v) ! i"
  have "R (wsys v) (set_ram (write_bytes (mem_ptr ?w + ea) (to_le n x) (ram (heap (wsys v)))) (wsys v))"
    if "\<not> ea + n > mem_pages ?w * MEM_PAGE_SIZE" for ea and x :: i64
    using that by (intro Rm changes_only_write) (auto simp: lin_mem_def Let_def)
  then show ?thesis
    unfolding op_store_def Let_def using wf R vm_wf_sysD [OF wf] vm_wf_stacks [OF wf]
    by (intro good_leb2 [OF a]) (auto simp: the_module_def intro!: good_goto good_err vm_wf_sys vm_wf_popped)
qed

subsection \<open>Growing the memory\<close>

text \<open>The number of pages asked for, added to the current one, wraps around.\<close>

definition grow_wraps :: "usize \<Rightarrow> WasmVm \<Rightarrow> bool" where
  "grow_wraps i v \<longleftrightarrow>
     (let bc = the_code i v; pc = fr_pc (cur_frame v) in
      pc < length bc \<and> bc ! pc = 0x40 \<and> 0 < vsp v \<and> 2 ^ 64 \<le> mem_pages (the_module i v) + unat (top_at 1 v))"

lemma sys_wf_heap: "sys_wf s \<Longrightarrow> heap_ok h \<Longrightarrow> sys_wf (s\<lparr>heap := h\<rparr>)"
  by (simp add: sys_wf_def)

lemma sys_wf_upd_module: "sys_wf s \<Longrightarrow> module_wf (f (modules s ! i)) \<Longrightarrow> sys_wf (upd_module i f s)"
  by (auto simp: sys_wf_def upd_module_def dest!: subsetD [OF set_update_subset_insert])

lemma module_wf_mem: "module_wf w \<Longrightarrow> n \<le> MAX_MEM_PAGES \<Longrightarrow> module_wf (w\<lparr>mem_ptr := p, mem_pages := n\<rparr>)"
  by (simp add: module_wf_def)

text \<open>The relation that says nothing of the system state.\<close>

abbreviation any_sys :: "WasmSys \<Rightarrow> WasmSys \<Rightarrow> bool" where
  "any_sys \<equiv> \<lambda>_ _. True"

lemma grow_to_typed:
  assumes wf: "vm_wf i v" and sp: "vsp v < 256" and n: "new \<le> 4"
  shows "good any_sys False True i v (grow_to i cur new pc v)"
proof -
  let ?h = "heap (wsys v)"
  let ?sz = "(new * MEM_PAGE_SIZE) mod 2 ^ 64"
  have sys: "sys_wf (wsys v)" "heap_ok ?h" using wf by (auto simp: vm_wf_def sys_wf_def)
  have m: "module_wf (modules (wsys v) ! i)" using wf sys by (auto simp: vm_wf_def sys_wf_module)
  have szb: "?sz \<le> 2 ^ 31" using n by (simp add: wasm_consts)
  have al: "(16 :: usize) \<le> 2 ^ 16" by simp
  have st: "stacks_ok v" by (rule vm_wf_stacks [OF wf])
  have put: "good any_sys False True i v (goto pc (pushed x (v\<lparr>wsys := s\<rparr>)))"
    and put': "good any_sys False True i v (Go (pushed x (v\<lparr>wsys := s\<rparr>)))" if "sys_wf s" for x s
    using wf sp that by (auto intro!: good_goto good_go vm_wf_push vm_wf_sys)
  show ?thesis
  proof (cases rule: heap_alloc_zeroed_spec [OF sys(2) zero_less_numeral al szb])
    case 1
    then show ?thesis using put [of "(wsys v)\<lparr>heap := ?h\<rparr>"] put' [of "wsys v"] sys sp st
      by (auto simp: grow_to_def Let_def)
  next
    case (2 p h)
    let ?h1 = "if mem_ptr (the_module i v) \<noteq> 0
      then h\<lparr>ram := write_bytes p (read_bytes (mem_ptr (the_module i v)) (cur * MEM_PAGE_SIZE) (ram h)) (ram h)\<rparr> else h"
    have h1: "heap_ok ?h1" using 2(2) by (simp add: heap_ok_def)
    have g: "good any_sys False True i v (goto pc (pushed x (v\<lparr>wsys := upd_module i
        (\<lambda>w. w\<lparr>mem_ptr := p, mem_pages := new\<rparr>) ((wsys v)\<lparr>heap := h2\<rparr>)\<rparr>)))" if "heap_ok h2" for x h2
      using that m n sys by (intro put sys_wf_upd_module sys_wf_heap) (auto simp: wasm_consts intro!: module_wf_mem)
    have d: "good any_sys False True i v (case heap_dealloc q k ?h1 of Panic \<Rightarrow> Crash | Hang \<Rightarrow> Wedge | Ret h2 \<Rightarrow>
        put x (v\<lparr>wsys := upd_module i (\<lambda>w. w\<lparr>mem_ptr := p, mem_pages := new\<rparr>) ((wsys v)\<lparr>heap := h2\<rparr>)\<rparr>) (goto pc))" for q k x
    proof (cases rule: heap_dealloc_cases [of q k ?h1])
      case hang
      then show ?thesis by (simp add: good_def)
    next
      case (freed h2)
      then show ?thesis using g [of h2] h1 heap_ok_bump [of h2 ?h1] sp st by simp
    qed
    show ?thesis
      using 2(1) g [of h] put' put' [OF sys(1)] sys d h1 2(2) sp st
      by (auto simp: grow_to_def Let_def sys_wf_heap)
  qed
qed

lemma good_grow_typed:
  assumes wf: "vm_wf i v"
  shows "good any_sys False True i v (op_memory_grow i pc v)"
proof -
  have st: "stacks_ok v" by (rule vm_wf_stacks [OF wf])
  have v1: "vm_wf i (popped 1 v)" and sp: "vsp v \<noteq> 0 \<Longrightarrow> vsp (popped 1 v) < 256"
    using wf vm_wf_sp(1) [OF wf] by (auto intro: vm_wf_popped)
  have "mem_max_pages (the_module i v) \<le> 4"
    using the_module_wf [OF wf] by (simp add: module_wf_def wasm_consts)
  then have g: "good any_sys False True i v (grow_to i cur n pc' (popped 1 v))"
    if "n \<le> mem_max_pages (the_module i v)" "vsp v \<noteq> 0" for cur n pc'
    using grow_to_typed [OF v1 sp, of n cur pc'] that by (auto simp: good_def imm_cut_def return_full_def the_code_def the_module_def split: wstep.splits)
  show ?thesis
    using wf sp v1 g st by (auto simp: op_memory_grow_def Let_def intro!: good_err good_goto vm_wf_push dest: vm_wf_sysD)
qed

lemma grow_to_confined:
  assumes wf: "vm_wf i v" and sp: "vsp v < 256" and ok: "mem_ok i (wsys v)"
    and n: "mem_pages (the_module i v) < new" "new \<le> 4"
  shows "good (confined H i) False False i v (grow_to i (mem_pages (the_module i v)) new pc v)"
proof -
  let ?s = "wsys v"
  let ?w = "modules ?s ! i"
  let ?sz = "new * MEM_PAGE_SIZE"
  have i: "i < length (modules ?s)" and sys: "sys_wf ?s" "heap_ok (heap ?s)" using wf by (auto simp: vm_wf_def sys_wf_def)
  have b: "live_block (heap ?s) (mem_ptr ?w) (mem_pages ?w * MEM_PAGE_SIZE)" "mem_ptr ?w \<noteq> 0"
    using ok by (auto simp: mem_ok_def Let_def live_block_def)
  have sz: "mem_pages ?w * MEM_PAGE_SIZE \<le> ?sz" "?sz \<le> 2 ^ 31" "?sz mod 2 ^ 64 = ?sz"
    using n by (simp_all add: wasm_consts the_module_def)
  have lay: "layout_ok ?sz" "layout_ok (mem_pages ?w * MEM_PAGE_SIZE)" using n by (auto simp: layout_ok_def wasm_consts the_module_def)
  have al: "(16 :: usize) \<le> 2 ^ 16" by simp
  have g: "good (confined H i) False False i v (goto pc (pushed x (v\<lparr>wsys := s\<rparr>)))" if "sys_wf s" "confined H i ?s s" for x s
    using wf sp that by (auto intro!: good_goto vm_wf_push vm_wf_sys)
  have st: "stacks_ok v" by (rule vm_wf_stacks [OF wf])
  show ?thesis
  proof (cases rule: heap_alloc_zeroed_spec [OF sys(2) zero_less_numeral al sz(2)])
    case 1
    then show ?thesis using g [of ?s] sys confined_refl [OF ok] lay sz sp st
      by (simp add: grow_to_def Let_def)
  next
    case (2 p h1)
    from kh.regrow [OF b(1) sys(2) sz(1,2) 2(1)] obtain h2 where
      d: "heap_dealloc (mem_ptr ?w) (mem_pages ?w * MEM_PAGE_SIZE) (h1\<lparr>ram := write_bytes p
          (read_bytes (mem_ptr ?w) (mem_pages ?w * MEM_PAGE_SIZE) (ram h1)) (ram h1)\<rparr>) = Ret h2"
      and h2: "heap_ok h2" "live_block h2 p ?sz" "bump_next (bump (heap ?s)) + 8 \<le> p"
        "bump_end (bump h2) = bump_end (bump (heap ?s))" "bump_next (bump h2) = p + ?sz + 8"
        "changes_only {bump_next (bump (heap ?s))..<bump_end (bump (heap ?s))} (ram (heap ?s)) (ram h2)" .
    let ?s' = "upd_module i (\<lambda>w. w\<lparr>mem_ptr := p, mem_pages := new\<rparr>) (?s\<lparr>heap := h2\<rparr>)"
    have "sys_wf ?s'"
      using sys h2(1) n wf by (intro sys_wf_upd_module sys_wf_heap module_wf_mem)
        (auto simp: wasm_consts vm_wf_def intro: sys_wf_module)
    moreover have "mem_ok i ?s' \<and> lin_mem i ?s' \<union> free_heap ?s' \<subseteq> lin_mem i ?s \<union> free_heap ?s \<and>
        mem_block i ?s' \<union> free_heap ?s' \<subseteq> mem_block i ?s \<union> free_heap ?s \<and> same_sys i ?s ?s'"
      using i h2(1-5) ok b(1) n sys(2)
      by (auto simp: mem_ok_def lin_mem_def free_heap_def mem_block_def same_sys_def upd_module_def Let_def
          live_block_def heap_ok_def the_module_def MAX_MEM_PAGES_def)
    moreover have "changes_only (lin_mem i ?s \<union> free_heap ?s \<union> H) (ram (heap ?s)) (ram h2)"
      using h2(6) by (rule changes_only_mono) (auto simp: free_heap_def)
    moreover have "heap ?s' = h2" by (simp add: upd_module_def)
    ultimately have "sys_wf ?s'" "confined H i ?s ?s'" by (simp_all add: confined_def)
    then show ?thesis using g [of ?s'] d 2(1) b(2) lay sz sp st by (simp add: grow_to_def Let_def the_module_def)
  qed
qed

lemma good_grow_confined:
  assumes wf: "vm_wf i v" and ok: "mem_ok i (wsys v)" and a: "at_op i v bc pc 0x40" and nw: "\<not> grow_wraps i v"
  shows "good (confined H i) False False i v (op_memory_grow i pc v)"
proof -
  let ?w = "the_module i v"
  have st: "stacks_ok v" by (rule vm_wf_stacks [OF wf])
  have v1: "vm_wf i (popped 1 v)" and sp: "vsp v \<noteq> 0 \<Longrightarrow> vsp (popped 1 v) < 256"
    using wf vm_wf_sp(1) [OF wf] by (auto intro: vm_wf_popped)
  have m: "mem_max_pages ?w = 4" using ok by (simp add: mem_ok_def Let_def the_module_def wasm_consts)
  have t: "the_module i (popped 1 v) = ?w" by (simp add: the_module_def)
  have g: "good (confined H i) False False i v (grow_to i (mem_pages ?w) (usize_add (mem_pages ?w) r) pc' (popped 1 v))"
    if r: "r = unat (top_at 1 v)" "r \<noteq> 0" "usize_add (mem_pages ?w) r \<le> mem_max_pages ?w" "vsp v \<noteq> 0" for r pc'
  proof -
    have "mem_pages ?w + r < 2 ^ 64" using nw a r(1,4) by (auto simp: grow_wraps_def at_op_def Let_def)
    then have "usize_add (mem_pages ?w) r = mem_pages ?w + r" by (rule usize_add_small)
    then have "good (confined H i) False False i (popped 1 v) (grow_to i (mem_pages ?w) (usize_add (mem_pages ?w) r) pc' (popped 1 v))"
      using grow_to_confined [OF v1 sp, of "usize_add (mem_pages ?w) r" H pc'] r ok m t by simp
    then show ?thesis
      by (auto simp: good_def imm_cut_def return_full_def the_code_def the_module_def split: wstep.splits)
  qed
  show ?thesis
    using wf sp v1 g st confined_refl [OF ok]
    by (auto simp: op_memory_grow_def Let_def intro!: good_err good_goto vm_wf_push dest: vm_wf_sysD)
qed

lemma table_imms:
  "map_of load_ops c = Some x \<Longrightarrow> num_imms c = 2" "map_of store_ops c = Some y \<Longrightarrow> num_imms c = 2"
  by (auto simp: load_ops_def store_ops_def num_imms_def split: if_splits)

text \<open>Every opcode, given what \<open>R\<close> has to say of host calls, stores and growth.\<close>

lemma good_step:
  assumes wf: "vm_wf i v" and R: "R (wsys v) (wsys v)"
    and host: "\<And>bc pc k pc'. at_op i v bc pc 0x10 \<Longrightarrow> k < MAX_IMPORTS \<Longrightarrow> good R C W i v (op_call_host N i k pc' v)"
    and store: "\<And>nm n bc pc c. at_op i v bc pc c \<Longrightarrow> num_imms c = 2 \<Longrightarrow> good R C W i v (op_store nm n i bc pc v)"
    and grow: "\<And>bc pc. at_op i v bc pc 0x40 \<Longrightarrow> good R C W i v (op_memory_grow i pc v)"
  shows "good R C W i v (wasm_step N i v)"
proof -
  let ?bc = "the_code i v"
  let ?pc = "fr_pc (cur_frame v)"
  have st: "stacks_ok v" by (rule vm_wf_stacks [OF wf])
  have len: "bc_len (the_module i v) \<le> length (bytecode (the_module i v))"
    using the_module_wf [OF wf] by (simp add: module_wf_def)
  show ?thesis
  proof (cases "?pc < length ?bc")
    case True
    define c where "c = ?bc ! ?pc"
    have a: "at_op i v ?bc ?pc c" using True by (simp add: at_op_def c_def)
    have 1: "good R C W i v r" if "wasm_control N i ?bc ?pc c v = Some r" for r
      using that a wf R
      by (auto simp: wasm_control_def split: if_splits
          intro: good_control good_branches good_return good_call [where R = R, OF wf R _ host] good_goto good_err vm_wf_sysD)
    have 2: "good R C W i v r" if "wasm_plain i ?bc ?pc c v = Some r" for r
      using that a wf R
      by (auto simp: wasm_plain_def num_imms_def split: if_splits
          intro: good_arith good_locals good_const [OF a] grow)
    have 3: "good R C W i v (wasm_table i ?bc ?pc c v)"
      using wf R good_load [where R = R, OF wf R a] store [OF a] table_imms
      by (auto simp: wasm_table_def split: option.split intro!: good_arith good_err vm_wf_sysD)
    show ?thesis using True 1 2 3 st len by (auto simp: wasm_step_def Let_def c_def split: option.split)
  next
    case False
    then show ?thesis using good_fall_off [of i v R, OF wf R] st len by (simp add: wasm_step_def Let_def)
  qed
qed

lemma good_weaken: "good R C W i v r \<Longrightarrow> (C \<Longrightarrow> C') \<Longrightarrow> (W \<Longrightarrow> W') \<Longrightarrow> good R C' W' i v r"
  by (auto simp: good_def split: wstep.splits)

text \<open>The step is a call, and the native code behind an import gives \<open>r\<close>.\<close>

definition calls :: "Native \<Rightarrow> usize \<Rightarrow> WasmVm \<Rightarrow> (i64 \<times> WasmSys) outcome \<Rightarrow> bool" where
  "calls N i v r \<longleftrightarrow> at_op i v (the_code i v) (fr_pc (cur_frame v)) 0x10 \<and> native_gives N i (wsys v) r"

lemma step_typed:
  assumes wf: "vm_wf i v" and keep: "\<forall>r s'. native_gives N i (wsys v) (Ret (r, s')) \<longrightarrow> sys_wf s'"
  shows "good any_sys (calls N i v Panic) (at_op i v (the_code i v) (fr_pc (cur_frame v)) 0x40 \<or> calls N i v Hang) i v (wasm_step N i v)"
proof (rule good_step [OF wf])
  show "good any_sys (calls N i v Panic) (at_op i v (the_code i v) (fr_pc (cur_frame v)) 0x40 \<or> calls N i v Hang) i v
      (op_call_host N i k pc' v)" if "at_op i v bc pc 0x10" "k < MAX_IMPORTS" for bc pc k pc'
    using keep that(1)
    by (intro good_weaken [OF good_call_host [where R = any_sys, OF wf _ that(2)]]) (auto simp: calls_def at_op_def)
qed (auto intro!: good_store [OF wf] good_weaken [OF good_grow_typed [OF wf]] simp: at_op_def)

text \<open>
  \<open>away\<close> is what the native code needs to leave the module in peace: the part of memory it works in
  is outside the block of the module and the free heap.
\<close>

definition away :: "usize set \<Rightarrow> usize \<Rightarrow> WasmSys \<Rightarrow> bool" where
  "away H i s \<longleftrightarrow> H \<inter> (mem_block i s \<union> free_heap s) = {}"

definition natives_ok :: "usize set \<Rightarrow> Native \<Rightarrow> usize \<Rightarrow> bool" where
  "natives_ok H N i \<longleftrightarrow>
     (\<forall>s r s'. sys_wf s \<longrightarrow> mem_ok i s \<longrightarrow> native_gives N i s (Ret (r, s')) \<longrightarrow> native_ok H i s s')"

lemma step_confined:
  assumes wf: "vm_wf i v" and ok: "mem_ok i (wsys v)" and h: "natives_ok H N i" and H: "away H i (wsys v)"
    and nw: "\<not> grow_wraps i v"
  shows "good (confined H i) (calls N i v Panic) (calls N i v Hang) i v (wasm_step N i v)"
proof (rule good_step [where R = "confined H i", OF wf confined_refl [OF ok]])
  note H' = H [unfolded away_def]
  have n: "sys_wf s' \<and> confined H i (wsys v) s' \<and> confined H i (wsys v) (count_forward i s')"
    if "native_gives N i (wsys v) (Ret (r, s'))" for r s'
  proof -
    have "native_ok H i (wsys v) s'" using h vm_wf_sysD [OF wf] ok that unfolding natives_ok_def by blast
    then show ?thesis using confined_native [OF ok H'] confined_count_forward by (auto simp: native_ok_def)
  qed
  show "good (confined H i) (calls N i v Panic) (calls N i v Hang) i v (op_call_host N i k pc' v)"
    if "at_op i v bc pc 0x10" "k < MAX_IMPORTS" for bc pc k pc'
    using that(1)
    by (intro good_weaken [OF good_call_host [where R = "confined H i", OF wf confined_refl [OF ok] that(2) n]])
      (auto simp: calls_def at_op_def)
  show "good (confined H i) (calls N i v Panic) (calls N i v Hang) i v (op_store nm n i bc pc v)"
    if "at_op i v bc pc c" "num_imms c = 2" for nm n bc pc c
    by (rule good_store [where R = "confined H i", OF wf confined_refl [OF ok] that])
      (rule confined_set_ram [OF ok vm_wf_sysD [OF wf] H'])
qed (auto intro: good_weaken [OF good_grow_confined [OF wf ok _ nw]])

section \<open>Whole executions\<close>

inductive vm_reach :: "Native \<Rightarrow> usize \<Rightarrow> WasmVm \<Rightarrow> WasmVm \<Rightarrow> bool" for N :: Native and i :: usize and v0 :: WasmVm where
  start: "vm_reach N i v0 v0"
| step: "vm_reach N i v0 v \<Longrightarrow> wasm_step N i v = Go v' \<Longrightarrow> vm_reach N i v0 v'"

lemma init_vm_wf:
  assumes "sys_wf s" "i < MAX_WASM_MODULES" "length args \<le> VALUE_STACK_SIZE"
  shows "vm_wf i (init_vm i k args s)" and "wsys (init_vm i k args s) = s"
  using assms sys_wf_module [OF assms(1,2)] by (auto simp: vm_wf_def module_wf_def init_vm_def Let_def frame_wf_def wasm_consts dest!: subsetD [OF set_update_subset_insert])

lemma perf_update:
  assumes "sys_wf s" shows "sys_wf (s\<lparr>perf_stats := (perf_stats s)[i := x]\<rparr>)"
    and "confined H i s0 s \<Longrightarrow> confined H i s0 (s\<lparr>perf_stats := (perf_stats s)[i := x]\<rparr>)"
  using assms by (simp_all add: sys_wf_def confined_def mem_ok_def lin_mem_def free_heap_def mem_block_def same_sys_def)

lemma finish_ok:
  assumes "vm_wf i v"
  obtains r x where "finish i c v = Ret (r, (wsys v)\<lparr>perf_stats := (perf_stats (wsys v))[i := x]\<rparr>)"
proof -
  have p: "i < length (perf_stats (wsys v))" using assms by (simp add: vm_wf_def sys_wf_def)
  show thesis
  proof (cases "vsp v = 0")
    case True
    then show thesis using p by (intro that) (simp add: finish_def Let_def)
  next
    case False
    then show thesis using p vm_wf_stacks [OF assms] stacks_value [of v] by (intro that) (simp add: finish_def Let_def)
  qed
qed

text \<open>
  What a whole execution promises: when it returns the module was confined, a panic comes from an
  instruction that \<open>P\<close> describes, and a stopped hart from one that \<open>Q\<close> describes.
\<close>

definition run_ok :: "usize set \<Rightarrow> usize \<Rightarrow> WasmSys \<Rightarrow> bool \<Rightarrow> bool \<Rightarrow> ('a \<times> WasmSys) outcome \<Rightarrow> bool" where
  "run_ok H i s P Q r = (case r of Ret (_, s') \<Rightarrow> sys_wf s' \<and> confined H i s s' | Panic \<Rightarrow> P | Hang \<Rightarrow> Q)"

lemma wasm_loop_confined:
  assumes nw: "\<And>v. vm_reach N i v0 v \<Longrightarrow> \<not> grow_wraps i v"
    and h: "natives_ok H N i" and H: "away H i s"
    and P: "\<And>v. vm_reach N i v0 v \<Longrightarrow> imm_cut i v \<or> return_full v \<or> calls N i v Panic \<Longrightarrow> P"
    and Q: "\<And>v. vm_reach N i v0 v \<Longrightarrow> calls N i v Hang \<Longrightarrow> Q"
  shows "vm_reach N i v0 v \<Longrightarrow> vm_wf i v \<Longrightarrow> confined H i s (wsys v) \<Longrightarrow> run_ok H i s P Q (wasm_loop N i n v)"
proof (induction n arbitrary: v)
  case 0
  then show ?case by (auto simp: run_ok_def dest: vm_wf_sysD)
next
  case (Suc n)
  have ok: "mem_ok i (wsys v)" "away H i (wsys v)"
    using Suc.prems(3) H by (auto simp: confined_def away_def)
  have g: "good (confined H i) (calls N i v Panic) (calls N i v Hang) i v (wasm_step N i v)"
    by (rule step_confined [OF Suc.prems(2) ok(1) h ok(2) nw [OF Suc.prems(1)]])
  note tr = confined_trans [OF Suc.prems(3)]
  show ?case
  proof (cases "wasm_step N i v")
    case (Go v')
    then have "vm_wf i v'" "confined H i s (wsys v')" using g tr by (auto simp: good_def)
    then show ?thesis using Suc.IH [OF vm_reach.step [OF Suc.prems(1) Go]] Go by simp
  next
    case (Stop v')
    then have v': "vm_wf i v'" "confined H i s (wsys v')" using g tr by (auto simp: good_def)
    show ?thesis
      by (rule finish_ok [OF v'(1), of "WASM_CYCLE_BUDGET - n"])
        (use Stop v' perf_update [OF vm_wf_sysD [OF v'(1)], where i = i] in \<open>simp add: run_ok_def\<close>)
  next
    case (Trap e s')
    then show ?thesis using g tr by (auto simp: good_def run_ok_def)
  next
    case Crash
    then show ?thesis using g P [OF Suc.prems(1)] by (simp add: good_def run_ok_def)
  next
    case Wedge
    then show ?thesis using g Q [OF Suc.prems(1)] by (simp add: good_def run_ok_def)
  qed
qed

end
