(* ===== verification/Wasm_Runtime.thy ===== *)
theory Wasm_Runtime
  imports Wasm_Safety "HOL-Library.Sublist"
begin

unbundle bit_operations_syntax

text \<open>
  The WebAssembly runtime as a whole: every operation on the module table keeps it well formed, what
  \<open>memory.grow\<close> leaves in memory, the encoding of immediates, and the properties of the runtime.
\<close>

section \<open>The module table\<close>

lemma set_name_length: "length field = 32 \<Longrightarrow> length (set_name nm field) = 32"
  by (simp add: set_name_def)

lemma clear_sections_wf: "module_wf w \<Longrightarrow> module_wf (clear_sections w)"
  by (simp add: module_wf_def clear_sections_def empty_name_def)

lemma alloc_module_memory_wf:
  assumes "sys_wf s" "i < MAX_WASM_MODULES"
  shows "returns (\<lambda>(ok, s'). sys_wf s') (alloc_module_memory i s)"
proof -
  have h: "heap_ok (heap s)" and m: "module_wf (modules s ! i)" using assms by (auto simp: sys_wf_def)
  have a: "(16 :: usize) \<le> 2 ^ 16" "MEM_PAGE_SIZE \<le> 2 ^ 31" by (simp_all add: wasm_consts)
  show ?thesis
  proof (cases rule: heap_alloc_zeroed_spec [OF h zero_less_numeral a])
    case 1
    then show ?thesis using assms by (simp add: alloc_module_memory_def)
  next
    case (2 p h')
    have "module_wf ((modules s ! i)\<lparr>mem_ptr := p, mem_pages := 1, mem_max_pages := MAX_MEM_PAGES\<rparr>)"
      using m by (simp add: module_wf_def wasm_consts)
    then show ?thesis using 2(1,2) assms
      by (simp add: alloc_module_memory_def Let_def sys_wf_upd_module sys_wf_heap del: One_nat_def)
  qed
qed

lemma free_module_memory_wf:
  assumes "sys_wf s" "i < MAX_WASM_MODULES"
  shows "returns (\<lambda>s'. sys_wf s') (free_module_memory i s)"
proof (cases "mem_ptr (modules s ! i) = 0")
  case False
  have h: "heap_ok (heap s)" and m: "module_wf (modules s ! i)" using assms by (auto simp: sys_wf_def)
  show ?thesis
  proof (cases rule: heap_dealloc_cases [of "mem_ptr (modules s ! i)" MEM_PAGE_SIZE "heap s"])
    case (freed h')
    then show ?thesis using False assms m h heap_ok_bump [of h' "heap s"]
      by (simp add: free_module_memory_def Let_def sys_wf_upd_module sys_wf_heap module_wf_mem)
  qed (use False in \<open>simp add: free_module_memory_def Let_def\<close>)
qed (use assms in \<open>simp add: free_module_memory_def Let_def\<close>)

lemma module_wf_image:
  assumes "module_wf w" "length bc \<le> MAX_WASM_SIZE"
  shows "module_wf (w\<lparr>bytecode := overwrite 0 bc (bytecode w), bc_len := length bc\<rparr>)"
  using assms by (simp add: module_wf_def)

lemma sys_wf_count:
  "sys_wf s \<Longrightarrow> n \<le> MAX_WASM_MODULES \<Longrightarrow> sys_wf (s\<lparr>wasm_count := n\<rparr>)"
  by (simp add: sys_wf_def)

lemma wasm_load_wf:
  assumes wf: "sys_wf s"
  shows "returns (\<lambda>(r, s'). sys_wf s') (wasm_load pid nm bc s)"
proof (cases "\<not> wasm_validate bc \<or> wasm_count s \<ge> MAX_WASM_MODULES")
  case True
  then show ?thesis using wf by (auto simp: wasm_load_def)
next
  case False
  let ?i = "wasm_count s"
  let ?w = "modules s ! ?i"
  let ?w1 = "?w\<lparr>wname := set_name nm (wname ?w), bytecode := overwrite 0 (take MAX_WASM_SIZE bc) (bytecode ?w),
      bc_len := min (length bc) MAX_WASM_SIZE, wpid := pid, loaded := True\<rparr>"
  have i: "?i < MAX_WASM_MODULES" "?i < length (modules s)" using False wf by (auto simp: sys_wf_def)
  have m: "module_wf ?w1" using sys_wf_module [OF wf i(1)] by (simp add: module_wf_def set_name_length)
  have "returns (\<lambda>(r, s'). sys_wf s')
      (obind (alloc_module_memory ?i (upd_module ?i (\<lambda>_. w2) s)) (\<lambda>(ok, s1).
         if \<not> ok then Ret (None, upd_module ?i (\<lambda>w. w\<lparr>loaded := False\<rparr>) s1)
         else Ret (Some ?i, s1\<lparr>wasm_count := wasm_count s1 + 1\<rparr>)))" if "module_wf w2" for w2
  proof (rule returns_bind2)
    fix ok s1 assume a: "alloc_module_memory ?i (upd_module ?i (\<lambda>_. w2) s) = Ret (ok, s1)"
    have s1: "sys_wf s1"
      using alloc_module_memory_wf [OF sys_wf_upd_module [OF wf, of "\<lambda>_. w2" ?i] i(1)] that a
      by simp
    then have "module_wf ((modules s1 ! ?i)\<lparr>loaded := False\<rparr>)"
      using sys_wf_module [of s1, OF _ i(1)] by (simp add: module_wf_def)
    moreover have "wasm_count s1 = wasm_count s"
      using a by (auto simp: alloc_module_memory_def upd_module_def Let_def split: option.splits)
    ultimately show "returns (\<lambda>(r, s'). sys_wf s') (if \<not> ok
        then Ret (None, upd_module ?i (\<lambda>w. w\<lparr>loaded := False\<rparr>) s1)
        else Ret (Some ?i, s1\<lparr>wasm_count := wasm_count s1 + 1\<rparr>))"
      using s1 i(1) sys_wf_upd_module [of s1 "\<lambda>w. w\<lparr>loaded := False\<rparr>" ?i]
      by (auto simp: sys_wf_count)
  qed
  then have "returns (\<lambda>(r, s'). sys_wf s') (obind (parse_module ?w1) (\<lambda>w2.
      obind (alloc_module_memory ?i (upd_module ?i (\<lambda>_. w2) s)) (\<lambda>(ok, s1).
         if \<not> ok then Ret (None, upd_module ?i (\<lambda>w. w\<lparr>loaded := False\<rparr>) s1)
         else Ret (Some ?i, s1\<lparr>wasm_count := wasm_count s1 + 1\<rparr>))))"
    by (rule returns_bind) (use parse_module_wf [OF m] in \<open>simp add: returns_def [of module_wf]\<close>)
  then show ?thesis using False by (simp add: wasm_load_def Let_def)
qed

lemma wasm_unload_wf: "sys_wf s \<Longrightarrow> returns (\<lambda>(r, s'). sys_wf s') (wasm_unload i s)"
proof -
  assume wf: "sys_wf s"
  have "returns (\<lambda>(r, s'). sys_wf s')
      (obind (free_module_memory i s) (\<lambda>s1. Ret (True, upd_module i (\<lambda>w. w\<lparr>loaded := False, bc_len := 0\<rparr>) s1)))"
    if i: "i < MAX_WASM_MODULES"
  proof (rule returns_bind)
    fix s1 assume "free_module_memory i s = Ret s1"
    then have s1: "sys_wf s1" using free_module_memory_wf [OF wf i] by simp
    then have "module_wf ((modules s1 ! i)\<lparr>loaded := False, bc_len := 0\<rparr>)"
      using sys_wf_module [OF _ i] by (simp add: module_wf_def)
    then show "returns (\<lambda>(r, s'). sys_wf s') (Ret (True, upd_module i (\<lambda>w. w\<lparr>loaded := False, bc_len := 0\<rparr>) s1))"
      using s1 by (simp add: sys_wf_upd_module)
  qed
  then show ?thesis using wf by (auto simp: wasm_unload_def)
qed

lemma wasm_hot_reload_wf: "sys_wf s \<Longrightarrow> returns (\<lambda>(r, s'). sys_wf s') (wasm_hot_reload i bc s)"
proof (cases "i < MAX_WASM_MODULES \<and> length bc \<le> MAX_WASM_SIZE")
  case True
  assume wf: "sys_wf s"
  let ?w = "clear_sections (modules s ! i)"
  have "returns module_wf (parse_module (?w\<lparr>bytecode := overwrite 0 bc (bytecode ?w), bc_len := length bc\<rparr>))"
    using True wf by (intro parse_module_wf module_wf_image clear_sections_wf sys_wf_module) auto
  moreover have "sys_wf ((upd_module i (\<lambda>_. w2) s)\<lparr>perf_stats := (perf_stats s)[i := x]\<rparr>)" if "module_wf w2" for w2 x
    using sys_wf_upd_module [OF wf, of "\<lambda>_. w2" i] that by (simp add: sys_wf_def upd_module_def)
  ultimately show ?thesis
    using wf by (auto simp: wasm_hot_reload_def Let_def returns_def [of module_wf] upd_module_def intro!: returns_bind)
qed (auto simp: wasm_hot_reload_def)

lemma wasm_loop_typed:
  assumes keep: "\<And>s r s'. sys_wf s \<Longrightarrow> native_gives N i s (Ret (r, s')) \<Longrightarrow> sys_wf s'"
  shows "vm_wf i v \<Longrightarrow> returns (\<lambda>(r, s'). sys_wf s') (wasm_loop N i n v)"
proof (induction n arbitrary: v)
  case 0
  then show ?case by (auto dest: vm_wf_sysD)
next
  case (Suc n)
  have g: "good any_sys (calls N i v Panic) (at_op i v (the_code i v) (fr_pc (cur_frame v)) 0x40 \<or> calls N i v Hang) i v (wasm_step N i v)"
    using keep [OF vm_wf_sysD [OF Suc.prems]] by (intro step_typed [OF Suc.prems]) blast
  show ?case
  proof (cases "wasm_step N i v")
    case (Stop v')
    then have v': "vm_wf i v'" using g by (simp add: good_def)
    show ?thesis
      by (rule finish_ok [OF v', of "WASM_CYCLE_BUDGET - n"])
        (use Stop perf_update(1) [OF vm_wf_sysD [OF v'], where i = i] in simp)
  qed (use g Suc.IH in \<open>auto simp: good_def\<close>)
qed

lemma wasm_execute_wf:
  assumes wf: "sys_wf s" and keep: "\<And>s r s'. sys_wf s \<Longrightarrow> native_gives N i s (Ret (r, s')) \<Longrightarrow> sys_wf s'"
  shows "returns (\<lambda>(r, s'). sys_wf s') (wasm_execute N i fname args s)"
proof -
  have "returns (\<lambda>(r, s'). sys_wf s') (wasm_loop N i n (init_vm i k args s))"
    if "i < MAX_WASM_MODULES" "length args \<le> VALUE_STACK_SIZE" for n k
    using wasm_loop_typed [of N i, OF keep init_vm_wf(1) [OF wf that]] by simp
  then show ?thesis
    using wf by (auto simp: wasm_execute_def Let_def split: option.split intro!: returns_bind)
qed

text \<open>The systems the public operations reach from boot.\<close>

inductive wasm_reach :: "Native \<Rightarrow> WasmSys \<Rightarrow> bool" for N :: Native where
  boot: "heap_ok h \<Longrightarrow> wasm_reach N (boot_wasm h)"
| load: "wasm_reach N s \<Longrightarrow> wasm_load pid nm bc s = Ret (r, s') \<Longrightarrow> wasm_reach N s'"
| unload: "wasm_reach N s \<Longrightarrow> wasm_unload i s = Ret (ok, s') \<Longrightarrow> wasm_reach N s'"
| reload: "wasm_reach N s \<Longrightarrow> wasm_hot_reload i bc s = Ret (e, s') \<Longrightarrow> wasm_reach N s'"
| register: "wasm_reach N s \<Longrightarrow> wasm_reach N (snd (wasm_register_host_func nm f s))"
| table: "wasm_reach N s \<Longrightarrow> wasm_reach N (s\<lparr>syscall_table := table_register mn fn nr (syscall_table s)\<rparr>)"
| memwrite: "wasm_reach N s \<Longrightarrow> wasm_memory_write i off bs s = Ret (e, s') \<Longrightarrow> wasm_reach N s'"
| reset: "wasm_reach N s \<Longrightarrow> wasm_reach N (snd (wasm_reset_perf_stats i s))"
| execute: "wasm_reach N s \<Longrightarrow> wasm_execute N i fname args s = Ret (e, s') \<Longrightarrow> wasm_reach N s'"

lemma boot_wasm_wf: "heap_ok h \<Longrightarrow> sys_wf (boot_wasm h)"
  by (simp add: sys_wf_def boot_wasm_def empty_module_def module_wf_def empty_name_def wasm_consts MAX_SYSCALL_ENTRIES_def)

lemma wasm_register_wf: "sys_wf s \<Longrightarrow> sys_wf (snd (wasm_register_host_func nm f s))"
  by (auto simp: wasm_register_host_func_def sys_wf_def Let_def set_name_length
      dest!: subsetD [OF set_update_subset_insert])

lemma wasm_reach_typed:
  assumes keep: "\<forall>i s r s'. sys_wf s \<longrightarrow> native_gives N i s (Ret (r, s')) \<longrightarrow> sys_wf s'"
  shows "wasm_reach N s \<Longrightarrow> sys_wf s"
proof (induction rule: wasm_reach.induct)
  case (boot h)
  then show ?case by (rule boot_wasm_wf)
next
  case (load s pid nm bc r s')
  then show ?case using wasm_load_wf [of s pid nm bc] by simp
next
  case (unload s i ok s')
  then show ?case using wasm_unload_wf [of s i] by simp
next
  case (reload s i bc e s')
  then show ?case using wasm_hot_reload_wf [of s i bc] by simp
next
  case (register s nm f)
  then show ?case by (simp add: wasm_register_wf)
next
  case (table s mn fn nr)
  then show ?case by (auto simp: sys_wf_def table_register_def)
next
  case (memwrite s i off bs e s')
  then show ?case by (auto simp: wasm_memory_write_def Let_def split: if_splits)
next
  case (reset s i)
  then show ?case using perf_update(1) [of s i] by (auto simp: wasm_reset_perf_stats_def)
next
  case (execute s i fname args e s')
  have "returns (\<lambda>(r, s'). sys_wf s') (wasm_execute N i fname args s)"
    using keep by (intro wasm_execute_wf execute.IH) blast
  then show ?case using execute.hyps(2) by simp
qed

section \<open>The contents of a grown memory\<close>

definition lin_bytes :: "usize \<Rightarrow> WasmSys \<Rightarrow> u8 list" where
  "lin_bytes i s = (let w = modules s ! i in read_bytes (mem_ptr w) (mem_pages w * MEM_PAGE_SIZE) (ram (heap s)))"

lemma step_at_grow: "vm_wf i v \<Longrightarrow> at_op i v bc pc 0x40 \<Longrightarrow> wasm_step N i v = op_memory_grow i pc v"
  using vm_wf_stacks [of i v] the_module_wf [of i v]
  by (auto simp: at_op_def wasm_step_def Let_def wasm_control_def wasm_plain_def module_wf_def)

lemma put_goto_state:
  assumes "vm_wf i v" "vsp v < 256"
  shows "\<exists>v'. goto pc (pushed x (v\<lparr>wsys := s\<rparr>)) = Go v' \<and> wsys v' = s \<and> top_at 1 v' = x \<and> vsp v' = vsp v + 1"
  using assms vm_wf_stacks [OF assms(1)] by (simp add: goto_in top_at_def) (simp add: pushed_def vm_wf_def wasm_consts)

lemma grow_step:
  assumes wf: "vm_wf i v" and ok: "mem_ok i (wsys v)" and a: "at_op i v bc pc 0x40" and sp: "0 < vsp v"
    and n: "n = mem_pages (modules (wsys v) ! i)" and k: "k = unat (top_at 1 v)" "0 < k" "n + k \<le> MAX_MEM_PAGES"
    and al: "heap_alloc_zeroed ((n + k) * MEM_PAGE_SIZE) 16 (heap (wsys v)) = Ret (Some p, h)"
  obtains v' where "wasm_step N i v = Go v'" "top_at 1 v' = of_nat n" "vsp v' = vsp v"
    "modules (wsys v') = (modules (wsys v))[i := (modules (wsys v) ! i)\<lparr>mem_ptr := p, mem_pages := n + k\<rparr>]"
    "live_block (heap (wsys v')) p ((n + k) * MEM_PAGE_SIZE)" "heap_ok (heap (wsys v'))"
    "lin_bytes i (wsys v') = lin_bytes i (wsys v) @ replicate (k * MEM_PAGE_SIZE) 0"
proof -
  let ?s = "wsys v"
  let ?w = "modules ?s ! i"
  have sp1: "vsp (popped 1 v) < 256" using sp vm_wf_sp(1) [OF wf] by simp
  have st0: "stacks_ok v" by (rule vm_wf_stacks [OF wf])
  have h0: "heap_ok (heap ?s)" and i: "i < length (modules ?s)" using wf by (auto simp: vm_wf_def sys_wf_def)
  have b: "live_block (heap ?s) (mem_ptr ?w) (n * MEM_PAGE_SIZE)" "mem_ptr ?w \<noteq> 0" "mem_max_pages ?w = MAX_MEM_PAGES"
    using ok by (auto simp: mem_ok_def Let_def live_block_def n)
  have nk: "n + k \<le> 4" using k(3) by (simp add: wasm_consts)
  have sz: "n * MEM_PAGE_SIZE \<le> (n + k) * MEM_PAGE_SIZE" "(n + k) * MEM_PAGE_SIZE \<le> 2 ^ 31"
    "(n + k) * MEM_PAGE_SIZE mod 2 ^ 64 = (n + k) * MEM_PAGE_SIZE"
    using nk by (simp_all add: wasm_consts)
  have lay: "layout_ok ((n + k) * MEM_PAGE_SIZE)" "layout_ok (n * MEM_PAGE_SIZE)" using nk by (auto simp: layout_ok_def wasm_consts)
  have add: "usize_add n k = n + k" using nk by (intro usize_add_small) simp
  from kh.regrow [OF b(1) h0 sz(1,2) al] obtain h2 where
    d: "heap_dealloc (mem_ptr ?w) (n * MEM_PAGE_SIZE) (h\<lparr>ram := write_bytes p
        (read_bytes (mem_ptr ?w) (n * MEM_PAGE_SIZE) (ram h)) (ram h)\<rparr>) = Ret h2"
    and h2: "heap_ok h2" "live_block h2 p ((n + k) * MEM_PAGE_SIZE)"
      "read_bytes p ((n + k) * MEM_PAGE_SIZE) (ram h2) =
         read_bytes (mem_ptr ?w) (n * MEM_PAGE_SIZE) (ram (heap ?s)) @ replicate ((n + k) * MEM_PAGE_SIZE - n * MEM_PAGE_SIZE) 0" .
  let ?s' = "upd_module i (\<lambda>w. w\<lparr>mem_ptr := p, mem_pages := n + k\<rparr>) (?s\<lparr>heap := h2\<rparr>)"
  have st: "wasm_step N i v = goto (pc + 2) (pushed (of_nat n) ((popped 1 v)\<lparr>wsys := ?s'\<rparr>))"
    using sp k add al d b lay sz n st0 sp1
    by (simp add: step_at_grow [OF wf a] op_memory_grow_def Let_def the_module_def grow_to_def)
  obtain v' where "wasm_step N i v = Go v'" "wsys v' = ?s'" "top_at 1 v' = of_nat n" "vsp v' = vsp v"
    using put_goto_state [OF vm_wf_popped [OF wf, of 1] sp1, of "pc + 2" "of_nat n" ?s'] sp st by auto
  then show thesis
    using i h2 n by (intro that [of v']) (auto simp: upd_module_def lin_bytes_def Let_def algebra_simps)
qed

lemma read_bytes_drop: "a + c \<le> n \<Longrightarrow> read_bytes (p + a) c m = take c (drop a (read_bytes p n m))"
  by (auto simp: read_bytes_def intro!: nth_equalityI) (simp add: add.assoc)

text \<open>A copy that overruns the block it was made for.\<close>

lemma grow_step_wrap:
  assumes wf: "vm_wf i v" and ok: "mem_ok i (wsys v)" and a: "at_op i v bc pc 0x40" and sp: "0 < vsp v"
    and n: "Suc n = mem_pages (modules (wsys v) ! i)" "0 < n" and k: "top_at 1 v = - 1"
    and al: "heap_alloc_zeroed (n * MEM_PAGE_SIZE) 16 (heap (wsys v)) = Ret (Some p, h)"
  obtains v' where "wasm_step N i v = Go v'" "mem_ptr (modules (wsys v') ! i) = p" "mem_pages (modules (wsys v') ! i) = n"
    "bump_next (bump (heap (wsys v'))) = p + n * MEM_PAGE_SIZE + 8"
    "read_bytes (p + n * MEM_PAGE_SIZE) MEM_PAGE_SIZE (ram (heap (wsys v'))) = drop (n * MEM_PAGE_SIZE) (lin_bytes i (wsys v))"
proof -
  let ?s = "wsys v"
  let ?w = "modules ?s ! i"
  have sp1: "vsp (popped 1 v) < 256" using sp vm_wf_sp(1) [OF wf] by simp
  have st0: "stacks_ok v" by (rule vm_wf_stacks [OF wf])
  let ?o = "Suc n * MEM_PAGE_SIZE"
  have h0: "heap_ok (heap ?s)" and i: "i < length (modules ?s)" using wf by (auto simp: vm_wf_def sys_wf_def)
  have b: "live_block (heap ?s) (mem_ptr ?w) ?o" "mem_ptr ?w \<noteq> 0" "Suc n \<le> MAX_MEM_PAGES" "mem_max_pages ?w = MAX_MEM_PAGES"
    using ok n(1) by (auto simp: mem_ok_def Let_def live_block_def)
  have n4: "n \<le> 3" using b(3) by (simp add: wasm_consts)
  have sz: "n * MEM_PAGE_SIZE \<le> 2 ^ 31" "n * MEM_PAGE_SIZE mod 2 ^ 64 = n * MEM_PAGE_SIZE" using n4 by (simp_all add: wasm_consts)
  have lay: "layout_ok (n * MEM_PAGE_SIZE)" "layout_ok ?o" using n4 by (auto simp: layout_ok_def wasm_consts)
  have um: "unat (- 1 :: i64) = 2 ^ 64 - 1" by (simp add: unsigned_minus_1_eq_mask mask_eq_exp_minus_1)
  have add: "usize_add (Suc n) (2 ^ 64 - 1) = n" using n4 by (simp add: usize_add_def)
  have c: "heap_ok h" "live_block h p (n * MEM_PAGE_SIZE)" "bump_next (bump (heap ?s)) + 8 \<le> p" "bump_next (bump h) = p + n * MEM_PAGE_SIZE + 8"
    "changes_only {bump_next (bump (heap ?s))..<bump_next (bump h)} (ram (heap ?s)) (ram h)"
    using heap_alloc_block [OF h0 sz(1) al] by auto
  let ?h1 = "h\<lparr>ram := write_bytes p (read_bytes (mem_ptr ?w) ?o (ram h)) (ram h)\<rparr>"
  have q: "mem_ptr ?w + ?o + 8 \<le> bump_next (bump (heap ?s))" using b(1) by (simp add: live_block_def)
  have w: "changes_only {bump_next (bump (heap ?s))..} (ram (heap ?s)) (ram ?h1)"
  proof -
    have "changes_only {bump_next (bump (heap ?s))..} (ram (heap ?s)) (ram h)" using c(5) by (rule changes_only_mono) auto
    moreover have "changes_only {bump_next (bump (heap ?s))..} (ram h) (ram ?h1)" using c(3) by (simp, intro changes_only_write) auto
    ultimately show ?thesis by (rule changes_only_trans)
  qed
  have "live_block ?h1 (mem_ptr ?w) ?o"
    using b(1) w by (rule live_block_ram) (use q c(3,4) in \<open>auto simp: disjoint_iff\<close>)
  then have d: "heap_dealloc (mem_ptr ?w) ?o ?h1 = Ret (?h1\<lparr>bump := (bump h)\<lparr>allocations := usize_sub (allocations (bump h)) 1\<rparr>\<rparr>)" (is "_ = Ret ?h2")
    using heap_dealloc_live [of ?h1 "mem_ptr ?w" ?o] c(1) by (simp add: heap_ok_def)
  have same: "read_bytes (mem_ptr ?w) ?o (ram h) = lin_bytes i ?s"
    using c(5) q n(1) by (auto simp: lin_bytes_def Let_def changes_only_def intro!: read_bytes_cong)
  have r: "read_bytes (p + n * MEM_PAGE_SIZE) MEM_PAGE_SIZE (ram ?h2) = drop (n * MEM_PAGE_SIZE) (lin_bytes i ?s)"
    using read_bytes_drop [of "n * MEM_PAGE_SIZE" MEM_PAGE_SIZE ?o p "ram ?h1"] same by (simp add: lin_bytes_def Let_def n(1) [symmetric])
  let ?s' = "upd_module i (\<lambda>w. w\<lparr>mem_ptr := p, mem_pages := n\<rparr>) (?s\<lparr>heap := ?h2\<rparr>)"
  have "wasm_step N i v = goto (pc + 2) (pushed (of_nat (Suc n)) ((popped 1 v)\<lparr>wsys := ?s'\<rparr>))"
    using sp k um add al d b lay sz n4 st0 sp1
    by (simp add: step_at_grow [OF wf a] op_memory_grow_def Let_def the_module_def grow_to_def n(1) [symmetric] del: mult_Suc of_nat_Suc)
  then obtain v' where "wasm_step N i v = Go v'" "wsys v' = ?s'"
    using put_goto_state [OF vm_wf_popped [OF wf, of 1] sp1, of "pc + 2" "of_nat (Suc n)" ?s'] by auto
  then show thesis using i c(4) r by (intro that [of v']) (simp_all add: upd_module_def)
qed

lemma canary_not_zero: "canary_bytes \<noteq> replicate 8 0"
proof
  assume "canary_bytes = replicate 8 0"
  then have "canary_bytes ! 0 = (replicate 8 0 :: u8 list) ! 0" by (rule arg_cong)
  then show False by (simp add: canary_bytes_def to_le_def HEAP_CANARY_def)
qed

lemma heap_alloc_room:
  assumes ok: "heap_ok h" and sz: "sz \<le> 2 ^ 31" and room: "bump_next (bump h) + 32 + sz \<le> bump_end (bump h)"
  shows "\<exists>p h'. heap_alloc_zeroed sz 16 h = Ret (Some p, h')"
proof -
  have a: "align_to (bump_next (bump h)) 16 < bump_next (bump h) + 16"
    using ok by (intro align_to_bounds) (auto simp: heap_ok_def)
  have b: "bump_end (bump h) + 2 ^ 32 \<le> 2 ^ 64" using ok by (simp add: heap_ok_def)
  have p: "usize_add (align_to (bump_next (bump h)) 16) 8 = align_to (bump_next (bump h)) 16 + 8"
    using a b room by (intro usize_add_small) simp
  have q: "usize_add (align_to (bump_next (bump h)) 16 + 8 + sz) 8 = align_to (bump_next (bump h)) 16 + 8 + sz + 8"
    using a b room by (intro usize_add_small) simp
  show ?thesis using a b room p q by (simp add: heap_alloc_zeroed_def heap_alloc_def Let_def)
qed









section \<open>The encoding of immediates\<close>

text \<open>The shortest LEB128 encoding of a \<open>u32\<close>.\<close>

function leb_enc :: "u32 \<Rightarrow> u8 list" where
  "leb_enc x = (if x < 128 then [ucast x] else (ucast (take_bit 7 x) OR 0x80) # leb_enc (drop_bit 7 x))"
  by pat_completeness auto
termination
proof (relation "measure unat")
  fix x :: u32 assume "\<not> x < 128"
  then have "128 \<le> unat x" by (simp add: word_less_nat_alt)
  then show "(drop_bit 7 x, x) \<in> measure unat" by (simp add: drop_bit_eq_div unat_div)
qed simp

declare leb_enc.simps [simp del]

lemma byte_masks: "(0x7F :: u8) = mask 7" "(0x80 :: u8) = push_bit 7 1"
  by (simp_all add: mask_eq_exp_minus_1)

lemma low_byte: "ucast ((ucast (take_bit 7 x) OR 0x80 :: u8) AND 0x7F) = (take_bit 7 x :: u32)"
  unfolding byte_masks by (rule bit_eqI) (auto simp: bit_simps simp del: push_bit_of_1 push_bit_eq_mult)

lemma high_byte: "(ucast (take_bit 7 x :: u32) OR 0x80 :: u8) AND 0x80 \<noteq> 0"
proof -
  have "bit ((ucast (take_bit 7 x :: u32) OR 0x80 :: u8) AND 0x80) 7" by (simp add: bit_simps)
  then show ?thesis by (metis bit_0_eq bot_apply bot_bool_def)
qed

lemma last_byte:
  assumes "(x :: u32) < 128"
  shows "ucast ((ucast x :: u8) AND 0x7F) = x" "(ucast x :: u8) AND 0x80 = 0"
proof -
  have b: "\<not> bit x n" if "7 \<le> n" for n
  proof -
    have "(2 :: nat) ^ 7 \<le> 2 ^ n" using that by (intro power_increasing) auto
    then have "drop_bit n (unat x) = 0" using assms by (simp add: drop_bit_eq_div word_less_nat_alt)
    then have "drop_bit n x = 0" by (metis unat_drop_bit_eq unsigned_eq_0_iff)
    then show ?thesis by (simp add: bit_iff_odd_drop_bit)
  qed
  then have b: "n < 7" if "bit x n" for n using that not_less by blast
  show "ucast ((ucast x :: u8) AND 0x7F) = x"
    unfolding byte_masks by (rule bit_eqI) (use b in \<open>fastforce simp: bit_simps\<close>)
  show "(ucast x :: u8) AND 0x80 = 0"
    unfolding byte_masks by (rule bit_eqI) (use b in \<open>fastforce simp: bit_simps simp del: push_bit_of_1 push_bit_eq_mult\<close>)
qed

lemma split7: "(x :: u32) = take_bit 7 x OR push_bit 7 (drop_bit 7 x)"
proof (rule bit_eqI)
  fix n assume "possible_bit TYPE(32 word) n"
  then show "bit x n = bit (take_bit 7 x OR push_bit 7 (drop_bit 7 x)) n" by (cases "n < 7") (auto simp: bit_simps)
qed

lemma leb_u_loop_enc:
  assumes "unat x < 2 ^ (32 - shift)" "shift < 32"
  shows "leb_u_loop (pre @ leb_enc x @ post) (length pre) shift r
    = Ret (r OR push_bit shift x, length pre + length (leb_enc x))"
  using assms
proof (induction x arbitrary: pre shift r rule: leb_enc.induct)
  case (1 x)
  show ?case
  proof (cases "x < 128")
    case True
    then show ?thesis using last_byte [OF True] 1(3)
      by (subst leb_u_loop.simps) (simp add: leb_enc.simps [of x] Let_def)
  next
    case False
    let ?b = "ucast (take_bit 7 x) OR 0x80 :: u8"
    have l: "7 < 32 - shift"
    proof (rule ccontr)
      assume "\<not> 7 < 32 - shift"
      then have "(2 :: nat) ^ (32 - shift) \<le> 2 ^ 7" by (intro power_increasing) auto
      moreover note 1(2)
      ultimately show False using False by (simp add: word_less_nat_alt)
    qed
    have "unat x < 2 ^ (32 - shift)" by (rule 1(2))
    also have "\<dots> = 2 ^ (32 - (shift + 7)) * 2 ^ 7" using l power_add [of "2 :: nat" "32 - (shift + 7)" 7] by simp
    finally have d: "unat (drop_bit 7 x) < 2 ^ (32 - (shift + 7))"
      by (simp add: drop_bit_eq_div unat_div div_less_iff_less_mult)
    have "leb_u_loop ((pre @ [?b]) @ leb_enc (drop_bit 7 x) @ post) (length (pre @ [?b])) (shift + 7) (r OR push_bit shift (take_bit 7 x))
      = Ret ((r OR push_bit shift (take_bit 7 x)) OR push_bit (shift + 7) (drop_bit 7 x),
             length (pre @ [?b]) + length (leb_enc (drop_bit 7 x)))"
      by (rule 1(1) [OF False d]) (use l in simp)
    moreover have "(r OR push_bit shift (take_bit 7 x)) OR push_bit (shift + 7) (drop_bit 7 x) = r OR push_bit shift x"
      by (subst (3) split7) (simp add: push_bit_or or.assoc)
    ultimately show ?thesis using False 1(3) low_byte [of x] high_byte [of x]
      by (subst leb_u_loop.simps) (simp add: leb_enc.simps [of x] Let_def)
  qed
qed

section \<open>A concrete module\<close>

text \<open>
  A module whose code is \<open>memory.grow 0; end\<close>, exported as \<open>f\<close>, with \<open>n\<close> pages of memory in a
  two-megabyte heap, and native code that leaves the state as it is: a host function answers zero, and
  the system-call dispatcher the number of the call.
\<close>

definition wdemo_code :: "u8 list" where
  "wdemo_code = [0x40, 0x00, 0x0B]"

definition wdemo_heap :: "nat \<Rightarrow> Heap" where
  "wdemo_heap n =
     \<lparr>bump = \<lparr>bump_next = 0x2000 + n * 65536 + 8, bump_end = 0x200000, allocations = 1\<rparr>,
      ram = write_bytes (0x2000 + n * 65536) canary_bytes (write_bytes (0x2000 - 8) canary_bytes (\<lambda>_. 0))\<rparr>"

definition wdemo_module :: "nat \<Rightarrow> WasmModule" where
  "wdemo_module n = empty_module\<lparr>bytecode := overwrite 0 wdemo_code (replicate MAX_WASM_SIZE 0), bc_len := 3, loaded := True,
     num_functions := 1, num_exports := 1, export_names := (replicate MAX_EXPORTS empty_name)[0 := set_name [0x66] empty_name],
     mem_ptr := 0x2000, mem_pages := n, mem_max_pages := MAX_MEM_PAGES\<rparr>"

definition wdemo_sys :: "nat \<Rightarrow> WasmSys" where
  "wdemo_sys n = (boot_wasm (wdemo_heap n))\<lparr>modules := (replicate MAX_WASM_MODULES empty_module)[0 := wdemo_module n], wasm_count := 1\<rparr>"

definition wdemo_native :: Native where
  "wdemo_native = \<lparr>call_host = \<lambda>f args s. Ret (0, s), call_syscall = \<lambda>nr args pid s. Ret (of_nat nr, s)\<rparr>"

definition wdemo_vm :: "nat \<Rightarrow> i64 \<Rightarrow> WasmVm" where
  "wdemo_vm n x = init_vm 0 0 [x] (wdemo_sys n)"

lemma wdemo_module_wf: "n \<le> 4 \<Longrightarrow> module_wf (wdemo_module n)" "module_wf empty_module"
  by (auto simp: wdemo_module_def empty_module_def module_wf_def empty_name_def wasm_consts wdemo_code_def set_name_def
      dest!: subsetD [OF set_update_subset_insert])

lemma wdemo_sys_wf: "n \<le> 4 \<Longrightarrow> sys_wf (wdemo_sys n)"
  using wdemo_module_wf
  by (auto simp: wdemo_sys_def boot_wasm_def sys_wf_def empty_name_def wasm_consts MAX_SYSCALL_ENTRIES_def
      wdemo_heap_def heap_ok_def dest!: subsetD [OF set_update_subset_insert])

lemma wdemo_mem_ok: "0 < n \<Longrightarrow> n \<le> 4 \<Longrightarrow> mem_ok 0 (wdemo_sys n)"
  by (simp add: mem_ok_def Let_def wdemo_sys_def boot_wasm_def wdemo_module_def wasm_consts wdemo_heap_def live_block_def read_write_other)

lemma wdemo_native_same: "native_gives wdemo_native i s (Ret (r, s')) \<Longrightarrow> s' = s"
  by (auto simp: native_gives_def wdemo_native_def)


lemma wdemo_vm_wf: "n \<le> 4 \<Longrightarrow> vm_wf 0 (wdemo_vm n x)" and wdemo_vm_sys [simp]: "n \<le> 4 \<Longrightarrow> wsys (wdemo_vm n x) = wdemo_sys n"
  using init_vm_wf [OF wdemo_sys_wf, of n 0 "[x]" 0] by (simp_all add: wdemo_vm_def wasm_consts)

lemma wdemo_vm_at: "n \<le> 4 \<Longrightarrow> at_op 0 (wdemo_vm n x) wdemo_code 0 0x40"
  by (simp add: at_op_def the_code_def the_module_def wdemo_sys_def wdemo_module_def wdemo_code_def overwrite_def wasm_consts)
    (simp add: wdemo_vm_def init_vm_def Let_def cur_frame_def wdemo_sys_def wdemo_module_def empty_module_def wasm_consts)

lemma wdemo_vm_stack [simp]: "vsp (wdemo_vm n x) = 1" "top_at 1 (wdemo_vm n x) = x" "top_at (Suc 0) (wdemo_vm n x) = x"
  by (simp_all add: wdemo_vm_def init_vm_def Let_def top_at_def overwrite_def)

lemma wdemo_module_at [simp]: "modules (wdemo_sys n) ! 0 = wdemo_module n" "heap (wdemo_sys n) = wdemo_heap n"
  by (simp_all add: wdemo_sys_def boot_wasm_def wasm_consts)

lemma wdemo_alloc: "n \<le> 4 \<Longrightarrow> k \<le> 4 \<Longrightarrow> \<exists>p h. heap_alloc_zeroed (k * MEM_PAGE_SIZE) 16 (wdemo_heap n) = Ret (Some p, h)"
  by (rule heap_alloc_room) (auto simp: wdemo_heap_def heap_ok_def wasm_consts)

section \<open>Properties\<close>

text \<open>
  C35. The interpreter is type safe. From a well-formed machine every step leaves a well-formed
  machine: the stack pointers stay inside the three stacks, every frame keeps its sixteen locals, and
  the module table keeps its shape. No access to a stack, a local or a table of the module panics,
  but for one: the result of a function is written over the end of a full value stack. The other
  causes of a panic are an immediate cut off by the end of the code and native code that panics when
  it is called; the hart stops only in \<open>memory.grow\<close> or in native code that never comes back. The
  native code is arbitrary as long as it leaves the tables of the runtime well formed when it returns.
\<close>

theorem wasm_step_typed:
  assumes "vm_wf i v" and "\<forall>r s'. native_gives N i (wsys v) (Ret (r, s')) \<longrightarrow> sys_wf s'"
  shows "case wasm_step N i v of
      Go v' \<Rightarrow> vm_wf i v'
    | Stop v' \<Rightarrow> vm_wf i v'
    | Trap e s \<Rightarrow> sys_wf s
    | Crash \<Rightarrow> imm_cut i v \<or> return_full v \<or> calls N i v Panic
    | Wedge \<Rightarrow> at_op i v (the_code i v) (fr_pc (cur_frame v)) 0x40 \<or> calls N i v Hang"
  using step_typed [OF assms] by (auto simp: good_def split: wstep.splits)

theorem wasm_step_typed_witness:
  "vm_wf 0 (wdemo_vm 1 2) \<and>
   (case wasm_step wdemo_native 0 (wdemo_vm 1 2) of
      Go v' \<Rightarrow> vm_wf 0 v' | Stop v' \<Rightarrow> vm_wf 0 v' | Trap e s \<Rightarrow> sys_wf s
    | Crash \<Rightarrow> imm_cut 0 (wdemo_vm 1 2) \<or> return_full (wdemo_vm 1 2) \<or> calls wdemo_native 0 (wdemo_vm 1 2) Panic
    | Wedge \<Rightarrow> at_op 0 (wdemo_vm 1 2) (the_code 0 (wdemo_vm 1 2)) (fr_pc (cur_frame (wdemo_vm 1 2))) 0x40 \<or>
        calls wdemo_native 0 (wdemo_vm 1 2) Hang)"
proof -
  have k: "\<forall>r s'. native_gives wdemo_native 0 (wsys (wdemo_vm 1 2)) (Ret (r, s')) \<longrightarrow> sys_wf s'"
    using wdemo_native_same [of 0 "wdemo_sys 1"] wdemo_sys_wf [of 1] by auto
  have w: "vm_wf 0 (wdemo_vm 1 2)" by (rule wdemo_vm_wf) simp
  show ?thesis
    using wasm_step_typed [OF w k] w by blast
qed



text \<open>
  C37. \<open>memory.grow\<close> adds the request to the page count with wrap-around. Asked for minus one page, a
  module of \<open>n + 1\<close> pages gets a block of \<open>n\<close> pages, into which all \<open>n + 1\<close> are copied: the last page of
  its old memory lands behind the new block, over the canary and over heap the allocator will hand
  to others.
\<close>

theorem memory_grow_overflow:
  assumes "vm_wf i v" and "mem_ok i (wsys v)" and "at_op i v bc pc 0x40" and "0 < vsp v"
    and "Suc n = mem_pages (modules (wsys v) ! i)" and "0 < n" and "top_at 1 v = - 1"
    and "heap_alloc_zeroed (n * MEM_PAGE_SIZE) 16 (heap (wsys v)) = Ret (Some p, h)"
  shows "case wasm_step N i v of
      Go v' \<Rightarrow> mem_ptr (modules (wsys v') ! i) = p \<and> mem_pages (modules (wsys v') ! i) = n \<and>
        bump_next (bump (heap (wsys v'))) = p + n * MEM_PAGE_SIZE + 8 \<and>
        read_bytes (p + n * MEM_PAGE_SIZE) MEM_PAGE_SIZE (ram (heap (wsys v'))) = drop (n * MEM_PAGE_SIZE) (lin_bytes i (wsys v))
    | _ \<Rightarrow> False"
  by (rule grow_step_wrap [OF assms, of N]) simp

theorem memory_grow_overflow_witness:
  "\<exists>p h. heap_alloc_zeroed (1 * MEM_PAGE_SIZE) 16 (wdemo_heap 2) = Ret (Some p, h) \<and>
     (case wasm_step wdemo_native 0 (wdemo_vm 2 (- 1)) of
        Go v' \<Rightarrow> mem_ptr (modules (wsys v') ! 0) = p \<and> mem_pages (modules (wsys v') ! 0) = 1 \<and>
          bump_next (bump (heap (wsys v'))) = p + 1 * MEM_PAGE_SIZE + 8 \<and>
          read_bytes (p + 1 * MEM_PAGE_SIZE) MEM_PAGE_SIZE (ram (heap (wsys v'))) = drop (1 * MEM_PAGE_SIZE) (lin_bytes 0 (wsys (wdemo_vm 2 (- 1))))
      | _ \<Rightarrow> False)"
proof -
  obtain p h where a: "heap_alloc_zeroed (1 * MEM_PAGE_SIZE) 16 (wdemo_heap 2) = Ret (Some p, h)"
    using wdemo_alloc [of 2 1] by auto
  have "Suc 1 = mem_pages (modules (wsys (wdemo_vm 2 (- 1))) ! 0)" by (simp add: wdemo_module_def)
  note r = memory_grow_overflow [OF wdemo_vm_wf _ wdemo_vm_at _ this, where p = p and h = h and N = wdemo_native]
  show ?thesis using r a wdemo_mem_ok [of 2] by auto
qed

text \<open>
  C38. A module that has grown cannot be unloaded. Unloading releases the block as one page
  whatever its size, and looks for the trailing canary inside the data, at the start of the second
  page. After a module of one page has grown, that page is zero, and unloading stops the hart.
\<close>

theorem grow_unload_hangs:
  assumes "vm_wf i v" and "mem_ok i (wsys v)" and "at_op i v bc pc 0x40" and "0 < vsp v"
    and "1 = mem_pages (modules (wsys v) ! i)" and "loaded (modules (wsys v) ! i)"
    and "k = unat (top_at 1 v)" and "0 < k" and "1 + k \<le> MAX_MEM_PAGES"
    and "heap_alloc_zeroed ((1 + k) * MEM_PAGE_SIZE) 16 (heap (wsys v)) = Ret (Some p, h)"
  shows "case wasm_step N i v of Go v' \<Rightarrow> wasm_unload i (wsys v') = Hang | _ \<Rightarrow> False"
proof -
  obtain v' where st: "wasm_step N i v = Go v'"
    and m: "modules (wsys v') = (modules (wsys v))[i := (modules (wsys v) ! i)\<lparr>mem_ptr := p, mem_pages := 1 + k\<rparr>]"
    and b: "live_block (heap (wsys v')) p ((1 + k) * MEM_PAGE_SIZE)" "heap_ok (heap (wsys v'))"
    and c: "lin_bytes i (wsys v') = lin_bytes i (wsys v) @ replicate (k * MEM_PAGE_SIZE) 0"
    by (rule grow_step [OF assms(1-5,7-10), of N])
  have i: "i < length (modules (wsys v))" "i < MAX_WASM_MODULES" using assms(1) by (auto simp: vm_wf_def sys_wf_def)
  have l: "length (lin_bytes i (wsys v)) = MEM_PAGE_SIZE" using assms(5) by (simp add: lin_bytes_def Let_def)
  have "take 8 (drop MEM_PAGE_SIZE (lin_bytes i (wsys v'))) = replicate (min 8 (k * MEM_PAGE_SIZE)) 0"
    by (simp add: c l take_replicate)
  moreover have "8 \<le> k * MEM_PAGE_SIZE" using assms(8) by (simp add: wasm_consts)
  ultimately have "read_bytes (p + MEM_PAGE_SIZE) 8 (ram (heap (wsys v'))) = replicate 8 0"
    using read_bytes_drop [of MEM_PAGE_SIZE 8 "(1 + k) * MEM_PAGE_SIZE" p] m i by (simp add: lin_bytes_def Let_def)
  moreover have "usize_add p MEM_PAGE_SIZE = p + MEM_PAGE_SIZE"
    using b by (intro usize_add_small) (auto simp: live_block_def heap_ok_def wasm_consts)
  moreover have "p \<noteq> 0" "canary_bytes \<noteq> replicate 8 0"
    using b(1) canary_not_zero by (auto simp: live_block_def)
  ultimately show ?thesis
    using st i assms(6) m by (simp add: wasm_unload_def free_module_memory_def heap_dealloc_def Let_def)
qed

theorem grow_unload_hangs_witness:
  "\<exists>p h. heap_alloc_zeroed ((1 + 2) * MEM_PAGE_SIZE) 16 (wdemo_heap 1) = Ret (Some p, h) \<and>
     (case wasm_step wdemo_native 0 (wdemo_vm 1 2) of Go v' \<Rightarrow> wasm_unload 0 (wsys v') = Hang | _ \<Rightarrow> False)"
proof -
  have "\<exists>p h. heap_alloc_zeroed ((1 + 2) * MEM_PAGE_SIZE) 16 (wdemo_heap 1) = Ret (Some p, h)" by (rule wdemo_alloc) simp_all
  then obtain p h where a: "heap_alloc_zeroed ((1 + 2) * MEM_PAGE_SIZE) 16 (wdemo_heap 1) = Ret (Some p, h)" by blast
  have "1 = mem_pages (modules (wsys (wdemo_vm 1 2)) ! 0)" by (simp add: wdemo_module_def)
  note r = grow_unload_hangs [OF wdemo_vm_wf _ wdemo_vm_at _ this, where p = p and h = h and N = wdemo_native and k = 2]
  show ?thesis using r a wdemo_mem_ok [of 1] by (auto simp: wdemo_module_def wasm_consts)
qed

text \<open>
  C14. \<open>memory.grow\<close> within the limit of four pages, when the heap has room: the old page count is
  left on the stack, the memory has the new size, its old contents come first and the rest is zero,
  and its block is live with both canaries.
\<close>

theorem memory_grow_functional:
  assumes "vm_wf i v" and "mem_ok i (wsys v)" and "at_op i v bc pc 0x40" and "0 < vsp v"
    and "n = mem_pages (modules (wsys v) ! i)" and "k = unat (top_at 1 v)" and "0 < k" and "n + k \<le> MAX_MEM_PAGES"
    and "heap_alloc_zeroed ((n + k) * MEM_PAGE_SIZE) 16 (heap (wsys v)) = Ret (Some p, h)"
  shows "case wasm_step N i v of
      Go v' \<Rightarrow> top_at 1 v' = of_nat n \<and> vsp v' = vsp v \<and> mem_pages (modules (wsys v') ! i) = n + k \<and> mem_ok i (wsys v') \<and>
        lin_bytes i (wsys v') = lin_bytes i (wsys v) @ replicate (k * MEM_PAGE_SIZE) 0
    | _ \<Rightarrow> False"
proof -
  have i: "i < length (modules (wsys v))" using assms(1) by (auto simp: vm_wf_def sys_wf_def)
  show ?thesis
    by (rule grow_step [OF assms, of N]) (use i assms(2,7,8) in \<open>auto simp: mem_ok_def Let_def\<close>)
qed

theorem memory_grow_functional_witness:
  "\<exists>p h. heap_alloc_zeroed ((1 + 2) * MEM_PAGE_SIZE) 16 (wdemo_heap 1) = Ret (Some p, h) \<and>
     (case wasm_step wdemo_native 0 (wdemo_vm 1 2) of
        Go v' \<Rightarrow> top_at 1 v' = of_nat 1 \<and> vsp v' = vsp (wdemo_vm 1 2) \<and> mem_pages (modules (wsys v') ! 0) = 1 + 2 \<and>
          mem_ok 0 (wsys v') \<and> lin_bytes 0 (wsys v') = lin_bytes 0 (wsys (wdemo_vm 1 2)) @ replicate (2 * MEM_PAGE_SIZE) 0
      | _ \<Rightarrow> False)"
proof -
  have "\<exists>p h. heap_alloc_zeroed ((1 + 2) * MEM_PAGE_SIZE) 16 (wdemo_heap 1) = Ret (Some p, h)" by (rule wdemo_alloc) simp_all
  then obtain p h where a: "heap_alloc_zeroed ((1 + 2) * MEM_PAGE_SIZE) 16 (wdemo_heap 1) = Ret (Some p, h)" by blast
  have "1 = mem_pages (modules (wsys (wdemo_vm 1 2)) ! 0)" by (simp add: wdemo_module_def)
  note r = memory_grow_functional [OF wdemo_vm_wf _ wdemo_vm_at _ this, where p = p and h = h and N = wdemo_native and k = 2]
  show ?thesis using r a wdemo_mem_ok [of 1] by (auto simp: wasm_consts)
qed

text \<open>
  C39. The decoder inverts the encoder: wherever the shortest LEB128 encoding of a \<open>u32\<close> stands in a
  buffer, \<open>leb128_u\<close> returns the number and the offset behind it, which is also where the scan for the
  end of a block continues.
\<close>

theorem leb128_u_roundtrip:
  "leb128_u (pre @ leb_enc x @ post) (length pre) = Ret (x, length pre + length (leb_enc x)) \<and>
   skip_leb128 (pre @ leb_enc x @ post) (length pre) = length pre + length (leb_enc x)"
proof -
  have l: "leb128_u (pre @ leb_enc x @ post) (length pre) = Ret (x, length pre + length (leb_enc x))"
    using leb_u_loop_enc [of x 0 pre post 0] unsigned_less [of x] by (simp add: leb128_u_def)
  then show ?thesis
    using leb_u_loop_decodes [of "pre @ leb_enc x @ post" "length pre" 0 0] by (auto simp: leb128_u_def elim: decodesE)
qed

text \<open>
  C40. Every state of the runtime that loading, unloading, hot reload, registration of host functions
  and system calls, memory writes, resets of the statistics and executions reach from boot is well
  formed: eight modules, each with its fixed tables filled within their bounds whatever bytes were
  loaded, at most sixteen host functions and 256 system calls, and a heap inside the address space.
  The host functions are any native code that keeps the state well formed when it returns.
\<close>

theorem wasm_reach_wf:
  assumes "wasm_reach N s" and "\<forall>i s r s'. sys_wf s \<longrightarrow> native_gives N i s (Ret (r, s')) \<longrightarrow> sys_wf s'"
  shows "sys_wf s"
  using wasm_reach_typed [OF assms(2,1)] .

text \<open>The eight bytes of the header are a module; loading it succeeds.\<close>

lemma wdemo_load:
  "\<exists>s'. wasm_load 1 [] [0x00, 0x61, 0x73, 0x6D, 0x01, 0x00, 0x00, 0x00] (boot_wasm (wdemo_heap 1)) = Ret (Some 0, s')"
proof -
  obtain p h where a: "heap_alloc_zeroed MEM_PAGE_SIZE 16 (wdemo_heap 1) = Ret (Some p, h)"
    using wdemo_alloc [of 1 1] by auto
  then show ?thesis
    by (simp add: wasm_load_def wasm_validate_def boot_wasm_def wasm_consts Let_def parse_module_def
        parse_sections.simps alloc_module_memory_def upd_module_def)
qed

theorem wasm_reach_wf_witness:
  "\<exists>s'. wasm_load 1 [] [0x00, 0x61, 0x73, 0x6D, 0x01, 0x00, 0x00, 0x00] (boot_wasm (wdemo_heap 1)) = Ret (Some 0, s') \<and> sys_wf s'"
proof -
  have h: "heap_ok (wdemo_heap 1)" by (simp add: wdemo_heap_def heap_ok_def)
  obtain s' where l: "wasm_load 1 [] [0x00, 0x61, 0x73, 0x6D, 0x01, 0x00, 0x00, 0x00] (boot_wasm (wdemo_heap 1)) = Ret (Some 0, s')"
    using wdemo_load by blast
  then show ?thesis
    using wasm_reach_wf [OF wasm_reach.load [OF wasm_reach.boot [OF h] l], of wdemo_native] wdemo_native_same by blast
qed

text \<open>A name without zero bytes matches the aliases it is a prefix of.\<close>

lemma name_matches_from_prefix:
  "0 \<notin> set a \<Longrightarrow> 0 \<notin> set b \<Longrightarrow> name_matches_from (a @ 0 # r) b = prefix b a"
proof (induction b arbitrary: a)
  case (Cons c cs)
  then show ?case by (cases a) auto
qed simp

definition printable :: "string \<Rightarrow> bool" where
  "printable s \<longleftrightarrow> s \<noteq> [] \<and> length s \<le> 31 \<and> CHR 0x00 \<notin> set s"

lemma byte_inj: "(of_nat (of_char c) :: u8) = of_nat (of_char d) \<longleftrightarrow> c = d"
proof -
  have u: "unat (of_nat (of_char x) :: u8) = of_char x" for x
    using nat_of_char_less_256 [of x] by (simp add: unsigned_of_nat take_bit_nat_eq_self)
  show ?thesis using u [of c] u [of d] by (metis of_char_eq_iff)
qed

lemma ascii_nonzero: "CHR 0x00 \<notin> set s \<Longrightarrow> 0 \<notin> set (ascii s)"
proof -
  assume z: "CHR 0x00 \<notin> set s"
  have "(of_nat (of_char c) :: u8) \<noteq> 0" if "c \<in> set s" for c
  proof -
    have "c \<noteq> CHR 0x00" using that z by blast
    then show ?thesis using byte_inj [of c "CHR 0x00"] by simp
  qed
  then show ?thesis unfolding ascii_def by (metis (no_types, lifting) imageE list.set_map)
qed

lemma ascii_prefix: "prefix (ascii g) (ascii f) = prefix g f"
  by (induction g arbitrary: f; case_tac f) (auto simp: ascii_def byte_inj)

lemma name_matches_prefix:
  assumes "printable f" "printable g"
  shows "name_matches (set_name (ascii f) empty_name) (ascii g) = prefix g f"
proof -
  have z: "0 \<notin> set (ascii f)" "0 \<notin> set (ascii g)" using assms ascii_nonzero by (auto simp: printable_def)
  have l: "length (ascii f) \<le> 31" "ascii g \<noteq> []" using assms by (auto simp: ascii_def printable_def)
  have "set_name (ascii f) empty_name = ascii f @ 0 # drop (Suc (length (ascii f))) empty_name"
    using l by (simp add: set_name_def overwrite_def)
  moreover have "hd (ascii g) \<noteq> 0" using z(2) l(2) by (metis list.set_sel(1))
  ultimately show ?thesis
    using z l name_matches_from_prefix [OF z, of "drop (Suc (length (ascii f))) empty_name"] ascii_prefix [of g f]
    by (simp add: name_matches_def)
qed

lemma slice_of_name:
  assumes "printable g"
  shows "name_to_slice (set_name (ascii g) empty_name) = ascii g"
proof -
  have "set_name (ascii g) empty_name = ascii g @ 0 # drop (Suc (length (ascii g))) empty_name"
    using assms by (simp add: set_name_def overwrite_def ascii_def printable_def)
  moreover have "b \<noteq> 0" if "b \<in> set (ascii g)" for b using that assms ascii_nonzero [of g] by (auto simp: printable_def)
  ultimately show ?thesis by (simp add: name_to_slice_def takeWhile_append2)
qed

text \<open>The boot aliases fit in the table, so registering them appends one entry each.\<close>

definition alias_entry :: "string \<times> string \<times> usize \<Rightarrow> WasmSyscallEntry" where
  "alias_entry = (\<lambda>(m, f, nr). \<lparr>smodule_name = set_name (ascii m) empty_name,
     sfunction_name = set_name (ascii f) empty_name, syscall_nr = nr\<rparr>)"

lemma register_fold:
  "length t + length xs \<le> MAX_SYSCALL_ENTRIES \<Longrightarrow>
   fold (\<lambda>(m, f, nr). table_register (ascii m) (ascii f) nr) xs t = t @ map alias_entry xs"
  by (induction xs arbitrary: t) (auto simp: table_register_def alias_entry_def)

lemma default_printable: "\<forall>(m, f, nr)\<in>set default_syscalls. printable m \<and> printable f"
  by (simp add: default_syscalls_def printable_def)

lemma lookup_aliases:
  assumes "\<forall>(m, f, nr)\<in>set xs. printable m \<and> printable f" "printable g"
  shows "lookup_by_func (map alias_entry xs) (ascii g) = map_option (snd \<circ> snd) (find (\<lambda>(m, f, nr). prefix g f) xs)"
    and "printable n \<Longrightarrow> table_lookup (map alias_entry xs) (ascii n) (ascii g) =
      map_option (snd \<circ> snd) (find (\<lambda>(m, f, nr). prefix n m \<and> prefix g f) xs)"
  using assms by (induction xs) (auto simp: lookup_by_func_def table_lookup_def alias_entry_def name_matches_prefix)

text \<open>
  C13. An import without a host function is looked up by the first alias it is a prefix of. Let the
  system-call table hold any printable aliases, registered in some order. A call of an import with a
  printable name goes to the dispatcher with the number of the first alias whose function name
  starts with the import's, whatever the module of either; without such an alias the import is not
  found. The lookup by module and name, which the interpreter does not use, takes the first alias
  that has both as prefixes.
\<close>

theorem import_lookup_by_prefix:
  assumes "length xs \<le> MAX_SYSCALL_ENTRIES" and "\<forall>(m, f, nr)\<in>set xs. printable m \<and> printable f"
    and "syscall_table s = fold (\<lambda>(m, f, nr). table_register (ascii m) (ascii f) nr) xs []"
    and "printable g" and "name_to_slice nm = ascii g" and "find_host s nm = Ret None" and "printable n"
  shows "host_answer N i nm args s =
      (case find (\<lambda>(m, f, nr). prefix g f) xs of
         None \<Rightarrow> Ret None
       | Some (m, f, nr) \<Rightarrow>
           obind (dispatch_syscall N nr args (wpid (modules s ! i)) s) (\<lambda>(r, s1).
             if i < length (perf_stats s1) then Ret (Some (r, count_forward i s1)) else Panic)) \<and>
    table_lookup (syscall_table s) (ascii n) (ascii g) =
      map_option (snd \<circ> snd) (find (\<lambda>(m, f, nr). prefix n m \<and> prefix g f) xs)"
proof -
  have "syscall_table s = map alias_entry xs" using assms(1,3) register_fold [of "[]" xs] by simp
  then show ?thesis
    using lookup_aliases [OF assms(2,4)] assms(5-7)
    by (cases "find (\<lambda>(m, f, nr). prefix g f) xs") (auto simp: host_answer_def)
qed

text \<open>
  With the 72 aliases of boot the imports \<open>send\<close> and \<open>recv\<close>, which the table has for the IPC system
  calls 11 and 12, go to the socket calls \<open>sendto\<close> (95) and \<open>recvfrom\<close> (96), registered before them.
\<close>

theorem import_lookup_by_prefix_witness:
  "let s = (boot_wasm (wdemo_heap 1))\<lparr>syscall_table := register_default_set []\<rparr> in
   length default_syscalls = 72 \<and>
   host_answer wdemo_native 0 (set_name (ascii ''send'') empty_name) [] s = Ret (Some (95, count_forward 0 s)) \<and>
   table_lookup (syscall_table s) (ascii ''tros:ipc'') (ascii ''send'') = Some 11 \<and>
   host_answer wdemo_native 0 (set_name (ascii ''recv'') empty_name) [] s = Ret (Some (96, count_forward 0 s)) \<and>
   table_lookup (syscall_table s) (ascii ''tros:ipc'') (ascii ''recv'') = Some 12"
proof -
  let ?s = "(boot_wasm (wdemo_heap 1))\<lparr>syscall_table := register_default_set []\<rparr>"
  have p: "printable ''send''" "printable ''recv''" "printable ''tros:ipc''" by (simp_all add: printable_def)
  have l: "length default_syscalls = 72" "length default_syscalls \<le> MAX_SYSCALL_ENTRIES"
    by (simp_all add: default_syscalls_def MAX_SYSCALL_ENTRIES_def)
  have t: "syscall_table ?s = fold (\<lambda>(m, f, nr). table_register (ascii m) (ascii f) nr) default_syscalls []"
    by (simp add: register_default_set_def)
  have h: "find_host ?s nm = Ret None" for nm by (simp add: find_host_def boot_wasm_def)
  have b: "0 < length (perf_stats ?s)" by (simp add: boot_wasm_def wasm_consts)
  note r = import_lookup_by_prefix [OF l(2) default_printable t _ slice_of_name h p(3), where N = wdemo_native and i = 0 and args = "[]"]
  have f: "find (\<lambda>(m, f, nr). prefix ''send'' f) default_syscalls = Some (''tros:net'', ''sendto'', 95)"
    "find (\<lambda>(m, f, nr). prefix ''tros:ipc'' m \<and> prefix ''send'' f) default_syscalls = Some (''tros:ipc'', ''send'', 11)"
    "find (\<lambda>(m, f, nr). prefix ''recv'' f) default_syscalls = Some (''tros:net'', ''recvfrom'', 96)"
    "find (\<lambda>(m, f, nr). prefix ''tros:ipc'' m \<and> prefix ''recv'' f) default_syscalls = Some (''tros:ipc'', ''recv'', 12)"
    by (simp_all add: default_syscalls_def)
  show ?thesis
    unfolding Let_def
    using l(1) r [OF p(1) p(1)] r [OF p(2) p(2)] b f by (simp add: dispatch_syscall_def wdemo_native_def)
qed

end
