(* ===== verification/Wire_Protocol.thy ===== *)
theory Wire_Protocol
  imports Kernel_Prelude
begin

unbundle bit_operations_syntax

text \<open>
  The wire format of the distributed IPC, kernel/src/distributed/protocol.rs. A writer takes
  the buffer and returns it with the number of bytes written; a parser takes a received buffer.
  Writing past the end of a buffer is a panic, which only \<open>write_proclist_resp\<close> can reach.
\<close>

section \<open>Definitions\<close>

subsection \<open>Magic numbers\<close>

abbreviation MAGIC_PING :: u16 where "MAGIC_PING \<equiv> 0xD1A0"
abbreviation MAGIC_PONG :: u16 where "MAGIC_PONG \<equiv> 0xD1A1"
abbreviation MAGIC_DATA :: u16 where "MAGIC_DATA \<equiv> 0xD1A2"
abbreviation MAGIC_CAP :: u16 where "MAGIC_CAP \<equiv> 0xD1A3"
abbreviation MAGIC_MEM_ALLOC_REQ :: u16 where "MAGIC_MEM_ALLOC_REQ \<equiv> 0xD1B0"
abbreviation MAGIC_MEM_ALLOC_RESP :: u16 where "MAGIC_MEM_ALLOC_RESP \<equiv> 0xD1B1"
abbreviation MAGIC_MEM_FREE :: u16 where "MAGIC_MEM_FREE \<equiv> 0xD1B2"
abbreviation MAGIC_PROCLIST_REQ :: u16 where "MAGIC_PROCLIST_REQ \<equiv> 0xD1C0"
abbreviation MAGIC_PROCLIST_RESP :: u16 where "MAGIC_PROCLIST_RESP \<equiv> 0xD1C1"

abbreviation MAX_WIRE_PAYLOAD :: usize where "MAX_WIRE_PAYLOAD \<equiv> 59"

abbreviation u16_at :: "u8 list \<Rightarrow> usize \<Rightarrow> u16" where
  "u16_at buf i \<equiv> of_nat (from_le [buf ! i, buf ! (i + 1)])"

abbreviation u32_at :: "u8 list \<Rightarrow> usize \<Rightarrow> u32" where
  "u32_at buf i \<equiv> of_nat (from_le [buf ! i, buf ! (i + 1), buf ! (i + 2), buf ! (i + 3)])"

subsection \<open>Node discovery\<close>

definition write_ping :: "u8 list \<Rightarrow> u32 \<Rightarrow> (usize \<times> u8 list) option" where
  "write_ping buf node_id =
     (if length buf < 6 then None else Some (6, overwrite 0 (to_le 2 MAGIC_PING @ to_le 4 node_id) buf))"

definition write_pong :: "u8 list \<Rightarrow> u32 \<Rightarrow> (usize \<times> u8 list) option" where
  "write_pong buf node_id =
     (if length buf < 6 then None else Some (6, overwrite 0 (to_le 2 MAGIC_PONG @ to_le 4 node_id) buf))"

definition parse_ping :: "u8 list \<Rightarrow> u32 option" where
  "parse_ping buf =
     (if length buf < 6 then None else if u16_at buf 0 \<noteq> MAGIC_PING then None else Some (u32_at buf 2))"

definition parse_pong :: "u8 list \<Rightarrow> u32 option" where
  "parse_pong buf =
     (if length buf < 6 then None else if u16_at buf 0 \<noteq> MAGIC_PONG then None else Some (u32_at buf 2))"

subsection \<open>Data messages and capabilities\<close>

definition write_data :: "u8 list \<Rightarrow> u8 \<Rightarrow> u16 \<Rightarrow> u8 list \<Rightarrow> (usize \<times> u8 list) option" where
  "write_data buf src_node remote_ep payload =
     (let plen = length payload; total = 6 + plen in
      if plen > MAX_WIRE_PAYLOAD then None
      else if length buf < total then None
      else Some (total, overwrite 0 (to_le 2 MAGIC_DATA @ [src_node] @ to_le 2 remote_ep @ [of_nat plen] @ payload) buf))"

definition parse_data :: "u8 list \<Rightarrow> (u8 \<times> u16 \<times> u8 list) option" where
  "parse_data buf =
     (if length buf < 6 then None
      else if u16_at buf 0 \<noteq> MAGIC_DATA then None
      else
        (let plen = unat (buf ! 5) in
         if length buf < 6 + plen then None
         else Some (buf ! 2, u16_at buf 3, take plen (drop 6 buf))))"

text \<open>The resource data has 64 bytes by its type.\<close>

definition write_cap :: "u8 list \<Rightarrow> u8 \<Rightarrow> u8 \<Rightarrow> u8 \<Rightarrow> u32 \<Rightarrow> u8 list \<Rightarrow> (usize \<times> u8 list) option" where
  "write_cap buf src_node cap_type rights slot resource_data =
     (if length buf < 73 then None
      else Some (73, overwrite 0 (to_le 2 MAGIC_CAP @ [src_node, cap_type, rights] @ to_le 4 slot @ resource_data) buf))"

definition parse_cap :: "u8 list \<Rightarrow> (u8 \<times> u8 \<times> u8 \<times> u32 \<times> u8 list) option" where
  "parse_cap buf =
     (if length buf < 73 then None
      else if u16_at buf 0 \<noteq> MAGIC_CAP then None
      else Some (buf ! 2, buf ! 3, buf ! 4, u32_at buf 5, take 64 (drop 9 buf)))"

subsection \<open>Remote memory\<close>

definition write_mem_alloc_req :: "u8 list \<Rightarrow> u8 \<Rightarrow> u8 \<Rightarrow> (usize \<times> u8 list) option" where
  "write_mem_alloc_req buf requester num_pages =
     (if length buf < 4 then None else Some (4, overwrite 0 (to_le 2 MAGIC_MEM_ALLOC_REQ @ [requester, num_pages]) buf))"

definition parse_mem_alloc_req :: "u8 list \<Rightarrow> (u8 \<times> u8) option" where
  "parse_mem_alloc_req buf =
     (if length buf < 4 then None else if u16_at buf 0 \<noteq> MAGIC_MEM_ALLOC_REQ then None else Some (buf ! 2, buf ! 3))"

definition write_mem_alloc_resp :: "u8 list \<Rightarrow> u8 \<Rightarrow> u32 list \<Rightarrow> (usize \<times> u8 list) option" where
  "write_mem_alloc_resp buf requester handles =
     (let num = length handles; total = 4 + num * 4 in
      if num > 16 then None
      else if length buf < total then None
      else Some (total, overwrite 0 (to_le 2 MAGIC_MEM_ALLOC_RESP @ [requester, of_nat num] @ concat (map (to_le 4) handles)) buf))"

definition parse_mem_alloc_resp :: "u8 list \<Rightarrow> (u8 \<times> u8 list) option" where
  "parse_mem_alloc_resp buf =
     (if length buf < 4 then None
      else if u16_at buf 0 \<noteq> MAGIC_MEM_ALLOC_RESP then None
      else
        (let num = unat (buf ! 3) in
         if length buf < 4 + num * 4 then None else Some (buf ! 2, take (num * 4) (drop 4 buf))))"

definition write_mem_free :: "u8 list \<Rightarrow> u8 \<Rightarrow> u32 \<Rightarrow> (usize \<times> u8 list) option" where
  "write_mem_free buf requester handle =
     (if length buf < 7 then None else Some (7, overwrite 0 (to_le 2 MAGIC_MEM_FREE @ [requester] @ to_le 4 handle) buf))"

definition parse_mem_free :: "u8 list \<Rightarrow> (u8 \<times> u32) option" where
  "parse_mem_free buf =
     (if length buf < 7 then None else if u16_at buf 0 \<noteq> MAGIC_MEM_FREE then None else Some (buf ! 2, u32_at buf 3))"

subsection \<open>Remote process lists\<close>

definition write_proclist_req :: "u8 list \<Rightarrow> u8 \<Rightarrow> (usize \<times> u8 list) option" where
  "write_proclist_req buf requester =
     (if length buf < 3 then None else Some (3, overwrite 0 (to_le 2 MAGIC_PROCLIST_REQ @ [requester]) buf))"

definition parse_proclist_req :: "u8 list \<Rightarrow> u8 option" where
  "parse_proclist_req buf =
     (if length buf < 3 then None else if u16_at buf 0 \<noteq> MAGIC_PROCLIST_REQ then None else Some (buf ! 2))"

text \<open>
  The loop over the entries, from position \<open>pos\<close>; it gives the buffer also when it stops
  early, because the entries before the one that does not fit have been written.
\<close>

fun write_entries :: "(u32 \<times> u8 \<times> u8 list) list \<Rightarrow> usize \<Rightarrow> u8 list \<Rightarrow> usize option \<times> u8 list" where
  "write_entries [] pos buf = (Some pos, buf)"
| "write_entries ((pid, state, name) # es) pos buf =
     (let nlen = min (length name) 48; entry_size = 6 + nlen in
      if length buf < pos + entry_size then (None, buf)
      else write_entries es (pos + entry_size) (overwrite pos (to_le 4 pid @ [state, of_nat nlen] @ take nlen name) buf))"

definition write_proclist_resp :: "u8 list \<Rightarrow> (u32 \<times> u8 \<times> u8 list) list \<Rightarrow> (usize option \<times> u8 list) outcome" where
  "write_proclist_resp buf entries =
     (if length entries > 64 then Ret (None, buf)
      else
        (case write_entries entries 4 buf of
           (None, buf1) \<Rightarrow> Ret (None, buf1)
         | (Some pos, buf1) \<Rightarrow>
             if length buf1 < 4 then Panic
             else Ret (Some pos, overwrite 0 (to_le 2 MAGIC_PROCLIST_RESP @ to_le 2 (of_nat (length entries) :: u16)) buf1)))"

record RemoteProcEntry =
  re_pid :: u32
  re_state :: u8
  re_name :: "u8 list"
  re_name_len :: usize

text \<open>The entries parsed before the parser stops stay in the caller's array \<open>out\<close>.\<close>

fun parse_entries :: "u8 list \<Rightarrow> usize \<Rightarrow> usize \<Rightarrow> usize \<Rightarrow> RemoteProcEntry list \<Rightarrow> bool \<times> RemoteProcEntry list" where
  "parse_entries buf 0 i pos out = (True, out)"
| "parse_entries buf (Suc n) i pos out =
     (if pos + 6 > length buf then (False, out)
      else
        (let nlen = unat (buf ! (pos + 5)); copy_len = min nlen 48 in
         if pos + 6 + nlen > length buf then (False, out)
         else parse_entries buf n (i + 1) (pos + (6 + nlen))
           (out[i := \<lparr>re_pid = u32_at buf pos, re_state = buf ! (pos + 4),
                      re_name = overwrite 0 (take copy_len (drop (pos + 6) buf)) (replicate 48 0), re_name_len = copy_len\<rparr>])))"

definition parse_proclist_resp :: "u8 list \<Rightarrow> RemoteProcEntry list \<Rightarrow> usize option \<times> RemoteProcEntry list" where
  "parse_proclist_resp buf out =
     (if length buf < 4 then (None, out)
      else if u16_at buf 0 \<noteq> MAGIC_PROCLIST_RESP then (None, out)
      else
        (let count = unat (u16_at buf 2) in
         if count > length out then (None, out)
         else
           (case parse_entries buf count 0 4 out of
              (False, out1) \<Rightarrow> (None, out1)
            | (True, out1) \<Rightarrow> (Some count, out1))))"

section \<open>Reading back what was written\<close>

lemma to_le_2: "to_le 2 w = [ucast w, ucast (drop_bit 8 w)]"
  by (simp add: numeral_2_eq_2 to_le_Suc to_le_def)

lemma to_le_4: "to_le 4 w = [ucast w, ucast (drop_bit 8 w), ucast (drop_bit 16 w), ucast (drop_bit 24 w)]"
  by (simp add: eval_nat_numeral to_le_Suc to_le_def)

lemma u16_bytes: "of_nat (from_le (to_le 2 w)) = (w :: u16)"
proof -
  have "unat w < 256 ^ 2" using unsigned_less [of w] by simp
  then show ?thesis by (simp add: from_le_to_le)
qed

lemma u32_bytes: "of_nat (from_le (to_le 4 w)) = (w :: u32)"
proof -
  have "unat w < 256 ^ 4" using unsigned_less [of w] by simp
  then show ?thesis by (simp add: from_le_to_le)
qed

lemmas le_read [simp] = u16_bytes [unfolded to_le_2, simplified] u32_bytes [unfolded to_le_4, simplified]

lemma written: "length xs \<le> length buf \<Longrightarrow>
    take (length xs) (overwrite 0 xs buf) = xs \<and> drop (length xs) (overwrite 0 xs buf) = drop (length xs) buf"
  by (simp add: overwrite_def)

lemma written_n: "n = length xs \<Longrightarrow> n \<le> length buf \<Longrightarrow>
    take n (overwrite 0 xs buf) = xs \<and> drop n (overwrite 0 xs buf) = drop n buf"
  using written by blast

lemma unat_small_u8: "n < 256 \<Longrightarrow> unat (of_nat n :: u8) = n"
  by (simp add: unsigned_of_nat take_bit_nat_eq_self)

lemma concat_len: "length (concat (map (to_le 4) hs)) = 4 * length hs"
  by (induction hs) auto

lemmas wire_parsers = parse_ping_def parse_pong_def parse_data_def parse_cap_def parse_mem_alloc_req_def
  parse_mem_alloc_resp_def parse_mem_free_def parse_proclist_req_def

text \<open>What a fixed-format packet looks like on the wire, for any rest of the buffer.\<close>

lemma ping_parses: "parse_ping ((to_le 2 MAGIC_PING @ to_le 4 w) @ rest) = Some w"
  by (simp add: parse_ping_def to_le_2 to_le_4)

lemma pong_parses: "parse_pong ((to_le 2 MAGIC_PONG @ to_le 4 w) @ rest) = Some w"
  by (simp add: parse_pong_def to_le_2 to_le_4)

lemma data_parses:
  assumes "length p < 256"
  shows "parse_data ((to_le 2 MAGIC_DATA @ [s] @ to_le 2 e @ [of_nat (length p)] @ p) @ rest) = Some (s, e, p)"
  using assms by (simp add: parse_data_def to_le_2 unat_small_u8)

lemma cap_parses:
  assumes "length d = 64"
  shows "parse_cap ((to_le 2 MAGIC_CAP @ [s, c, r] @ to_le 4 i @ d) @ rest) = Some (s, c, r, i, d)"
  using assms by (simp add: parse_cap_def to_le_2 to_le_4)

lemma alloc_req_parses: "parse_mem_alloc_req ((to_le 2 MAGIC_MEM_ALLOC_REQ @ [q, n]) @ rest) = Some (q, n)"
  by (simp add: parse_mem_alloc_req_def to_le_2)

lemma alloc_resp_parses:
  assumes "4 dvd length hs" and "length hs < 1024"
  shows "parse_mem_alloc_resp ((to_le 2 MAGIC_MEM_ALLOC_RESP @ [q, of_nat (length hs div 4)] @ hs) @ rest) = Some (q, hs)"
  using assms by (simp add: parse_mem_alloc_resp_def to_le_2 unat_small_u8 dvd_div_mult_self)

lemma free_parses: "parse_mem_free ((to_le 2 MAGIC_MEM_FREE @ [q] @ to_le 4 h) @ rest) = Some (q, h)"
  by (simp add: parse_mem_free_def to_le_2 to_le_4)

lemma proclist_req_parses: "parse_proclist_req ((to_le 2 MAGIC_PROCLIST_REQ @ [q]) @ rest) = Some q"
  by (simp add: parse_proclist_req_def to_le_2)

text \<open>The kinds of packet a buffer is accepted as.\<close>

definition accepted :: "u8 list \<Rightarrow> RemoteProcEntry list \<Rightarrow> bool list" where
  "accepted buf out = [parse_ping buf \<noteq> None, parse_pong buf \<noteq> None, parse_data buf \<noteq> None, parse_cap buf \<noteq> None,
     parse_mem_alloc_req buf \<noteq> None, parse_mem_alloc_resp buf \<noteq> None, parse_mem_free buf \<noteq> None,
     parse_proclist_req buf \<noteq> None, fst (parse_proclist_resp buf out) \<noteq> None]"

definition magics :: "u16 list" where
  "magics = [MAGIC_PING, MAGIC_PONG, MAGIC_DATA, MAGIC_CAP, MAGIC_MEM_ALLOC_REQ, MAGIC_MEM_ALLOC_RESP, MAGIC_MEM_FREE,
     MAGIC_PROCLIST_REQ, MAGIC_PROCLIST_RESP]"

lemma accepted_magic:
  assumes "i < 9" and "accepted buf out ! i"
  shows "u16_at buf 0 = magics ! i"
proof -
  have "list_all2 (\<lambda>b m. b \<longrightarrow> u16_at buf 0 = m) (accepted buf out) magics"
    unfolding accepted_def magics_def
    by (simp add: wire_parsers parse_proclist_resp_def del: from_le.simps split del: if_split) (auto split: if_splits)
  with assms show ?thesis by (auto simp: list_all2_conv_all_nth accepted_def)
qed

lemma accepted_one:
  assumes "i < 9" "j < 9" "accepted buf out ! i" "accepted buf out ! j"
  shows "i = j"
proof -
  have "distinct magics" "length magics = 9" by (simp_all add: magics_def)
  with accepted_magic [OF assms(1,3)] accepted_magic [OF assms(2,4)] assms(1,2) show ?thesis
    by (metis nth_eq_iff_index_eq)
qed

text \<open>
  A writer and its parser agree on \<open>n\<close> bytes: the writer refuses only a buffer that is too
  short, writes nothing behind the packet, and the parser reads the value back from the packet,
  whatever follows it.
\<close>

definition carries :: "usize \<Rightarrow> u8 list \<Rightarrow> (usize \<times> u8 list) option \<Rightarrow> (u8 list \<Rightarrow> 'a option) \<Rightarrow> 'a \<Rightarrow> bool" where
  "carries n buf w parse v \<longleftrightarrow>
     (case w of
        None \<Rightarrow> length buf < n
      | Some (k, b) \<Rightarrow> k = n \<and> n \<le> length buf \<and> length b = length buf \<and> drop n b = drop n buf \<and>
          (\<forall>rest. parse (take n b @ rest) = Some v))"

text \<open>
  The contract of a packet format: its parser inverts its bytes, whatever follows them. A writer
  that copies the bytes then carries the value, and two values never share an encoding, even as
  prefixes of two longer buffers.
\<close>

locale packet =
  fixes bytes :: "'v \<Rightarrow> u8 list" and parse :: "u8 list \<Rightarrow> 'v option" and ok :: "'v \<Rightarrow> bool"
  assumes parses: "ok v \<Longrightarrow> parse (bytes v @ rest) = Some v"
begin

lemma carried:
  assumes "ok v" and "n = length (bytes v)" and "w = (if length buf < n then None else Some (n, overwrite 0 (bytes v) buf))"
  shows "carries n buf w parse v"
  using assms written_n [of n "bytes v" buf] parses by (auto simp: carries_def)

lemma unambiguous: "ok v \<Longrightarrow> ok v' \<Longrightarrow> bytes v @ rest = bytes v' @ rest' \<Longrightarrow> v = v'"
  using parses [of v rest] parses [of v' rest'] by simp

end

interpretation ping: packet "\<lambda>w. to_le 2 MAGIC_PING @ to_le 4 w" parse_ping "\<lambda>_. True"
  by unfold_locales (rule ping_parses)

interpretation pong: packet "\<lambda>w. to_le 2 MAGIC_PONG @ to_le 4 w" parse_pong "\<lambda>_. True"
  by unfold_locales (rule pong_parses)

interpretation data_msg: packet "\<lambda>(s, e, p). to_le 2 MAGIC_DATA @ [s] @ to_le 2 e @ [of_nat (length p)] @ p" parse_data
  "\<lambda>(s, e, p). length p < 256"
  by unfold_locales (clarify, rule data_parses)

interpretation cap_msg: packet "\<lambda>(s, c, r, i, d). to_le 2 MAGIC_CAP @ [s, c, r] @ to_le 4 i @ d" parse_cap
  "\<lambda>(s, c, r, i, d). length d = 64"
  by unfold_locales (clarify, rule cap_parses)

interpretation alloc_req: packet "\<lambda>(q, n). to_le 2 MAGIC_MEM_ALLOC_REQ @ [q, n]" parse_mem_alloc_req "\<lambda>_. True"
  by unfold_locales (clarify, rule alloc_req_parses)

interpretation alloc_resp: packet "\<lambda>(q, hs). to_le 2 MAGIC_MEM_ALLOC_RESP @ [q, of_nat (length hs div 4)] @ hs" parse_mem_alloc_resp
  "\<lambda>(q, hs). 4 dvd length hs \<and> length hs < 1024"
  by unfold_locales (clarify, rule alloc_resp_parses)

interpretation free_msg: packet "\<lambda>(q, h). to_le 2 MAGIC_MEM_FREE @ [q] @ to_le 4 h" parse_mem_free "\<lambda>_. True"
  by unfold_locales (clarify, rule free_parses)

interpretation proclist_req: packet "\<lambda>q. to_le 2 MAGIC_PROCLIST_REQ @ [q]" parse_proclist_req "\<lambda>_. True"
  by unfold_locales (rule proclist_req_parses)

lemma write_ping_carries: "carries 6 buf (write_ping buf w) parse_ping w"
  by (rule ping.carried) (simp_all add: write_ping_def)

lemma write_pong_carries: "carries 6 buf (write_pong buf w) parse_pong w"
  by (rule pong.carried) (simp_all add: write_pong_def)

lemma write_data_carries:
  "length p \<le> 59 \<Longrightarrow> carries (6 + length p) buf (write_data buf s e p) parse_data (s, e, p)"
  by (rule data_msg.carried) (simp_all add: write_data_def Let_def)

lemma write_cap_carries:
  "length d = 64 \<Longrightarrow> carries 73 buf (write_cap buf s c r i d) parse_cap (s, c, r, i, d)"
  by (rule cap_msg.carried) (simp_all add: write_cap_def)

lemma write_mem_alloc_req_carries: "carries 4 buf (write_mem_alloc_req buf q n) parse_mem_alloc_req (q, n)"
  by (rule alloc_req.carried) (simp_all add: write_mem_alloc_req_def)

lemma write_mem_alloc_resp_carries:
  "length hs \<le> 16 \<Longrightarrow> carries (4 + length hs * 4) buf (write_mem_alloc_resp buf q hs) parse_mem_alloc_resp
     (q, concat (map (to_le 4) hs))"
  by (rule alloc_resp.carried) (simp_all add: write_mem_alloc_resp_def Let_def concat_len)

lemma write_mem_free_carries: "carries 7 buf (write_mem_free buf q h) parse_mem_free (q, h)"
  by (rule free_msg.carried) (simp_all add: write_mem_free_def)

lemma write_proclist_req_carries: "carries 3 buf (write_proclist_req buf q) parse_proclist_req q"
  by (rule proclist_req.carried) (simp_all add: write_proclist_req_def)

section \<open>Process lists\<close>

fun entry_bytes :: "u32 \<times> u8 \<times> u8 list \<Rightarrow> u8 list" where
  "entry_bytes (pid, state, name) = to_le 4 pid @ [state, of_nat (min (length name) 48)] @ take 48 name"

fun entry_of :: "u32 \<times> u8 \<times> u8 list \<Rightarrow> RemoteProcEntry" where
  "entry_of (pid, state, name) =
     \<lparr>re_pid = pid, re_state = state, re_name = take 48 name @ replicate (48 - length name) 0,
      re_name_len = min (length name) 48\<rparr>"

lemma take_min: "take (min (length name) 48) name = take 48 name"
  by (simp add: min_def)

lemma overwrite_append:
  "pos + length xs + length ys \<le> length buf \<Longrightarrow>
   overwrite (pos + length xs) ys (overwrite pos xs buf) = overwrite pos (xs @ ys) buf"
  by (simp add: overwrite_def ac_simps)

lemma write_entries_fits:
  "pos + length (concat (map entry_bytes es)) \<le> length buf \<Longrightarrow>
   write_entries es pos buf = (Some (pos + length (concat (map entry_bytes es))), overwrite pos (concat (map entry_bytes es)) buf)"
proof (induction es arbitrary: pos buf)
  case Nil
  then show ?case by (simp add: overwrite_def)
next
  case (Cons e es)
  obtain pid state name where e: "e = (pid, state, name)" by (cases e)
  have l: "length (entry_bytes e) = 6 + min (length name) 48" by (simp add: e)
  have "write_entries (e # es) pos buf = write_entries es (pos + length (entry_bytes e)) (overwrite pos (entry_bytes e) buf)"
    using Cons.prems l by (simp add: e take_min Let_def)
  also have "\<dots> = (Some (pos + length (entry_bytes e) + length (concat (map entry_bytes es))),
      overwrite (pos + length (entry_bytes e)) (concat (map entry_bytes es)) (overwrite pos (entry_bytes e) buf))"
    using Cons.prems by (intro Cons.IH) simp
  finally show ?case using Cons.prems overwrite_append [of pos "entry_bytes e" "concat (map entry_bytes es)" buf]
    by (simp add: add.assoc)
qed

lemma write_entries_short:
  "\<not> pos + length (concat (map entry_bytes es)) \<le> length buf \<Longrightarrow> pos \<le> length buf \<Longrightarrow> fst (write_entries es pos buf) = None"
proof (induction es arbitrary: pos buf)
  case Nil
  then show ?case by simp
next
  case (Cons e es)
  obtain pid state name where e: "e = (pid, state, name)" by (cases e)
  have l: "length (entry_bytes e) = 6 + min (length name) 48" by (simp add: e)
  show ?case
  proof (cases "length buf < pos + length (entry_bytes e)")
    case True
    then show ?thesis using l by (simp add: e Let_def)
  next
    case False
    have "write_entries (e # es) pos buf = write_entries es (pos + length (entry_bytes e)) (overwrite pos (entry_bytes e) buf)"
      using False l by (simp add: e take_min Let_def)
    moreover have "fst (write_entries es (pos + length (entry_bytes e)) (overwrite pos (entry_bytes e) buf)) = None"
      using False Cons.prems by (intro Cons.IH) simp_all
    ultimately show ?thesis by simp
  qed
qed

lemma parse_entry:
  fixes rest :: "u8 list"
  assumes "pos = length pre" and "buf = pre @ entry_bytes e @ rest"
  shows "parse_entries buf (Suc n) i pos out = parse_entries buf n (i + 1) (pos + length (entry_bytes e)) (out[i := entry_of e])"
proof -
  obtain pid state name where e: "e = (pid, state, name)" by (cases e)
  define k where "k = min (length name) 48"
  have b: "buf = pre @ to_le 4 pid @ [state, of_nat k] @ take k name @ rest"
    by (simp add: assms(2) e k_def take_min)
  have k: "unat (of_nat k :: u8) = k" "k \<le> 48" "k \<le> length name" by (simp_all add: unat_small_u8 k_def)
  have n: "buf ! (pos + 5) = of_nat k" "buf ! (pos + 4) = state" "u32_at buf pos = pid"
    "drop (pos + 6) buf = take k name @ rest" "length buf = pos + 6 + k + length rest"
    using k(3) by (simp_all add: b assms(1) nth_append to_le_4)
  have "overwrite 0 (take k name) (replicate 48 0) = take 48 name @ replicate (48 - length name) (0 :: u8)"
    by (auto simp: overwrite_def k_def min_def)
  then have "entry_of e = \<lparr>re_pid = pid, re_state = state, re_name = overwrite 0 (take k name) (replicate 48 0), re_name_len = k\<rparr>"
    by (simp add: e k_def)
  with n k show ?thesis by (simp add: Let_def e k_def [symmetric] add.assoc del: from_le.simps)
qed

lemma parse_entries_back:
  "pos = length pre \<Longrightarrow> buf = pre @ concat (map entry_bytes es) @ rest \<Longrightarrow> i + length es \<le> length out \<Longrightarrow>
   parse_entries buf (length es) i pos out = (True, take i out @ map entry_of es @ drop (i + length es) out)"
proof (induction es arbitrary: pos pre i out)
  case Nil
  then show ?case by simp
next
  case (Cons e es)
  have "parse_entries buf (length (e # es)) i pos out =
      parse_entries buf (length es) (i + 1) (pos + length (entry_bytes e)) (out[i := entry_of e])"
    using parse_entry [OF Cons.prems(1), of buf e "concat (map entry_bytes es) @ rest"] Cons.prems(2) by simp
  also have "\<dots> = (True, take (i + 1) (out[i := entry_of e]) @ map entry_of es @ drop (i + 1 + length es) (out[i := entry_of e]))"
    using Cons.prems by (intro Cons.IH [of _ "pre @ entry_bytes e"]) simp_all
  also have "take (i + 1) (out[i := entry_of e]) = take i out @ [entry_of e]"
    using Cons.prems(3) by (simp add: take_Suc_conv_app_nth)
  finally show ?case using Cons.prems(3) by simp
qed

lemma proclist_parses:
  assumes "length es \<le> 64" and "length es \<le> length out"
  shows "parse_proclist_resp ((to_le 2 MAGIC_PROCLIST_RESP @ to_le 2 (of_nat (length es) :: u16)) @ concat (map entry_bytes es) @ rest) out =
    (Some (length es), map entry_of es @ drop (length es) out)"
proof -
  let ?h = "to_le 2 MAGIC_PROCLIST_RESP @ to_le 2 (of_nat (length es) :: u16)"
  let ?b = "?h @ concat (map entry_bytes es) @ rest"
  have c: "unat (of_nat (length es) :: u16) = length es" using assms(1) by (simp add: unsigned_of_nat take_bit_nat_eq_self)
  have m: "u16_at ?b 0 = MAGIC_PROCLIST_RESP" by (simp add: to_le_2)
  have "u16_at ?b 2 = of_nat (length es)" using u16_bytes [of "of_nat (length es)"] by (simp add: to_le_2 nth_append del: from_le.simps of_nat_add)
  then have n: "unat (u16_at ?b 2) = length es" using c by simp
  have "parse_entries ?b (length es) 0 4 out = (True, take 0 out @ map entry_of es @ drop (0 + length es) out)"
    using assms(2) by (intro parse_entries_back [of _ ?h]) simp_all
  then show ?thesis using assms(2) m n by (simp add: parse_proclist_resp_def Let_def del: from_le.simps)
qed

lemma write_proclist_fits:
  assumes "length es \<le> 64" and n: "n = 4 + length (concat (map entry_bytes es))" "n \<le> length buf"
  shows "write_proclist_resp buf es =
    Ret (Some n, overwrite 0 ((to_le 2 MAGIC_PROCLIST_RESP @ to_le 2 (of_nat (length es) :: u16)) @ concat (map entry_bytes es)) buf)"
proof -
  let ?h = "to_le 2 MAGIC_PROCLIST_RESP @ to_le 2 (of_nat (length es) :: u16)"
  let ?c = "concat (map entry_bytes es)"
  have "overwrite 0 ?h (overwrite 4 ?c buf) = overwrite 0 (?h @ ?c) buf"
    using n by (simp add: overwrite_def min_def eval_nat_numeral)
  moreover have "\<not> length (overwrite 4 ?c buf) < 4" using n by simp
  ultimately show ?thesis using assms(1) n write_entries_fits [of 4 es buf] by (simp add: write_proclist_resp_def)
qed

section \<open>The properties\<close>

text \<open>
  C19. Every fixed-format packet reads back: with a buffer that is long enough the writers of
  pings, pongs, data messages, capabilities, memory requests, answers and releases, and
  process-list requests fill exactly the packet, and the parser of the same kind returns the
  values that were sent, whatever bytes follow the packet; the only refusals are a short buffer,
  a payload of more than 59 bytes and more than 16 handles. No buffer is accepted as two kinds
  of packet.
\<close>

theorem wire_roundtrip:
  assumes "length d = 64"
  shows "carries 6 buf (write_ping buf node) parse_ping node \<and> carries 6 buf (write_pong buf node) parse_pong node \<and>
    (if length p \<le> 59 then carries (6 + length p) buf (write_data buf s e p) parse_data (s, e, p)
     else write_data buf s e p = None) \<and>
    carries 73 buf (write_cap buf s c r i d) parse_cap (s, c, r, i, d) \<and>
    carries 4 buf (write_mem_alloc_req buf q n) parse_mem_alloc_req (q, n) \<and>
    (if length hs \<le> 16 then carries (4 + length hs * 4) buf (write_mem_alloc_resp buf q hs) parse_mem_alloc_resp (q, concat (map (to_le 4) hs))
     else write_mem_alloc_resp buf q hs = None) \<and>
    carries 7 buf (write_mem_free buf q h) parse_mem_free (q, h) \<and>
    carries 3 buf (write_proclist_req buf q) parse_proclist_req q \<and>
    (\<forall>k<9. \<forall>l<9. accepted b out ! k \<and> accepted b out ! l \<longrightarrow> k = l)"
  using assms accepted_one [of _ _ b out]
  by (auto simp: write_ping_carries write_pong_carries write_data_carries write_cap_carries write_mem_alloc_req_carries
      write_mem_alloc_resp_carries write_mem_free_carries write_proclist_req_carries)
    (simp_all add: write_data_def write_mem_alloc_resp_def)

text \<open>
  C28. A process list reads back: with room for it, up to 64 entries are written without
  touching the bytes behind them, and the parser gives each process with its id, its state and
  the first 48 bytes of its name, in order, and leaves the rest of the caller's array alone. A
  buffer that has room for the header but not for the entries is refused; a buffer shorter than
  the header is refused when there is an entry, and makes the kernel panic when the list is
  empty.
\<close>

theorem proclist_roundtrip:
  assumes es: "length es \<le> 64" and out: "length es \<le> length out"
    and n: "n = 4 + length (concat (map entry_bytes es))"
  shows "(n \<le> length buf \<longrightarrow>
      (\<exists>b. write_proclist_resp buf es = Ret (Some n, b) \<and> length b = length buf \<and> drop n b = drop n buf \<and>
        parse_proclist_resp (take n b @ rest) out = (Some (length es), map entry_of es @ drop (length es) out))) \<and>
    (4 \<le> length buf \<and> length buf < n \<longrightarrow> (\<exists>b. write_proclist_resp buf es = Ret (None, b))) \<and>
    (length buf < 4 \<longrightarrow> write_proclist_resp buf es = (if es = [] then Panic else Ret (None, buf)))"
proof (intro conjI impI)
  let ?x = "(to_le 2 MAGIC_PROCLIST_RESP @ to_le 2 (of_nat (length es) :: u16)) @ concat (map entry_bytes es)"
  assume "n \<le> length buf"
  with write_proclist_fits [OF es n this] written_n [of n ?x buf] n proclist_parses [OF es out, of rest]
  show "\<exists>b. write_proclist_resp buf es = Ret (Some n, b) \<and> length b = length buf \<and> drop n b = drop n buf \<and>
        parse_proclist_resp (take n b @ rest) out = (Some (length es), map entry_of es @ drop (length es) out)"
    by (intro exI [of _ "overwrite 0 ?x buf"]) simp
next
  assume "4 \<le> length buf \<and> length buf < n"
  with write_entries_short [of 4 es buf] n have "fst (write_entries es 4 buf) = None" by simp
  with es show "\<exists>b. write_proclist_resp buf es = Ret (None, b)"
    by (cases "write_entries es 4 buf") (simp add: write_proclist_resp_def)
next
  assume "length buf < 4"
  with es show "write_proclist_resp buf es = (if es = [] then Panic else Ret (None, buf))"
    by (cases es) (auto simp: write_proclist_resp_def Let_def)
qed

section \<open>Witnesses\<close>

theorem wire_roundtrip_witness:
  "carries 6 (replicate 6 0) (write_ping (replicate 6 0) 0x01020304) parse_ping 0x01020304 \<and>
   parse_ping [0xA0, 0xD1, 4, 3, 2, 1] = Some 0x01020304 \<and> length (replicate 64 (0 :: u8)) = 64"
  using wire_roundtrip [of "replicate 64 0" "replicate 6 0" "0x01020304" "[]" 0 0 0 0 0 0 0 "[]" 0 "[]" "[]"]
  by (simp add: parse_ping_def)

theorem proclist_roundtrip_witness:
  "\<exists>b. write_proclist_resp (replicate 20 0) [(7, 1, [105, 110, 105, 116])] = Ret (Some 14, b) \<and> length b = 20 \<and>
     fst (parse_proclist_resp (take 14 b) [\<lparr>re_pid = 0, re_state = 0, re_name = [], re_name_len = 0\<rparr>]) = Some 1"
  using proclist_roundtrip [of "[(7, 1, [105, 110, 105, 116])]" "[\<lparr>re_pid = 0, re_state = 0, re_name = [], re_name_len = 0\<rparr>]" 14
      "replicate 20 0" "[]"]
  by (auto simp del: from_le.simps)

end
