(* ===== verification/Spec2Isabelle.thy ===== *)
theory Spec2Isabelle
  imports Kernel_Prelude Page_Allocator Capabilities Zicond Scheduler Ipc Extension Address_Translation
    Memory_Calls Wasm_Runtime Wire_Protocol
begin

text \<open>
  \<^bold>\<open>The TrainOS kernel in Isabelle/HOL.\<close>

  TrainOS (src/kernel) is a RISC-V microkernel in Rust. This library translates its core into
  HOL and proves what makes that core correct; where the code does not do what it means to,
  the library proves what it does instead.

  \<^bold>\<open>The parts and how they interact.\<close> The page allocator (mem/buddy.rs) owns physical memory and
  hands pages to everything else; the page tables (mem/sv39.rs) take their tables from it and
  give each process a translation; the scheduler (sched/mod.rs, numa/mod.rs) keeps one set of
  ready queues per NUMA node and picks the thread to run; IPC (ipc/, syscall/ipc.rs) blocks
  and wakes threads through the scheduler; capabilities (cap/, syscall/cap.rs) name the objects
  a process may use; extensions (extension/) are small verified programs the kernel runs at
  hooks; the memory calls (syscall/memory.rs) change the tables of the current process with pages
  from the allocator, unless a seal (mem/mseal.rs) or the pointer check (aslr/mod.rs) forbids it,
  and the loader changes them in transactions (mem/txmmu.rs); the kernel heap (mem/heap.rs) serves
  the kernel's own data; the WebAssembly runtime (wasm/) loads modules, takes their linear memory
  from the heap, interprets them, and forwards their imports to host functions and system calls;
  the distributed IPC talks to other nodes in the packets of distributed/protocol.rs.

  \<^bold>\<open>Conventions.\<close> \<open>usize\<close> is a natural number, with \<open>usize_add\<close> and \<open>usize_sub\<close> where the 64-bit
  wrap matters; \<open>u8\<close> to \<open>u64\<close> are words. A Rust \<open>Result\<close> is \<open>result\<close> (\<open>Inl\<close> the message). A function
  that can panic or not return has the type \<open>outcome\<close> (\<open>Ret\<close>, \<open>Panic\<close>, \<open>Hang\<close>) or an \<open>option\<close> whose
  \<open>None\<close> is that event; every theorem that a call returns is stated as such. Physical memory is
  a store from byte addresses to 64-bit cells (\<open>pmem\<close>), for the heap a store of bytes (\<open>bmem\<close>). The
  kernel reaches a frame at its address plus a constant (\<open>pa_to_kva\<close>); the store is indexed by the
  physical address, so that offset shows only where the source computes with it. A static of the
  source is a field of an explicit state record; a lock that is taken and released
  within one operation does not show.

  \<^bold>\<open>The theories.\<close>

  \<^item> \<open>Kernel_Prelude\<close>: the integer types, results and outcomes, little-endian bytes, generic list
    lemmas, and the interface \<open>fifo\<close> of a queue.

  \<^item> \<open>Buddy_Allocator\<close>, \<open>Page_Allocator\<close>: mem/buddy.rs. Free lists are chains of links stored in
    the free pages themselves; the per-hart page caches sit in front. Proved: exclusive
    ownership of allocated blocks, reuse after free, exact accounting, what \<open>init\<close> makes available.

  \<^item> \<open>Capabilities\<close>: cap/types.rs, cap/ops.rs, syscall/cap.rs. Reference-counted resources and
    slots. Proved: no freed resource comes back; the derivations form a forest in every reachable
    state, and \<open>revoke\<close> takes exactly one reference from each resource of the subtree; \<open>sys_mint\<close> refuses
    exactly the escalations and does what it is asked otherwise; three operations deadlock on their
    own lock.

  \<^item> \<open>Zicond\<close>: mem/zicond.rs, branchless arithmetic; the instruction is a parameter with the
    documented semantics as hypothesis.

  \<^item> \<open>Ready_Queues\<close>, \<open>Scheduler\<close>: the EEVDF queues, \<open>schedule\<close>, balancing, preemption, placement.
    \<open>schedule_locked\<close> is the part of \<open>schedule\<close> under the lock; the switch that follows is a \<open>SwitchAction\<close>,
    and the idle loop a hart with nothing to run stays in is \<open>Hang\<close>. Proved: no thread is lost or
    duplicated, queued threads stay filed under their effective priority and the choice is by that
    priority and the deadline, balancing is safe, and the kernel's own check of the queues is exact.

  \<^item> \<open>Ipc\<close>: message rings, endpoints, \<open>send\<close>, \<open>recv\<close> and the system calls over the scheduler.
    Proved over all runs: delivery is first-in first-out without loss, a registered receiver is
    blocked exactly while nothing is pending, bytes travel unchanged.

  \<^item> \<open>Extension\<close>: the bytecode verifier and interpreter. Proved: the verifier returns on every
    input and what it accepts runs without any fault; a hook changes nothing but the scratch buffer.
    Registers, stack, scratch buffer and code are indexed with a panic outside their bounds.

  \<^item> \<open>Page_Table\<close>, \<open>Address_Translation\<close>: mem/sv39.rs, the walk of proc/elf.rs and the W^X part of
    security/mod.rs, against the translation the MMU performs (\<open>hw_walk\<close>, the three-level walk; it leaves
    out the faults for reserved encodings, misaligned superpages, addresses that are not canonical
    and missing rights, which are properties of an access). Proved: mapping and unmapping refine the update of one
    translation, splitting a superpage is invisible, the W^X pass and check are exact.

  \<^item> \<open>Memory_Calls\<close>: syscall/memory.rs, mem/mseal.rs, mem/txmmu.rs and the pointer check of
    aslr/mod.rs. \<open>MemSys\<close> joins the scheduler's state, the process table, the seals, the break table
    and the page allocator; a \<open>TxMMU\<close> is a transaction. Proved: a seal keeps the translation of its
    range through every run of aligned calls by all processes; an address above the 39 bits of the
    walk gets around it, as does a shrinking \<open>sys_brk\<close>; a commit refines the sequence of its
    operations, and what a failed commit leaves behind.

  \<^item> \<open>Wire_Protocol\<close>: distributed/protocol.rs. Proved: what is written is read back for every kind of
    packet, no buffer is two kinds of packet, and when a writer refuses or panics.

  \<^item> \<open>Kernel_Heap\<close>: mem/heap.rs. A bump allocator with canaries over a byte store. Proved: a block it
    hands out is fresh, zero and framed by canaries.

  \<^item> \<open>Wasm_Module\<close>, \<open>Wasm_Vm\<close>: wasm/mod.rs and wasm/hostcall.rs. The first holds the decoder, the
    section parsers, the scan for block ends, loading, unloading, hot reload and the system-call
    table; the second the interpreter, one definition per group of opcodes, with \<open>wasm_step\<close> as one
    iteration of the loop of \<open>wasm_execute\<close>. A module is a \<open>WasmModule\<close>, the statics are \<open>WasmSys\<close>, the
    locals of \<open>wasm_execute\<close> are \<open>WasmVm\<close>. Every array is indexed with a check that panics, as in the
    source. The native code an import ends in is the parameter \<open>Native\<close>: the code at the address of a
    host function, and \<open>syscall_dispatch_wasm\<close>, the way into all system calls. It works on the whole
    state of the runtime and may panic or never come back; the theorems name what they need of it.

  \<^item> \<open>Wasm_Safety\<close>, \<open>Wasm_Runtime\<close>: what the runtime keeps. Proved: every step is type safe and panics
    only for a cut-off immediate, a return over a full stack or native code that panics; an execution
    is confined to the module's memory unless a \<open>memory.grow\<close> wraps, for native code that leaves the
    module and the tables alone (\<open>natives_ok\<close>); what growth leaves in memory, what a wrapping growth overwrites, that a grown module
    cannot be unloaded; the decoder inverts the encoder; every reachable module table is well
    formed whatever bytes were loaded; and that imports are found by the first alias they are a
    prefix of.

  \<^bold>\<open>Interfaces.\<close> \<open>fifo\<close> is interpreted on the thread queues (\<open>tq\<close>) and on the message rings (\<open>mq\<close>);
  \<open>frame_source\<close>, what the page tables need of an allocator, is interpreted on \<open>alloc_page\<close> (\<open>fr\<close>);
  \<open>block_heap\<close>, what the WebAssembly runtime needs of the heap, is interpreted on \<open>heap_alloc_zeroed\<close>
  and \<open>heap_dealloc\<close> (\<open>kh\<close>); \<open>packet\<close>, what a packet format promises, is interpreted on each fixed format
  of \<open>Wire_Protocol\<close>.

  \<^bold>\<open>Bounds and fuel.\<close> Loops are structural recursion or functions with a termination proof by a
  measure. The extension interpreter and the WebAssembly interpreter have the source's own cycle
  budgets as their bounds. \<open>revoke\<close>, whose recursion follows the derivations, has a depth as its first
  argument; its theorem holds for every depth that is at least the number of resource ids given out,
  so no theorem depends on a value chosen here.

  \<^bold>\<open>Not modelled.\<close> Assembly and control registers (trap entry, context switch, \<open>satp\<close>, interrupt
  controllers, PMP, hypervisor CSRs), device drivers and the window system (memory-mapped I/O
  and pixels), console output, cryptographic instructions, the WASI host functions and the
  library-OS and hybrid hooks of wasm/ (native code behind the parameters of the interpreter), the
  POSIX file, socket and process calls, io_uring, namespaces, the loader but for its page-table walk,
  and the services that run in user space. Of aslr/mod.rs only the check that \<open>sys_mmap\<close> uses is modelled. Interleavings of
  harts inside one operation are not modelled: each operation holds its lock, or, for the seals,
  runs with interrupts disabled as their source says.
\<close>

end
